theory Spec2Isabelle
  imports Main "HOL-Library.AList"
begin

section \<open>The type catalogue\<close>

text \<open>
  The generator scripts work on a dictionary \<open>types\<close> from type name to type description,
  filled by \<^verbatim>\<open>getTypesFromCode\<close> (parse.mjs) in declaration order. A dictionary with
  insertion order is modelled as the list of its values; \<^verbatim>\<open>types[name]\<close> finds the entry
  whose \<open>name\<close> is the key (parse.mjs stores every description under its own name).

  The helpers of utils.mjs (\<^verbatim>\<open>typeAndWrappers\<close>, \<^verbatim>\<open>unwrapTypeName\<close>, \<^verbatim>\<open>camelToSnake\<close>,
  \<^verbatim>\<open>snakeToCamel\<close>, \<^verbatim>\<open>toTypeName\<close>) are not among the sources. Identifiers that the scripts
  build with the last three (\<^verbatim>\<open>walk_${camelToSnake(name)}\<close>, \<^verbatim>\<open>${type.name}${fieldCamelName}\<close>,
  \<^verbatim>\<open>OFFSET_..\<close>) are kept symbolic: a constructor applied to the names they are built from.
\<close>

text \<open>
  Modelled from the spec: \<^verbatim>\<open>typeAndWrappers\<close> and \<^verbatim>\<open>unwrapTypeName\<close> of utils.mjs are missing.
  Spec section 3: \<open>wrappers\<close> records the nesting applied to the unwrapped element type to
  form the declared type, e.g. \<^verbatim>\<open>Option<Sequence<T>>\<close> is \<^verbatim>\<open>[Option, Sequence]\<close> over \<^verbatim>\<open>T\<close>.
  A declared type is therefore kept in parsed form, outermost wrapper first.
\<close>

datatype rust_type = RustType (wrappers: "string list") (inner: string)

definition typeAndWrappers :: "rust_type \<Rightarrow> string \<times> string list" where
  "typeAndWrappers ty = (inner ty, wrappers ty)"

definition unwrapTypeName :: "rust_type \<Rightarrow> string" where
  "unwrapTypeName ty = fst (typeAndWrappers ty)"

datatype offset_var = OFFSET string string
  \<comment> \<open>\<^verbatim>\<open>OFFSET_${typeScreamingName}_${field.name.toUpperCase()}\<close>\<close>

record field =
  f_name :: string
  f_type :: rust_type
  f_rawName :: string
  f_rawTypeName :: string
  offsetVarName :: "offset_var option"
  ancestorDiscriminant :: "nat option"

text \<open>
  Modelled from the spec: \<^verbatim>\<open>field.innerTypeName\<close> is read by \<^verbatim>\<open>generateAncestorsCode\<close> but set by
  no source file; spec section 3 calls it the unwrapped element type of the field.
\<close>

definition innerTypeName :: "field \<Rightarrow> string" where
  "innerTypeName f = unwrapTypeName (f_type f)"

record variant =
  v_name :: string
  v_type :: rust_type
  v_discriminant :: "nat option"

datatype type_def =
    Struct (t_name: string) (hasLifetime: bool) "field list"
  | Enum (t_name: string) (hasLifetime: bool) "variant list" "string list"

definition types_get :: "type_def list \<Rightarrow> string \<Rightarrow> type_def option" where
  "types_get types n = find (\<lambda>t. t_name t = n) types"

section \<open>generateAncestorsCode\<close>

datatype variant_name = VariantName string string
  \<comment> \<open>\<^verbatim>\<open>${type.name}${fieldNameCamel}\<close>\<close>

datatype struct_name = Without string string
  \<comment> \<open>\<^verbatim>\<open>${type.name}Without${fieldNameCamel}\<close>\<close>

record accessor =
  a_name :: string
  a_offset :: "offset_var option"
  a_type :: string

datatype ancestor_item =
    OffsetConst offset_var string string
      \<comment> \<open>\<^verbatim>\<open>const ${offsetVarName}: usize = offset_of!(${type.name}, ${field.rawName})\<close>\<close>
  | AncestorStruct struct_name string "accessor list"
      \<comment> \<open>the struct wrapping \<^verbatim>\<open>*const ${type.name}\<close>, and its methods\<close>

record ancestor_variant =
  av_name :: variant_name
  av_struct :: struct_name
  av_discriminant :: nat

datatype discriminant_type = U8 | U16

record ancestors_code =
  discriminantType :: discriminant_type
  enumVariants :: "ancestor_variant list"
  ancestorTypes :: "ancestor_item list"

text \<open>The accessor methods of one tag: every field of the struct but the tagged one
  (\<^verbatim>\<open>if (otherField === field) continue\<close> compares objects, that is positions).\<close>

definition methodsCode :: "field list \<Rightarrow> nat \<Rightarrow> accessor list" where
  "methodsCode fs i =
     map (\<lambda>(j, otherField).
            \<lparr>a_name = f_rawName otherField, a_offset = offsetVarName otherField,
             a_type = f_rawTypeName otherField\<rparr>)
       (filter (\<lambda>(j, otherField). j \<noteq> i) (enumerate 0 fs))"

text \<open>The second loop over the fields of one struct: \<open>i\<close> is the position of the first field
  of \<open>rest\<close> in \<open>fs\<close>, \<open>d\<close> the running discriminant.\<close>

fun ancestorFields ::
  "type_def list \<Rightarrow> string \<Rightarrow> field list \<Rightarrow> nat \<Rightarrow> field list \<Rightarrow> nat
     \<Rightarrow> ancestor_item list \<times> ancestor_variant list \<times> field list \<times> nat" where
  "ancestorFields types T fs i [] d = ([], [], [], d)"
| "ancestorFields types T fs i (field # rest) d =
     (case types_get types (innerTypeName field) of
        None \<Rightarrow>
          (let (items, vs, rest', d') = ancestorFields types T fs (Suc i) rest d
           in (items, vs, field # rest', d'))
      | Some fieldType \<Rightarrow>
          (let structName = Without T (f_name field);
               variantName = VariantName T (f_name field);
               (items, vs, rest', d') = ancestorFields types T fs (Suc i) rest (Suc d)
           in (AncestorStruct structName T (methodsCode fs i) # items,
               \<lparr>av_name = variantName, av_struct = structName, av_discriminant = d\<rparr> # vs,
               field\<lparr>ancestorDiscriminant := Some d\<rparr> # rest',
               d')))"

fun ancestorTypesLoop ::
  "type_def list \<Rightarrow> type_def list \<Rightarrow> nat
     \<Rightarrow> ancestor_item list \<times> ancestor_variant list \<times> type_def list \<times> nat" where
  "ancestorTypesLoop types [] d = ([], [], [], d)"
| "ancestorTypesLoop types (Enum n l vs inh # rest) d =
     (let (items, avs, rest', d') = ancestorTypesLoop types rest d
      in (items, avs, Enum n l vs inh # rest', d'))"
| "ancestorTypesLoop types (Struct n l fs # rest) d =
     (let fs1 = map (\<lambda>f. f\<lparr>offsetVarName := Some (OFFSET n (f_name f))\<rparr>) fs;
          consts = map (\<lambda>f. OffsetConst (OFFSET n (f_name f)) n (f_rawName f)) fs;
          (structs, avs1, fs2, d1) = ancestorFields types n fs1 0 fs1 d;
          (items, avs, rest', d') = ancestorTypesLoop types rest d1
      in (consts @ structs @ items, avs1 @ avs, Struct n l fs2 # rest', d'))"

text \<open>The function returns the generated code; the catalogue it has annotated (every field
  of a struct with its \<open>offsetVarName\<close>, every tagged field with its \<open>ancestorDiscriminant\<close>) is
  returned beside it. The \<^verbatim>\<open>is_*\<close> predicates it also emits are left out: they neither read
  nor change the discriminant counter, the constants or the accessors.\<close>

definition generateAncestorsCode :: "type_def list \<Rightarrow> ancestors_code \<times> type_def list" where
  "generateAncestorsCode types =
     (let (items, avs, types', discriminant) = ancestorTypesLoop types types 1
      in (\<lparr>discriminantType = (if discriminant \<le> 256 then U8 else U16),
           enumVariants = avs, ancestorTypes = items\<rparr>, types'))"

text \<open>The generated \<^verbatim>\<open>enum Ancestor { None = 0, ${enumVariants} }\<close>: variant and discriminant,
  \<open>None\<close> standing for the root tag.\<close>

definition Ancestor :: "ancestors_code \<Rightarrow> (variant_name option \<times> nat) list" where
  "Ancestor code =
     (None, 0) # map (\<lambda>v. (Some (av_name v), av_discriminant v)) (enumVariants code)"

section \<open>generateWalkFunctionsCode\<close>

text \<open>
  The walk functions are emitted as text of the target language. The model keeps the syntax
  tree of that text: one constructor per template of the script.
\<close>

datatype walk_fn = WalkFn string | WalkStatements
  \<comment> \<open>\<^verbatim>\<open>walk_${camelToSnake(name)}\<close> and the fixed \<^verbatim>\<open>walk_statements\<close>\<close>

datatype hook = EnterHook string | ExitHook string | EnterStatements | ExitStatements
  \<comment> \<open>\<^verbatim>\<open>enter_${snakeName}\<close>, \<^verbatim>\<open>exit_${snakeName}\<close>, \<^verbatim>\<open>enter_statements\<close>, \<^verbatim>\<open>exit_statements\<close>\<close>

datatype expr =
    Var string
  | FieldPtr "offset_var option" rust_type
      \<comment> \<open>\<^verbatim>\<open>(node as *mut u8).add(ancestor::${field.offsetVarName}) as *mut ${field.type}\<close>\<close>
  | Unbox expr
      \<comment> \<open>\<^verbatim>\<open>(&mut **e)\<close>\<close>

datatype pattern = Pattern string string "string option"
  \<comment> \<open>\<^verbatim>\<open>${type.name}::${variant.name}(node)\<close>, or \<^verbatim>\<open>(_)\<close> when nothing is bound\<close>

datatype stmt =
    CallHook hook expr
      \<comment> \<open>\<^verbatim>\<open>traverser.enter_x(&mut *e, ctx)\<close>\<close>
  | PushStack variant_name struct_name
      \<comment> \<open>\<^verbatim>\<open>ctx.push_stack(Ancestor::V(ancestor::S(node)))\<close>\<close>
  | RetagStack "nat option"
      \<comment> \<open>\<^verbatim>\<open>ctx.retag_stack(${field.ancestorDiscriminant})\<close>\<close>
  | PopStack
  | Call walk_fn expr
      \<comment> \<open>\<^verbatim>\<open>walk_x(traverser, e as *mut _, ctx)\<close>\<close>
  | IfLetSome string expr "stmt list"
      \<comment> \<open>\<^verbatim>\<open>if let Some(x) = &mut *(e) { .. }\<close>\<close>
  | ForIn string expr bool "stmt list"
      \<comment> \<open>\<^verbatim>\<open>for x in (e).iter_mut() { .. }\<close>, the flag for \<^verbatim>\<open>.flatten()\<close>\<close>
  | Match expr "(pattern list \<times> stmt) list"
      \<comment> \<open>\<^verbatim>\<open>match &mut *e { p | p => s, .. }\<close>\<close>

record function_def =
  fd_name :: walk_fn
  fd_param :: string
  fd_body :: "stmt list"

datatype gen_error =
    CannotHandleStructField rust_type
  | CannotHandleEnumVariant rust_type
  | MissingEnumVariants "string list"
  | TypeError

subsection \<open>generateWalkForStruct\<close>

text \<open>The function mapped over \<open>visitedFields\<close>: the code of one field, or the assertion
  that stops the generator.\<close>

definition fieldCodeFor :: "field \<Rightarrow> nat \<Rightarrow> gen_error + stmt list" where
  "fieldCodeFor field index =
     (let (fieldTypeName, fieldTypeWrappers) = typeAndWrappers (f_type field);
          retagCode = (if index = 0 then [] else [RetagStack (ancestorDiscriminant field)]);
          fieldCode = FieldPtr (offsetVarName field) (f_type field)
      in if fieldTypeWrappers \<noteq> [] \<and> hd fieldTypeWrappers = ''Option'' then
           (let remainingWrappers = drop 1 fieldTypeWrappers
            in if remainingWrappers = [''Vec''] then
                 (if fieldTypeName = ''Statement'' then
                    Inr [IfLetSome ''field'' fieldCode
                           (retagCode @ [Call WalkStatements (Var ''field'')])]
                  else
                    Inr [IfLetSome ''field'' fieldCode
                           (retagCode @
                            [ForIn ''item'' (Var ''field'') False
                               [Call (WalkFn fieldTypeName) (Var ''item'')]])])
               else if remainingWrappers = [''Box''] then
                 Inr [IfLetSome ''field'' fieldCode
                        (retagCode @ [Call (WalkFn fieldTypeName) (Unbox (Var ''field''))])]
               else if remainingWrappers = [] then
                 Inr [IfLetSome ''field'' fieldCode
                        (retagCode @ [Call (WalkFn fieldTypeName) (Var ''field'')])]
               else Inl (CannotHandleStructField (f_type field)))
         else if fieldTypeWrappers \<noteq> [] \<and> hd fieldTypeWrappers = ''Vec'' then
           (let remainingWrappers = drop 1 fieldTypeWrappers
            in if remainingWrappers = [] \<and> fieldTypeName = ''Statement'' then
                 Inr (retagCode @ [Call WalkStatements fieldCode])
               else if remainingWrappers = [''Option''] then
                 Inr (retagCode @
                      [ForIn ''item'' fieldCode True
                         [Call (WalkFn fieldTypeName) (Var ''item'')]])
               else if remainingWrappers = [] then
                 Inr (retagCode @
                      [ForIn ''item'' fieldCode False
                         [Call (WalkFn fieldTypeName) (Var ''item'')]])
               else Inl (CannotHandleStructField (f_type field)))
         else if fieldTypeWrappers = [''Box''] then
           Inr (retagCode @ [Call (WalkFn fieldTypeName) (Unbox fieldCode)])
         else if fieldTypeWrappers = [] then
           Inr (retagCode @ [Call (WalkFn fieldTypeName) fieldCode])
         else Inl (CannotHandleStructField (f_type field)))"

text \<open>\<^verbatim>\<open>visitedFields.map((field, index) => ..)\<close>: the first failing assertion ends the run.\<close>

fun fieldsCodesFrom :: "field list \<Rightarrow> nat \<Rightarrow> gen_error + stmt list list" where
  "fieldsCodesFrom [] index = Inr []"
| "fieldsCodesFrom (field # rest) index =
     (case fieldCodeFor field index of
        Inl e \<Rightarrow> Inl e
      | Inr code \<Rightarrow>
          (case fieldsCodesFrom rest (Suc index) of
             Inl e \<Rightarrow> Inl e
           | Inr codes \<Rightarrow> Inr (code # codes)))"

definition visitedFieldsOf :: "type_def list \<Rightarrow> field list \<Rightarrow> field list" where
  "visitedFieldsOf types fs =
     filter (\<lambda>field. types_get types (unwrapTypeName (f_type field)) \<noteq> None) fs"

fun generateWalkForStruct :: "type_def \<Rightarrow> type_def list \<Rightarrow> gen_error + function_def" where
  "generateWalkForStruct (Struct name l fs) types =
     (let visitedFields = visitedFieldsOf types fs
      in case fieldsCodesFrom visitedFields 0 of
           Inl e \<Rightarrow> Inl e
         | Inr fieldsCodes \<Rightarrow>
             (let fieldsCodes' =
                    (case visitedFields of
                       [] \<Rightarrow> fieldsCodes
                     | field # _ \<Rightarrow>
                         [[PushStack (VariantName name (f_name field))
                                     (Without name (f_name field))]]
                         @ fieldsCodes @ [[PopStack]])
              in Inr \<lparr>fd_name = WalkFn name, fd_param = ''node'',
                      fd_body = [CallHook (EnterHook name) (Var ''node'')]
                                @ concat fieldsCodes'
                                @ [CallHook (ExitHook name) (Var ''node'')]\<rparr>))"
| "generateWalkForStruct (Enum name l vs inh) types = Inl TypeError"

subsection \<open>generateWalkForEnum\<close>

definition variantCodeFor ::
  "type_def list \<Rightarrow> string \<Rightarrow> variant \<Rightarrow> gen_error + pattern list \<times> stmt" where
  "variantCodeFor types name variant =
     (let (variantTypeName, fieldTypeWrappers) = typeAndWrappers (v_type variant)
      in if types_get types variantTypeName = None then
           Inl (CannotHandleEnumVariant (v_type variant))
         else if fieldTypeWrappers = [''Box''] then
           Inr ([Pattern name (v_name variant) (Some ''node'')],
                Call (WalkFn variantTypeName) (Unbox (Var ''node'')))
         else if fieldTypeWrappers = [] then
           Inr ([Pattern name (v_name variant) (Some ''node'')],
                Call (WalkFn variantTypeName) (Var ''node''))
         else Inl (CannotHandleEnumVariant (v_type variant)))"

fun variantCodesFrom ::
  "type_def list \<Rightarrow> string \<Rightarrow> variant list \<Rightarrow> gen_error + (pattern list \<times> stmt) list" where
  "variantCodesFrom types name [] = Inr []"
| "variantCodesFrom types name (variant # rest) =
     (case variantCodeFor types name variant of
        Inl e \<Rightarrow> Inl e
      | Inr code \<Rightarrow>
          (case variantCodesFrom types name rest of
             Inl e \<Rightarrow> Inl e
           | Inr codes \<Rightarrow> Inr (code # codes)))"

text \<open>The inner loop \<^verbatim>\<open>for (let i = 0; i < inheritedFrom.length; i++)\<close>. The array grows
  while it is read, and nothing keeps the loop from running forever on an enum that
  inherits from itself: not returning is the value \<open>None\<close>.\<close>

partial_function (option) inheritedLoop ::
  "type_def list \<Rightarrow> string list \<Rightarrow> nat \<Rightarrow> string list \<Rightarrow> string list
     \<Rightarrow> (string list \<times> string list) option" where
  [code]: "inheritedLoop types inheritedFrom i variantMatches missingVariants =
     (if i < length inheritedFrom then
        (case types_get types (inheritedFrom ! i) of
           Some (Enum n l vs inh) \<Rightarrow>
             inheritedLoop types (inheritedFrom @ inh) (Suc i)
               (variantMatches @ map v_name vs) missingVariants
         | _ \<Rightarrow>
             inheritedLoop types inheritedFrom (Suc i) variantMatches
               (missingVariants @ [inheritedFrom ! i]))
      else Some (variantMatches, missingVariants))"

text \<open>The outer loop \<^verbatim>\<open>for (const inheritedTypeName of type.inherits)\<close>: one match arm
  for each inherited enum, \<open>missingVariants\<close> shared between the rounds.\<close>

fun inheritedCodes ::
  "type_def list \<Rightarrow> string \<Rightarrow> string list \<Rightarrow> string list
     \<Rightarrow> ((pattern list \<times> stmt) list \<times> string list) option" where
  "inheritedCodes types name [] missingVariants = Some ([], missingVariants)"
| "inheritedCodes types name (inheritedTypeName # rest) missingVariants =
     (case inheritedLoop types [inheritedTypeName] 0 [] missingVariants of
        None \<Rightarrow> None
      | Some (variantMatches, missingVariants') \<Rightarrow>
          (case inheritedCodes types name rest missingVariants' of
             None \<Rightarrow> None
           | Some (codes, missingVariants'') \<Rightarrow>
               Some ((map (\<lambda>v. Pattern name v None) variantMatches,
                      Call (WalkFn inheritedTypeName) (Var ''node'')) # codes,
                     missingVariants'')))"

fun generateWalkForEnum ::
  "type_def \<Rightarrow> type_def list \<Rightarrow> (gen_error + function_def) option" where
  "generateWalkForEnum (Enum name l vs inh) types =
     (case variantCodesFrom types name vs of
        Inl e \<Rightarrow> Some (Inl e)
      | Inr variantCodes \<Rightarrow>
          (case inheritedCodes types name inh [] of
             None \<Rightarrow> None
           | Some (codes, missingVariants) \<Rightarrow>
               if missingVariants \<noteq> [] then Some (Inl (MissingEnumVariants missingVariants))
               else Some (Inr \<lparr>fd_name = WalkFn name, fd_param = ''node'',
                               fd_body = [CallHook (EnterHook name) (Var ''node''),
                                          Match (Var ''node'') (variantCodes @ codes),
                                          CallHook (ExitHook name) (Var ''node'')]\<rparr>)))"
| "generateWalkForEnum (Struct name l fs) types = Some (Inl TypeError)"

subsection \<open>generateWalkFunctionsCode and generateTraverseTraitCode\<close>

definition walk_statements :: function_def where
  "walk_statements =
     \<lparr>fd_name = WalkStatements, fd_param = ''stmts'',
      fd_body = [CallHook EnterStatements (Var ''stmts''),
                 ForIn ''stmt'' (Var ''stmts'') False [Call (WalkFn ''Statement'') (Var ''stmt'')],
                 CallHook ExitStatements (Var ''stmts'')]\<rparr>"

fun walkMethodsFrom ::
  "type_def list \<Rightarrow> type_def list \<Rightarrow> (gen_error + function_def list) option" where
  "walkMethodsFrom types [] = Some (Inr [])"
| "walkMethodsFrom types (type # rest) =
     (case (case type of
              Struct name l fs \<Rightarrow> Some (generateWalkForStruct type types)
            | Enum name l vs inh \<Rightarrow> generateWalkForEnum type types) of
        None \<Rightarrow> None
      | Some (Inl e) \<Rightarrow> Some (Inl e)
      | Some (Inr f) \<Rightarrow>
          (case walkMethodsFrom types rest of
             None \<Rightarrow> None
           | Some (Inl e) \<Rightarrow> Some (Inl e)
           | Some (Inr fs) \<Rightarrow> Some (Inr (f # fs))))"

definition generateWalkFunctionsCode ::
  "type_def list \<Rightarrow> (gen_error + function_def list) option" where
  "generateWalkFunctionsCode types =
     (case walkMethodsFrom types types of
        None \<Rightarrow> None
      | Some (Inl e) \<Rightarrow> Some (Inl e)
      | Some (Inr walkMethods) \<Rightarrow> Some (Inr (walkMethods @ [walk_statements])))"

text \<open>The trait: for every type an enter and an exit method, and the two hooks of statement
  lists, each with the empty default body \<^verbatim>\<open>{}\<close>.\<close>

definition generateTraverseTraitCode :: "type_def list \<Rightarrow> (hook \<times> stmt list) list" where
  "generateTraverseTraitCode types =
     concat (map (\<lambda>type. [(EnterHook (t_name type), []), (ExitHook (t_name type), [])]) types)
     @ [(EnterStatements, []), (ExitStatements, [])]"

section \<open>Reading the generated code\<close>

text \<open>The operations of a piece of generated code in the order of its text, which for the
  straight-line body of a struct's walk function is the order of execution.\<close>

datatype prim = PHook hook | PPush variant_name | PRetag "nat option" | PPop | PCall walk_fn

fun flat_ops :: "stmt \<Rightarrow> prim list" where
  "flat_ops (CallHook h e) = [PHook h]"
| "flat_ops (PushStack v s) = [PPush v]"
| "flat_ops (RetagStack d) = [PRetag d]"
| "flat_ops PopStack = [PPop]"
| "flat_ops (Call f e) = [PCall f]"
| "flat_ops (IfLetSome x e body) = concat (map flat_ops body)"
| "flat_ops (ForIn x e fl body) = concat (map flat_ops body)"
| "flat_ops (Match e arms) = concat (map (\<lambda>arm. flat_ops (snd arm)) arms)"

text \<open>The walk function a descendable field is handed to: \<^verbatim>\<open>walk_statements\<close> for a
  \<^verbatim>\<open>Vec<Statement>\<close> or an \<^verbatim>\<open>Option<Vec<Statement>>\<close>, the walk function of its unwrapped type
  otherwise.\<close>

definition walkTarget :: "field \<Rightarrow> walk_fn" where
  "walkTarget f =
     (if inner (f_type f) = ''Statement''
         \<and> (wrappers (f_type f) = [''Vec''] \<or> wrappers (f_type f) = [''Option'', ''Vec''])
      then WalkStatements else WalkFn (inner (f_type f)))"

text \<open>The tags of a catalogue in declaration order: for every struct, its fields whose
  unwrapped type is catalogued.\<close>

definition tagsOf :: "type_def list \<Rightarrow> string \<Rightarrow> field list \<Rightarrow> variant_name list" where
  "tagsOf types T fs =
     map (\<lambda>f. VariantName T (f_name f))
       (filter (\<lambda>f. types_get types (innerTypeName f) \<noteq> None) fs)"

fun ancestorTags :: "type_def list \<Rightarrow> type_def list \<Rightarrow> variant_name list" where
  "ancestorTags types [] = []"
| "ancestorTags types (Struct n l fs # rest) = tagsOf types n fs @ ancestorTags types rest"
| "ancestorTags types (Enum n l vs inh # rest) = ancestorTags types rest"

section \<open>Running the generated code\<close>

text \<open>
  Modelled from the spec: the runtime of the generated code (the traversal context with
  \<^verbatim>\<open>push_stack\<close>, \<^verbatim>\<open>retag_stack\<close> and \<^verbatim>\<open>pop_stack\<close>, the syntax tree, the visitor) is not among
  the sources. Spec sections 3 and 4.2: the ancestor stack is an ordered sequence of
  entries, each a tag; a push puts an entry on top, a retag replaces the tag of the top
  entry in place, a pop takes the top entry off. A tag is its discriminant in the generated
  enum. Hooks get mutable access to the node and read access to the stack. A tree is built
  from terminal data, the three wrappers, structs (fields by raw name) and enum values (a
  variant and its payload).
\<close>

datatype val =
    VLeaf string
  | VNone
  | VSome val
  | VVec "val list"
  | VBox val
  | VStruct string "(string \<times> val) list"
  | VEnum string val

datatype event =
    EvHook hook "nat list"
  | EvPush variant_name nat
  | EvRetag nat
  | EvPop

record program =
  p_ancestor :: ancestors_code
  p_walk :: "function_def list"
  p_trait :: "(hook \<times> stmt list) list"

text \<open>A visitor overrides some hooks; the others keep the default body of the trait.\<close>

type_synonym visitor = "hook \<Rightarrow> (val \<Rightarrow> nat list \<Rightarrow> val) option"

record rstate =
  env :: "(string \<times> val) list"
  stack :: "nat list"
  trace :: "event list"

datatype rt_error = OutOfFuel | DispatchError | Stuck

text \<open>The value of an offset constant: the struct and the field of its \<^verbatim>\<open>offset_of!\<close>.\<close>

definition offsetConst :: "ancestors_code \<Rightarrow> offset_var \<Rightarrow> (string \<times> string) option" where
  "offsetConst code ov =
     (case find (\<lambda>item. case item of OffsetConst ov' T r \<Rightarrow> ov' = ov | _ \<Rightarrow> False)
             (ancestorTypes code) of
        Some (OffsetConst ov' T r) \<Rightarrow> Some (T, r)
      | _ \<Rightarrow> None)"

fun read_expr :: "ancestors_code \<Rightarrow> (string \<times> val) list \<Rightarrow> expr \<Rightarrow> val option" where
  "read_expr A en (Var x) = map_of en x"
| "read_expr A en (FieldPtr ov ty) =
     (case (map_of en ''node'', ov) of
        (Some (VStruct T fs), Some c) \<Rightarrow>
          (case offsetConst A c of
             Some (T', r) \<Rightarrow> if T' = T then map_of fs r else None
           | None \<Rightarrow> None)
      | _ \<Rightarrow> None)"
| "read_expr A en (Unbox e) =
     (case read_expr A en e of Some (VBox v) \<Rightarrow> Some v | _ \<Rightarrow> None)"

fun write_expr ::
  "ancestors_code \<Rightarrow> (string \<times> val) list \<Rightarrow> expr \<Rightarrow> val \<Rightarrow> (string \<times> val) list option" where
  "write_expr A en (Var x) v =
     (if map_of en x = None then None else Some (AList.update x v en))"
| "write_expr A en (FieldPtr ov ty) v =
     (case (map_of en ''node'', ov) of
        (Some (VStruct T fs), Some c) \<Rightarrow>
          (case offsetConst A c of
             Some (T', r) \<Rightarrow>
               if T' = T \<and> map_of fs r \<noteq> None
               then Some (AList.update ''node'' (VStruct T (AList.update r v fs)) en)
               else None
           | None \<Rightarrow> None)
      | _ \<Rightarrow> None)"
| "write_expr A en (Unbox e) v =
     (case read_expr A en e of Some (VBox u) \<Rightarrow> write_expr A en e (VBox v) | _ \<Rightarrow> None)"

text \<open>A match takes the first arm one of whose patterns names the variant; the result is the
  variable the pattern binds to the payload, and the arm's code.\<close>

fun pattern_matches :: "string \<Rightarrow> pattern \<Rightarrow> bool" where
  "pattern_matches var (Pattern E v b) = (v = var)"

fun select_arm :: "(pattern list \<times> stmt) list \<Rightarrow> string \<Rightarrow> (string option \<times> stmt) option" where
  "select_arm [] var = None"
| "select_arm ((pats, s) # arms) var =
     (case find (pattern_matches var) pats of
        Some (Pattern E v b) \<Rightarrow> Some (b, s)
      | None \<Rightarrow> select_arm arms var)"

text \<open>The statements below are run by a function \<open>X\<close> that runs one statement: the
  interpreter itself, with less fuel.\<close>

fun execs ::
  "(stmt \<Rightarrow> rstate \<Rightarrow> rt_error + rstate) \<Rightarrow> stmt list \<Rightarrow> rstate \<Rightarrow> rt_error + rstate" where
  "execs X [] s = Inr s"
| "execs X (c # cs) s = (case X c s of Inl e \<Rightarrow> Inl e | Inr s' \<Rightarrow> execs X cs s')"

text \<open>A block that binds \<open>x\<close> to (the place of) \<open>w\<close>: the result is what the block left at
  that place.\<close>

definition in_scope ::
  "(stmt \<Rightarrow> rstate \<Rightarrow> rt_error + rstate) \<Rightarrow> string \<Rightarrow> val \<Rightarrow> stmt list \<Rightarrow> rstate
     \<Rightarrow> rt_error + val \<times> rstate" where
  "in_scope X x w body s =
     (case execs X body (s\<lparr>env := (x, w) # env s\<rparr>) of
        Inl e \<Rightarrow> Inl e
      | Inr s' \<Rightarrow>
          (case env s' of
             [] \<Rightarrow> Inl Stuck
           | (x', w') # rest \<Rightarrow> Inr (w', s'\<lparr>env := rest\<rparr>)))"

fun for_each ::
  "(stmt \<Rightarrow> rstate \<Rightarrow> rt_error + rstate) \<Rightarrow> string \<Rightarrow> bool \<Rightarrow> stmt list \<Rightarrow> val list \<Rightarrow> rstate
     \<Rightarrow> rt_error + val list \<times> rstate" where
  "for_each X x fl body [] s = Inr ([], s)"
| "for_each X x fl body (item # items) s =
     (if fl then
        (case item of
           VNone \<Rightarrow>
             (case for_each X x fl body items s of
                Inl e \<Rightarrow> Inl e
              | Inr (items', s') \<Rightarrow> Inr (VNone # items', s'))
         | VSome w \<Rightarrow>
             (case in_scope X x w body s of
                Inl e \<Rightarrow> Inl e
              | Inr (w', s1) \<Rightarrow>
                  (case for_each X x fl body items s1 of
                     Inl e \<Rightarrow> Inl e
                   | Inr (items', s') \<Rightarrow> Inr (VSome w' # items', s')))
         | _ \<Rightarrow> Inl Stuck)
      else
        (case in_scope X x item body s of
           Inl e \<Rightarrow> Inl e
         | Inr (item', s1) \<Rightarrow>
             (case for_each X x fl body items s1 of
                Inl e \<Rightarrow> Inl e
              | Inr (items', s') \<Rightarrow> Inr (item' # items', s'))))"

text \<open>A call runs the body with the parameter bound to the argument, and gives back what
  the body left there; the caller's variables are its own.\<close>

definition call_body ::
  "(stmt \<Rightarrow> rstate \<Rightarrow> rt_error + rstate) \<Rightarrow> string \<Rightarrow> stmt list \<Rightarrow> val \<Rightarrow> rstate
     \<Rightarrow> rt_error + val \<times> rstate" where
  "call_body X param body v s =
     (case execs X body (s\<lparr>env := [(param, v)]\<rparr>) of
        Inl e \<Rightarrow> Inl e
      | Inr s' \<Rightarrow>
          (case map_of (env s') param of
             None \<Rightarrow> Inl Stuck
           | Some v' \<Rightarrow> Inr (v', s'\<lparr>env := env s\<rparr>)))"

definition store ::
  "ancestors_code \<Rightarrow> expr \<Rightarrow> rt_error + val \<times> rstate \<Rightarrow> rt_error + rstate" where
  "store A e r =
     (case r of
        Inl err \<Rightarrow> Inl err
      | Inr (v, s) \<Rightarrow>
          (case write_expr A (env s) e v of
             None \<Rightarrow> Inl Stuck
           | Some en \<Rightarrow> Inr (s\<lparr>env := en\<rparr>)))"

fun exec_stmt ::
  "program \<Rightarrow> visitor \<Rightarrow> (stmt \<Rightarrow> rstate \<Rightarrow> rt_error + rstate) \<Rightarrow> stmt \<Rightarrow> rstate
     \<Rightarrow> rt_error + rstate" where
  "exec_stmt P vis X (CallHook h e) s =
     (case read_expr (p_ancestor P) (env s) e of
        None \<Rightarrow> Inl Stuck
      | Some v \<Rightarrow>
          (let s0 = s\<lparr>trace := trace s @ [EvHook h (stack s)]\<rparr>
           in case vis h of
                Some f \<Rightarrow> store (p_ancestor P) e (Inr (f v (stack s), s0))
              | None \<Rightarrow>
                  (case map_of (p_trait P) h of
                     None \<Rightarrow> Inl Stuck
                   | Some body \<Rightarrow> store (p_ancestor P) e (call_body X ''node'' body v s0))))"
| "exec_stmt P vis X (PushStack vn sn) s =
     (case map_of (Ancestor (p_ancestor P)) (Some vn) of
        None \<Rightarrow> Inl Stuck
      | Some d \<Rightarrow> Inr (s\<lparr>stack := d # stack s, trace := trace s @ [EvPush vn d]\<rparr>))"
| "exec_stmt P vis X (RetagStack dopt) s =
     (case (dopt, stack s) of
        (Some d, entry # rest) \<Rightarrow> Inr (s\<lparr>stack := d # rest, trace := trace s @ [EvRetag d]\<rparr>)
      | _ \<Rightarrow> Inl Stuck)"
| "exec_stmt P vis X PopStack s =
     (case stack s of
        [] \<Rightarrow> Inl Stuck
      | entry # rest \<Rightarrow> Inr (s\<lparr>stack := rest, trace := trace s @ [EvPop]\<rparr>))"
| "exec_stmt P vis X (Call f e) s =
     (case read_expr (p_ancestor P) (env s) e of
        None \<Rightarrow> Inl Stuck
      | Some v \<Rightarrow>
          (case find (\<lambda>fd. fd_name fd = f) (p_walk P) of
             None \<Rightarrow> Inl Stuck
           | Some fd \<Rightarrow> store (p_ancestor P) e (call_body X (fd_param fd) (fd_body fd) v s)))"
| "exec_stmt P vis X (IfLetSome x e body) s =
     (case read_expr (p_ancestor P) (env s) e of
        Some VNone \<Rightarrow> Inr s
      | Some (VSome w) \<Rightarrow>
          (case in_scope X x w body s of
             Inl err \<Rightarrow> Inl err
           | Inr (w', s') \<Rightarrow> store (p_ancestor P) e (Inr (VSome w', s')))
      | _ \<Rightarrow> Inl Stuck)"
| "exec_stmt P vis X (ForIn x e fl body) s =
     (case read_expr (p_ancestor P) (env s) e of
        Some (VVec items) \<Rightarrow>
          (case for_each X x fl body items s of
             Inl err \<Rightarrow> Inl err
           | Inr (items', s') \<Rightarrow> store (p_ancestor P) e (Inr (VVec items', s')))
      | _ \<Rightarrow> Inl Stuck)"
| "exec_stmt P vis X (Match e arms) s =
     (case read_expr (p_ancestor P) (env s) e of
        Some (VEnum var payload) \<Rightarrow>
          (case select_arm arms var of
             None \<Rightarrow> Inl DispatchError
           | Some (None, c) \<Rightarrow> X c s
           | Some (Some x, c) \<Rightarrow>
               (case in_scope X x payload [c] s of
                  Inl err \<Rightarrow> Inl err
                | Inr (payload', s') \<Rightarrow> store (p_ancestor P) e (Inr (VEnum var payload', s'))))
      | _ \<Rightarrow> Inl Stuck)"

text \<open>The interpreter: the fuel bounds the nesting of statements and calls, and every
  finite tree is walked with enough of it.\<close>

fun exec :: "nat \<Rightarrow> program \<Rightarrow> visitor \<Rightarrow> stmt \<Rightarrow> rstate \<Rightarrow> rt_error + rstate" where
  "exec 0 P vis c s = Inl OutOfFuel"
| "exec (Suc n) P vis c s = exec_stmt P vis (exec n P vis) c s"

text \<open>Modelled from the spec: the script that calls the three generators is not among the
  sources. Spec section 2: the catalogue goes to the ancestor model, whose annotations the
  walk dispatch consumes; the visitor contract is the interface those routines call.\<close>

definition generate :: "type_def list \<Rightarrow> (gen_error + program) option" where
  "generate types =
     (let (ancestors, types') = generateAncestorsCode types
      in case generateWalkFunctionsCode types' of
           None \<Rightarrow> None
         | Some (Inl e) \<Rightarrow> Some (Inl e)
         | Some (Inr walkMethods) \<Rightarrow>
             Some (Inr \<lparr>p_ancestor = ancestors, p_walk = walkMethods,
                        p_trait = generateTraverseTraitCode types'\<rparr>))"

text \<open>The default visitor overrides nothing. A traversal is a call of the walk function of
  the root's type on the root.\<close>

definition default_visitor :: visitor where
  "default_visitor = (\<lambda>h. None)"

definition traverse ::
  "nat \<Rightarrow> program \<Rightarrow> visitor \<Rightarrow> string \<Rightarrow> val \<Rightarrow> nat list \<Rightarrow> rt_error + rstate" where
  "traverse n P vis T root st =
     exec n P vis (Call (WalkFn T) (Var ''node''))
       \<lparr>env = [(''node'', root)], stack = st, trace = []\<rparr>"

section \<open>An example catalogue\<close>

text \<open>A small catalogue in the shape parse.mjs produces, before any annotation.\<close>

definition mk_field :: "string \<Rightarrow> string list \<Rightarrow> string \<Rightarrow> field" where
  "mk_field n ws t =
     \<lparr>f_name = n, f_type = RustType ws t, f_rawName = n, f_rawTypeName = t,
      offsetVarName = None, ancestorDiscriminant = None\<rparr>"

definition mk_variant :: "string \<Rightarrow> string list \<Rightarrow> string \<Rightarrow> variant" where
  "mk_variant n ws t = \<lparr>v_name = n, v_type = RustType ws t, v_discriminant = None\<rparr>"

definition ex_binary :: type_def where
  "ex_binary = Struct ''BinaryExpression'' True
     [mk_field ''span'' [] ''Span'', mk_field ''left'' [] ''Expression'',
      mk_field ''operator'' [] ''BinaryOperator'', mk_field ''right'' [] ''Expression'']"

definition ex_literal :: type_def where
  "ex_literal = Struct ''NumericLiteral'' True
     [mk_field ''span'' [] ''Span'', mk_field ''value'' [] ''f64'']"

definition ex_expression :: type_def where
  "ex_expression = Enum ''Expression'' True
     [mk_variant ''NumericLiteral'' [''Box''] ''NumericLiteral'',
      mk_variant ''BinaryExpression'' [''Box''] ''BinaryExpression'']
     [''MemberExpression'']"

definition ex_member :: type_def where
  "ex_member = Enum ''MemberExpression'' True
     [mk_variant ''StaticMemberExpression'' [''Box''] ''StaticMemberExpression''] []"

definition ex_static_member :: type_def where
  "ex_static_member = Struct ''StaticMemberExpression'' True
     [mk_field ''span'' [] ''Span'', mk_field ''object'' [] ''Expression'',
      mk_field ''optional'' [] ''bool'']"

definition ex_return :: type_def where
  "ex_return = Struct ''ReturnStatement'' True
     [mk_field ''span'' [] ''Span'', mk_field ''argument'' [''Option''] ''Expression'']"

definition ex_body :: type_def where
  "ex_body = Struct ''FunctionBody'' True
     [mk_field ''directives'' [''Option'', ''Vec''] ''Statement'',
      mk_field ''statements'' [''Vec''] ''Statement'']"

definition ex_statement :: type_def where
  "ex_statement = Enum ''Statement'' True
     [mk_variant ''ReturnStatement'' [''Box''] ''ReturnStatement''] []"

definition ex_types :: "type_def list" where
  "ex_types = [ex_binary, ex_literal, ex_expression, ex_member, ex_static_member,
               ex_return, ex_body, ex_statement]"

text \<open>The catalogue as \<^verbatim>\<open>generateAncestorsCode\<close> leaves it, and the program generated from it.\<close>

definition ex_annotated :: "type_def list" where
  "ex_annotated = snd (generateAncestorsCode ex_types)"

text \<open>A struct with \<open>k\<close> fields of its own type: \<open>k\<close> tags.\<close>

definition ex_wide :: "nat \<Rightarrow> type_def list" where
  "ex_wide k = [Struct ''Wide'' False
                  (map (\<lambda>i. mk_field (replicate (Suc i) CHR ''x'') [''Box''] ''Wide'') [0..<k])]"

text \<open>A struct with a \<^verbatim>\<open>Vec<Box<NumericLiteral>>\<close> field, and one whose only field is of a type
  that is not catalogued, under wrappers no branch of the generator knows.\<close>

definition ex_vec_box :: "type_def list" where
  "ex_vec_box =
     [Struct ''TemplateLiteral'' True
        [mk_field ''span'' [] ''Span'', mk_field ''quasis'' [''Vec'', ''Box''] ''NumericLiteral''],
      ex_literal]"

definition ex_cell :: "type_def list" where
  "ex_cell =
     [Struct ''IdentifierReference'' True
        [mk_field ''reference_id'' [''Cell'', ''Option''] ''ReferenceId'']]"

definition ex_boxed :: "type_def list" where
  "ex_boxed = snd (generateAncestorsCode
     [Struct ''UnaryExpression'' True
        [mk_field ''span'' [] ''Span'', mk_field ''argument'' [''Box''] ''NumericLiteral'',
         mk_field ''fallback'' [''Option'', ''Box''] ''NumericLiteral''],
      ex_literal])"

text \<open>The fields of a catalogue entry (none for an enum), to name them in examples.\<close>

definition fieldsOf :: "type_def \<Rightarrow> field list" where
  "fieldsOf t = (case t of Struct n l fs \<Rightarrow> fs | Enum n l vs inh \<Rightarrow> [])"

section \<open>Enum inheritance\<close>

text \<open>\<open>inherits_variant types B v\<close>: the enum \<open>B\<close> of the catalogue lists the variant \<open>v\<close>, or
  an enum it inherits from, directly or through other enums, does.\<close>

inductive inherits_variant :: "type_def list \<Rightarrow> string \<Rightarrow> string \<Rightarrow> bool" for types where
  own: "types_get types B = Some (Enum n l vs inh) \<Longrightarrow> v \<in> set (map v_name vs)
          \<Longrightarrow> inherits_variant types B v"
| base: "types_get types B = Some (Enum n l vs inh) \<Longrightarrow> b \<in> set inh
          \<Longrightarrow> inherits_variant types b v \<Longrightarrow> inherits_variant types B v"

text \<open>\<open>missing_base types B m\<close>: following the inheritance from \<open>B\<close> arrives at the name
  \<open>m\<close>, which is not an enum of the catalogue.\<close>

definition is_enum :: "type_def list \<Rightarrow> string \<Rightarrow> bool" where
  "is_enum types b = (case types_get types b of Some (Enum n l vs inh) \<Rightarrow> True | _ \<Rightarrow> False)"

inductive missing_base :: "type_def list \<Rightarrow> string \<Rightarrow> string \<Rightarrow> bool" for types where
  here: "\<not> is_enum types m \<Longrightarrow> missing_base types m m"
| below: "types_get types B = Some (Enum n l vs inh) \<Longrightarrow> b \<in> set inh
          \<Longrightarrow> missing_base types b m \<Longrightarrow> missing_base types B m"

text \<open>The number of rounds of the inner loop that one name, and a list of names, cost.\<close>

inductive inh_size :: "type_def list \<Rightarrow> string \<Rightarrow> nat \<Rightarrow> bool"
  and inh_sizes :: "type_def list \<Rightarrow> string list \<Rightarrow> nat \<Rightarrow> bool" for types where
  leaf: "\<not> is_enum types b \<Longrightarrow> inh_size types b 1"
| node: "types_get types b = Some (Enum n l vs inh) \<Longrightarrow> inh_sizes types inh k
          \<Longrightarrow> inh_size types b (Suc k)"
| nil: "inh_sizes types [] 0"
| cons: "inh_size types b k \<Longrightarrow> inh_sizes types bs m \<Longrightarrow> inh_sizes types (b # bs) (k + m)"

text \<open>The inheritance of a catalogue has no cycle when the enums can be ranked so that
  every enum ranks above the names it inherits from.\<close>

definition acyclic_inherits :: "type_def list \<Rightarrow> bool" where
  "acyclic_inherits types =
     (\<exists>rank :: string \<Rightarrow> nat. \<forall>B n l vs inh.
        types_get types B = Some (Enum n l vs inh) \<longrightarrow> (\<forall>b \<in> set inh. rank b < rank B))"

text \<open>The arm generated for a variant of the enum itself, and what the arm generated for an
  inherited enum \<open>b\<close> looks like.\<close>

definition ownArm :: "string \<Rightarrow> variant \<Rightarrow> pattern list \<times> stmt" where
  "ownArm name var =
     ([Pattern name (v_name var) (Some ''node'')],
      Call (WalkFn (inner (v_type var)))
        (if wrappers (v_type var) = [''Box''] then Unbox (Var ''node'') else Var ''node''))"

definition inheritedArm :: "type_def list \<Rightarrow> string \<Rightarrow> string \<Rightarrow> pattern list \<times> stmt \<Rightarrow> bool" where
  "inheritedArm types name b arm =
     (\<exists>vm. arm = (map (\<lambda>v. Pattern name v None) vm, Call (WalkFn b) (Var ''node''))
           \<and> set vm = {v. inherits_variant types b v})"

text \<open>The wrapper chains for which \<^verbatim>\<open>generateWalkForStruct\<close> has a branch.\<close>

definition supportedWrappers :: "string list set" where
  "supportedWrappers =
     {[], [''Option''], [''Option'', ''Vec''], [''Option'', ''Box''],
      [''Vec''], [''Vec'', ''Option''], [''Box'']}"

text \<open>\<open>declares types D v\<close>: the enum \<open>D\<close> itself lists the variant \<open>v\<close>.\<close>

definition declares :: "type_def list \<Rightarrow> string \<Rightarrow> string \<Rightarrow> bool" where
  "declares types D v =
     (case types_get types D of
        Some (Enum n l vs inh) \<Rightarrow> v \<in> set (map v_name vs)
      | _ \<Rightarrow> False)"

text \<open>\<open>dispatches_to fns E v D\<close>: on a value of variant \<open>v\<close> the walk function of \<open>E\<close> takes
  arms for inherited enums, each a call of the walk function of a base enum on the same
  value, until the walk function of \<open>D\<close> takes an arm of its own for \<open>v\<close>.\<close>

inductive dispatches_to :: "function_def list \<Rightarrow> string \<Rightarrow> string \<Rightarrow> string \<Rightarrow> bool"
  for fns where
  arrived: "find (\<lambda>fd. fd_name fd = WalkFn E) fns = Some fd
      \<Longrightarrow> fd_body fd = [h1, Match e arms, h2]
      \<Longrightarrow> select_arm arms v = Some (Some x, c)
      \<Longrightarrow> dispatches_to fns E v E"
| through: "find (\<lambda>fd. fd_name fd = WalkFn E) fns = Some fd
      \<Longrightarrow> fd_body fd = [h1, Match e arms, h2]
      \<Longrightarrow> select_arm arms v = Some (None, Call (WalkFn B) e')
      \<Longrightarrow> dispatches_to fns B v D
      \<Longrightarrow> dispatches_to fns E v D"

text \<open>\<open>generatedFor types t fd\<close>: \<open>fd\<close> is the walk function generated for the entry \<open>t\<close>.\<close>

definition generatedFor :: "type_def list \<Rightarrow> type_def \<Rightarrow> function_def \<Rightarrow> bool" where
  "generatedFor types t fd =
     (case t of
        Struct n l fs \<Rightarrow> generateWalkForStruct t types = Inr fd
      | Enum n l vs inh \<Rightarrow> generateWalkForEnum t types = Some (Inr fd))"

text \<open>An enum that lists a variant which the enum it inherits from lists too, and an enum
  that inherits from a name the catalogue does not have.\<close>

definition ex_overlap :: "type_def list" where
  "ex_overlap =
     [Enum ''SimpleAssignmentTarget'' True
        [mk_variant ''StaticMemberExpression'' [] ''StaticMemberExpression'']
        [''MemberExpression''],
      ex_member, ex_static_member]"

definition ex_missing :: "type_def list" where
  "ex_missing = [Enum ''Declaration'' True [] [''ClassElement'']]"

section \<open>Accessors\<close>

text \<open>The methods of a generated struct, looked up by the struct's name.\<close>

definition accessorsOf :: "ancestors_code \<Rightarrow> struct_name \<Rightarrow> accessor list option" where
  "accessorsOf code sn =
     (case find (\<lambda>item. case item of AncestorStruct sn' T ms \<Rightarrow> sn' = sn | _ \<Rightarrow> False)
             (ancestorTypes code) of
        Some (AncestorStruct sn' T ms) \<Rightarrow> Some ms
      | _ \<Rightarrow> None)"

text \<open>
  The address an accessor returns, \<^verbatim>\<open>(self.0 as *const u8).add(${otherField.offsetVarName})\<close>:
  the address the entry holds plus the value of the offset constant, which the generated
  code defines as \<^verbatim>\<open>offset_of!(T, r)\<close>. The layout \<open>offset_of\<close> of the target is a parameter.
\<close>

definition accessorAddress ::
  "(string \<Rightarrow> string \<Rightarrow> nat) \<Rightarrow> ancestors_code \<Rightarrow> nat \<Rightarrow> accessor \<Rightarrow> nat option" where
  "accessorAddress offset_of code base acc =
     (case a_offset acc of
        None \<Rightarrow> None
      | Some c \<Rightarrow>
          (case offsetConst code c of
             None \<Rightarrow> None
           | Some (T, r) \<Rightarrow> Some (base + offset_of T r)))"

text \<open>The accessor for the \<open>j\<close>-th field of the struct \<open>n\<close> with the fields \<open>fs\<close>.\<close>

definition accessorFor :: "string \<Rightarrow> field list \<Rightarrow> nat \<Rightarrow> accessor" where
  "accessorFor n fs j =
     \<lparr>a_name = f_rawName (fs ! j), a_offset = Some (OFFSET n (f_name (fs ! j))),
      a_type = f_rawTypeName (fs ! j)\<rparr>"

text \<open>What \<^verbatim>\<open>generateAncestorsCode\<close> emits for one entry of the catalogue.\<close>

definition itemsOf :: "type_def list \<Rightarrow> type_def \<Rightarrow> ancestor_item list" where
  "itemsOf types t =
     (case t of
        Enum n l vs inh \<Rightarrow> []
      | Struct n l fs \<Rightarrow>
          map (\<lambda>f. OffsetConst (OFFSET n (f_name f)) n (f_rawName f)) fs
          @ map (\<lambda>j. AncestorStruct (Without n (f_name (fs ! j))) n
                       (map (accessorFor n fs) (filter (\<lambda>i. i \<noteq> j) [0..<length fs])))
              (filter (\<lambda>j. types_get types (innerTypeName (fs ! j)) \<noteq> None) [0..<length fs]))"

section \<open>Stack discipline of generated code\<close>

text \<open>Code without any stack operation, and code that at most retags.\<close>

fun no_stack_ops :: "stmt \<Rightarrow> bool" where
  "no_stack_ops (CallHook h e) = True"
| "no_stack_ops (PushStack v s) = False"
| "no_stack_ops (RetagStack d) = False"
| "no_stack_ops PopStack = False"
| "no_stack_ops (Call f e) = True"
| "no_stack_ops (IfLetSome x e body) = list_all no_stack_ops body"
| "no_stack_ops (ForIn x e fl body) = list_all no_stack_ops body"
| "no_stack_ops (Match e arms) = list_all (\<lambda>arm. no_stack_ops (snd arm)) arms"

fun retag_only :: "stmt \<Rightarrow> bool" where
  "retag_only (CallHook h e) = True"
| "retag_only (PushStack v s) = False"
| "retag_only (RetagStack d) = True"
| "retag_only PopStack = False"
| "retag_only (Call f e) = True"
| "retag_only (IfLetSome x e body) = list_all retag_only body"
| "retag_only (ForIn x e fl body) = list_all retag_only body"
| "retag_only (Match e arms) = list_all (\<lambda>arm. retag_only (snd arm)) arms"

text \<open>The body of a function keeps the stack discipline when it has no stack operation, or
  one push and one pop with nothing but retags between them.\<close>

definition balanced_body :: "stmt list \<Rightarrow> bool" where
  "balanced_body body =
     (list_all no_stack_ops body
      \<or> (\<exists>pre v sn mid post.
            body = pre @ [PushStack v sn] @ mid @ [PopStack] @ post
          \<and> list_all no_stack_ops pre \<and> list_all retag_only mid
          \<and> list_all no_stack_ops post))"

definition program_ok :: "program \<Rightarrow> bool" where
  "program_ok P =
     ((\<forall>fd \<in> set (p_walk P). balanced_body (fd_body fd))
      \<and> (\<forall>hb \<in> set (p_trait P). list_all no_stack_ops (snd hb)))"

text \<open>The pushes and the pops among the events of a run.\<close>

fun is_push :: "event \<Rightarrow> bool" where
  "is_push (EvPush v d) = True"
| "is_push ev = False"

fun is_pop :: "event \<Rightarrow> bool" where
  "is_pop EvPop = True"
| "is_pop ev = False"

definition pushes :: "event list \<Rightarrow> nat" where
  "pushes evs = length (filter is_push evs)"

definition pops :: "event list \<Rightarrow> nat" where
  "pops evs = length (filter is_pop evs)"

text \<open>Two relations between the state before and the state after a piece of code: the
  stack is the same, or the stack is the same below its top entry; in both, the events
  added have as many pushes as pops.\<close>

definition same_stack :: "rstate \<Rightarrow> rstate \<Rightarrow> bool" where
  "same_stack s s' =
     (stack s' = stack s
      \<and> (\<exists>evs. trace s' = trace s @ evs \<and> pushes evs = pops evs))"

definition same_below :: "rstate \<Rightarrow> rstate \<Rightarrow> bool" where
  "same_below s s' =
     (length (stack s') = length (stack s) \<and> tl (stack s') = tl (stack s)
      \<and> (\<exists>evs. trace s' = trace s @ evs \<and> pushes evs = pops evs))"

text \<open>The statements directly inside a statement.\<close>

fun substmts :: "stmt \<Rightarrow> stmt list" where
  "substmts (IfLetSome x e body) = body"
| "substmts (ForIn x e fl body) = body"
| "substmts (Match e arms) = map snd arms"
| "substmts c = []"

text \<open>What the two relations have in common: they hold between a state and itself, compose,
  do not look at the variables, and hold over the event of a hook.\<close>

definition frame_rel :: "(rstate \<Rightarrow> rstate \<Rightarrow> bool) \<Rightarrow> bool" where
  "frame_rel R =
     ((\<forall>s. R s s)
      \<and> (\<forall>a b c. R a b \<longrightarrow> R b c \<longrightarrow> R a c)
      \<and> (\<forall>s s' en. R (s\<lparr>env := en\<rparr>) s' = R s s')
      \<and> (\<forall>s s' en. R s (s'\<lparr>env := en\<rparr>) = R s s')
      \<and> (\<forall>s h st. R s (s\<lparr>trace := trace s @ [EvHook h st]\<rparr>)))"

definition keeps_env :: "(stmt \<Rightarrow> rstate \<Rightarrow> rt_error + rstate) \<Rightarrow> bool" where
  "keeps_env X = (\<forall>c s s'. X c s = Inr s' \<longrightarrow> env s' = env s)"

text \<open>The program generated from the example catalogue, and two trees: the expression
  \<open>1 + 2\<close> and a return statement without an argument.\<close>

definition ex_program :: program where
  "ex_program = projr (the (generate ex_types))"

definition ex_number :: "string \<Rightarrow> val" where
  "ex_number n =
     VEnum ''NumericLiteral''
       (VBox (VStruct ''NumericLiteral'' [(''span'', VLeaf ''0..1''), (''value'', VLeaf n)]))"

definition ex_sum :: val where
  "ex_sum =
     VStruct ''BinaryExpression''
       [(''span'', VLeaf ''0..5''), (''left'', ex_number ''1''),
        (''operator'', VLeaf ''+''), (''right'', ex_number ''2'')]"

definition ex_bare_return :: val where
  "ex_bare_return =
     VStruct ''ReturnStatement'' [(''span'', VLeaf ''0..6''), (''argument'', VNone)]"

section \<open>Annotation\<close>

text \<open>What \<^verbatim>\<open>generateAncestorsCode\<close> does to the catalogue: an enum is left as it is; every
  field of a struct gets its \<open>offsetVarName\<close>, a field whose unwrapped type is catalogued
  gets its \<open>ancestorDiscriminant\<close>, and nothing else of a field changes.\<close>

definition annotated_field :: "type_def list \<Rightarrow> string \<Rightarrow> field \<Rightarrow> field \<Rightarrow> bool" where
  "annotated_field types n f f' =
     (f_name f' = f_name f \<and> f_type f' = f_type f \<and> f_rawName f' = f_rawName f
      \<and> offsetVarName f' = Some (OFFSET n (f_name f))
      \<and> (types_get types (innerTypeName f) \<noteq> None \<longrightarrow> ancestorDiscriminant f' \<noteq> None))"

definition annotated :: "type_def list \<Rightarrow> type_def \<Rightarrow> type_def \<Rightarrow> bool" where
  "annotated types t t' =
     (case t of
        Enum n l vs inh \<Rightarrow> t' = t
      | Struct n l fs \<Rightarrow>
          (case t' of
             Struct n' l' fs' \<Rightarrow> n' = n \<and> l' = l \<and> list_all2 (annotated_field types n) fs fs'
           | Enum n' l' vs inh \<Rightarrow> False))"

section \<open>Trees of the catalogue\<close>

text \<open>
  Modelled from the spec: the declarations of the syntax tree are not among the sources.
  Spec section 3: a struct node has its fields, each of the declared type; an enum value is
  one of the enum's variants, its own or one of an enum it inherits from, with that
  variant's payload; \<^verbatim>\<open>Option\<close>, \<^verbatim>\<open>Vec\<close> and \<^verbatim>\<open>Box\<close> wrap as their names say; data of a type
  outside the catalogue is terminal. \<open>conforms types ws T v\<close>: the value \<open>v\<close> is of the type
  \<open>T\<close> under the wrappers \<open>ws\<close>.
\<close>

inductive conforms :: "type_def list \<Rightarrow> string list \<Rightarrow> string \<Rightarrow> val \<Rightarrow> bool"
  for types where
  terminal: "types_get types T = None \<Longrightarrow> conforms types ws T v"
| struct: "types_get types T = Some (Struct n l fs)
      \<Longrightarrow> \<forall>f \<in> set fs. \<exists>v. map_of fvals (f_rawName f) = Some v
              \<and> conforms types (wrappers (f_type f)) (inner (f_type f)) v
      \<Longrightarrow> conforms types [] T (VStruct T fvals)"
| own: "types_get types T = Some (Enum n l vs inh)
      \<Longrightarrow> find (\<lambda>x. v_name x = vn) vs = Some var
      \<Longrightarrow> conforms types (wrappers (v_type var)) (inner (v_type var)) payload
      \<Longrightarrow> conforms types [] T (VEnum vn payload)"
| inherited: "types_get types T = Some (Enum n l vs inh)
      \<Longrightarrow> find (\<lambda>x. v_name x = vn) vs = None
      \<Longrightarrow> \<exists>b \<in> set inh. inherits_variant types b vn
      \<Longrightarrow> \<forall>b \<in> set inh. inherits_variant types b vn
              \<longrightarrow> conforms types [] b (VEnum vn payload)
      \<Longrightarrow> conforms types [] T (VEnum vn payload)"
| none: "conforms types (''Option'' # ws) T VNone"
| some: "conforms types ws T v \<Longrightarrow> conforms types (''Option'' # ws) T (VSome v)"
| vec: "\<forall>v \<in> set vs. conforms types ws T v \<Longrightarrow> conforms types (''Vec'' # ws) T (VVec vs)"
| box: "conforms types ws T v \<Longrightarrow> conforms types (''Box'' # ws) T (VBox v)"

text \<open>\<open>walks P n T v\<close>: with fuel \<open>n\<close> or more, the body of the walk function of \<open>T\<close> runs
  to its end on \<open>v\<close>, from every state. \<open>walksW\<close> is the same under wrappers, and
  \<open>runs_from X cs en\<close> says that the code \<open>cs\<close> runs to its end from every state with the
  variables \<open>en\<close>.\<close>

definition walks :: "program \<Rightarrow> nat \<Rightarrow> string \<Rightarrow> val \<Rightarrow> bool" where
  "walks P n T v =
     (\<exists>fd. find (\<lambda>fd. fd_name fd = WalkFn T) (p_walk P) = Some fd
         \<and> (\<forall>m \<ge> n. \<forall>s. \<exists>s'. execs (exec m P default_visitor) (fd_body fd)
                                   (s\<lparr>env := [(fd_param fd, v)]\<rparr>) = Inr s'))"

fun walksW :: "program \<Rightarrow> nat \<Rightarrow> string list \<Rightarrow> string \<Rightarrow> val \<Rightarrow> bool" where
  "walksW P n [] T v = walks P n T v"
| "walksW P n (w # ws) T v =
     (if w = ''Option'' then
        (case v of VNone \<Rightarrow> True | VSome u \<Rightarrow> walksW P n ws T u | _ \<Rightarrow> False)
      else if w = ''Vec'' then
        (case v of VVec us \<Rightarrow> list_all (walksW P n ws T) us | _ \<Rightarrow> False)
      else if w = ''Box'' then
        (case v of VBox u \<Rightarrow> walksW P n ws T u | _ \<Rightarrow> False)
      else False)"

definition runs_from ::
  "(stmt \<Rightarrow> rstate \<Rightarrow> rt_error + rstate) \<Rightarrow> stmt list \<Rightarrow> (string \<times> val) list \<Rightarrow> bool" where
  "runs_from X cs en = (\<forall>t. env t = en \<longrightarrow> (\<exists>t'. execs X cs t = Inr t'))"

section \<open>Properties\<close>

subsection \<open>Discriminants\<close>

lemma ancestorFields_discriminants:
  "ancestorFields types T fs i rest d = (items, avs, rest', d')
   \<Longrightarrow> map av_discriminant avs = [d..<d'] \<and> d \<le> d'
       \<and> map av_name avs = tagsOf types T rest"
proof (induction rest arbitrary: i d items avs rest' d')
  case Nil
  then show ?case by (simp add: tagsOf_def)
next
  case (Cons f rest)
  show ?case
  proof (cases "types_get types (innerTypeName f)")
    case None
    with Cons.prems obtain r where
      "ancestorFields types T fs (Suc i) rest d = (items, avs, r, d')"
      by (auto split: prod.splits)
    from Cons.IH[OF this] None show ?thesis by (simp add: tagsOf_def)
  next
    case (Some ft)
    with Cons.prems obtain it vs r where
      rec: "ancestorFields types T fs (Suc i) rest (Suc d) = (it, vs, r, d')"
      and avs: "avs = \<lparr>av_name = VariantName T (f_name f), av_struct = Without T (f_name f),
                     av_discriminant = d\<rparr> # vs"
      by (auto simp: Let_def split: prod.splits)
    from Cons.IH[OF rec] have "map av_discriminant vs = [Suc d..<d']" "Suc d \<le> d'"
      "map av_name vs = tagsOf types T rest" by auto
    with avs Some show ?thesis by (simp add: tagsOf_def upt_conv_Cons)
  qed
qed

lemma tagsOf_offsets:
  "tagsOf types T (map (\<lambda>f. f\<lparr>offsetVarName := x f\<rparr>) fs) = tagsOf types T fs"
  by (induction fs) (auto simp: tagsOf_def innerTypeName_def)

lemma ancestorTypesLoop_discriminants:
  "ancestorTypesLoop types ts d = (items, avs, ts', d')
   \<Longrightarrow> map av_discriminant avs = [d..<d'] \<and> d \<le> d'
       \<and> map av_name avs = ancestorTags types ts"
proof (induction types ts d arbitrary: items avs ts' d' rule: ancestorTypesLoop.induct)
  case (1 types d)
  then show ?case by simp
next
  case (2 types n l vs inh rest d)
  then show ?case by (auto split: prod.splits)
next
  case (3 types n l fs rest d)
  define fs1 where "fs1 = map (\<lambda>f. f\<lparr>offsetVarName := Some (OFFSET n (f_name f))\<rparr>) fs"
  obtain structs avs1 fs2 d1 where
    a: "ancestorFields types n fs1 0 fs1 d = (structs, avs1, fs2, d1)"
    by (cases "ancestorFields types n fs1 0 fs1 d") auto
  obtain it avs2 r d2 where
    b: "ancestorTypesLoop types rest d1 = (it, avs2, r, d2)"
    by (cases "ancestorTypesLoop types rest d1") auto
  from "3.prems" a b have eq: "avs = avs1 @ avs2" "d' = d2"
    by (auto simp: fs1_def Let_def)
  from ancestorFields_discriminants[OF a]
  have f: "map av_discriminant avs1 = [d..<d1]" "d \<le> d1"
    "map av_name avs1 = tagsOf types n fs" by (auto simp: fs1_def tagsOf_offsets)
  from "3.IH"[OF fs1_def refl a[symmetric] refl refl refl b]
  have g: "map av_discriminant avs2 = [d1..<d2]" "d1 \<le> d2"
    "map av_name avs2 = ancestorTags types rest" by auto
  from f(2) g(2) have "[d..<d2] = [d..<d1] @ [d1..<d2]"
    using upt_add_eq_append[of d d1 "d2 - d1"] by simp
  with f g eq show ?case by simp
qed

text \<open>
  C9. The root tag \<open>None\<close> has discriminant 0 and the tags of the (struct, field) pairs
  follow in catalogue declaration order with the consecutive discriminants 1, 2, ...; the
  discriminant type is \<open>u8\<close> when the enum has at most 256 variants (the root tag
  included) and \<open>u16\<close> when it has more.
\<close>

theorem ancestor_discriminants:
  "map snd (Ancestor (fst (generateAncestorsCode types)))
     = [0..<length (Ancestor (fst (generateAncestorsCode types)))]
   \<and> map fst (Ancestor (fst (generateAncestorsCode types)))
     = None # map Some (ancestorTags types types)
   \<and> discriminantType (fst (generateAncestorsCode types))
     = (if length (Ancestor (fst (generateAncestorsCode types))) \<le> 256 then U8 else U16)"
proof -
  obtain items avs ts d where
    loop: "ancestorTypesLoop types types 1 = (items, avs, ts, d)"
    by (cases "ancestorTypesLoop types types 1") auto
  from ancestorTypesLoop_discriminants[OF loop]
  have a: "map av_discriminant avs = [1..<d]" and b: "1 \<le> d"
    and c: "map av_name avs = ancestorTags types types" by auto
  from a have len: "length avs = d - 1"
    by (metis length_map length_upt)
  have code: "fst (generateAncestorsCode types)
      = \<lparr>discriminantType = (if d \<le> 256 then U8 else U16),
         enumVariants = avs, ancestorTypes = items\<rparr>"
    using loop by (simp add: generateAncestorsCode_def)
  have snd_eq: "map snd (Ancestor (fst (generateAncestorsCode types))) = 0 # [1..<d]"
    using a by (simp add: code Ancestor_def comp_def)
  have "0 # [1..<d] = [0..<d]"
    using b by (simp add: upt_conv_Cons)
  moreover have "length (Ancestor (fst (generateAncestorsCode types))) = d"
    using len b by (simp add: code Ancestor_def)
  moreover have "map fst (Ancestor (fst (generateAncestorsCode types)))
      = None # map Some (ancestorTags types types)"
  proof -
    have "map (\<lambda>v. Some (av_name v)) avs = map Some (map av_name avs)"
      by simp
    with c show ?thesis by (simp add: code Ancestor_def comp_def)
  qed
  ultimately show ?thesis using snd_eq by (simp add: code)
qed

lemma ex_wide_tags: "length (ancestorTags (ex_wide k) (ex_wide k)) = k"
  by (simp add: ex_wide_def tagsOf_def types_get_def innerTypeName_def unwrapTypeName_def
      typeAndWrappers_def mk_field_def comp_def)

theorem ancestor_discriminants_witness:
  "map snd (Ancestor (fst (generateAncestorsCode ex_types))) = [0, 1, 2, 3, 4, 5, 6]
   \<and> map fst (Ancestor (fst (generateAncestorsCode ex_types)))
     = [None, Some (VariantName ''BinaryExpression'' ''left''),
        Some (VariantName ''BinaryExpression'' ''right''),
        Some (VariantName ''StaticMemberExpression'' ''object''),
        Some (VariantName ''ReturnStatement'' ''argument''),
        Some (VariantName ''FunctionBody'' ''directives''),
        Some (VariantName ''FunctionBody'' ''statements'')]
   \<and> discriminantType (fst (generateAncestorsCode (ex_wide 255))) = U8
   \<and> discriminantType (fst (generateAncestorsCode (ex_wide 256))) = U16"
proof -
  have tags: "ancestorTags ex_types ex_types
     = [VariantName ''BinaryExpression'' ''left'',
        VariantName ''BinaryExpression'' ''right'',
        VariantName ''StaticMemberExpression'' ''object'',
        VariantName ''ReturnStatement'' ''argument'',
        VariantName ''FunctionBody'' ''directives'',
        VariantName ''FunctionBody'' ''statements'']"
    by code_simp
  have len: "length (Ancestor (fst (generateAncestorsCode types)))
      = Suc (length (ancestorTags types types))" for types
    using ancestor_discriminants[of types]
    by (metis length_Cons length_map)
  have "[0..<7] = [0, 1, 2, 3, 4, 5, 6::nat]"
    by (simp add: upt_conv_Cons)
  with ancestor_discriminants[of ex_types] tags len[of ex_types]
  have a: "map snd (Ancestor (fst (generateAncestorsCode ex_types))) = [0, 1, 2, 3, 4, 5, 6]"
    and b: "map fst (Ancestor (fst (generateAncestorsCode ex_types)))
     = [None, Some (VariantName ''BinaryExpression'' ''left''),
        Some (VariantName ''BinaryExpression'' ''right''),
        Some (VariantName ''StaticMemberExpression'' ''object''),
        Some (VariantName ''ReturnStatement'' ''argument''),
        Some (VariantName ''FunctionBody'' ''directives''),
        Some (VariantName ''FunctionBody'' ''statements'')]"
    by simp_all
  from ancestor_discriminants[of "ex_wide 255"] len[of "ex_wide 255"]
  have c: "discriminantType (fst (generateAncestorsCode (ex_wide 255))) = U8"
    by (simp add: ex_wide_tags)
  from ancestor_discriminants[of "ex_wide 256"] len[of "ex_wide 256"]
  have d: "discriminantType (fst (generateAncestorsCode (ex_wide 256))) = U16"
    by (simp add: ex_wide_tags)
  from a b c d show ?thesis by simp
qed

subsection \<open>The walk function of a struct\<close>

lemma fieldCodeFor_ops:
  "fieldCodeFor f k = Inr code \<Longrightarrow>
   concat (map flat_ops code) =
     (if k = 0 then [] else [PRetag (ancestorDiscriminant f)]) @ [PCall (walkTarget f)]"
  unfolding fieldCodeFor_def typeAndWrappers_def walkTarget_def Let_def
  by (cases "wrappers (f_type f)") (auto split: if_splits)

lemma fieldsCodesFrom_ops:
  "fieldsCodesFrom fs k = Inr codes \<Longrightarrow>
   concat (map flat_ops (concat codes)) =
     concat (map (\<lambda>(i, f). (if i = 0 then [] else [PRetag (ancestorDiscriminant f)])
                              @ [PCall (walkTarget f)]) (enumerate k fs))"
proof (induction fs arbitrary: k codes)
  case Nil
  then show ?case by simp
next
  case (Cons f fs)
  from Cons.prems obtain c cs where
    c: "fieldCodeFor f k = Inr c" and cs: "fieldsCodesFrom fs (Suc k) = Inr cs"
    and codes: "codes = c # cs"
    by (auto split: sum.splits)
  from Cons.IH[OF cs] fieldCodeFor_ops[OF c] codes show ?case by simp
qed

lemma enumerate_later_ops:
  "0 < k \<Longrightarrow>
   concat (map (\<lambda>(i, f). (if i = 0 then [] else [PRetag (ancestorDiscriminant f)])
                              @ [PCall (walkTarget f)]) (enumerate k fs))
   = concat (map (\<lambda>f. [PRetag (ancestorDiscriminant f), PCall (walkTarget f)]) fs)"
  by (induction fs arbitrary: k) auto

lemma generateWalkForStruct_body:
  assumes "generateWalkForStruct (Struct name l fs) types = Inr fd"
  obtains codes where
    "fieldsCodesFrom (visitedFieldsOf types fs) 0 = Inr codes"
    "fd = \<lparr>fd_name = WalkFn name, fd_param = ''node'',
           fd_body = CallHook (EnterHook name) (Var ''node'')
             # (case visitedFieldsOf types fs of
                  [] \<Rightarrow> []
                | field # rest \<Rightarrow>
                    PushStack (VariantName name (f_name field)) (Without name (f_name field))
                    # concat codes @ [PopStack])
             @ [CallHook (ExitHook name) (Var ''node'')]\<rparr>"
proof -
  from assms obtain codes where
    codes: "fieldsCodesFrom (visitedFieldsOf types fs) 0 = Inr codes"
    by (auto simp: Let_def split: sum.splits)
  then have "codes = []" if "visitedFieldsOf types fs = []"
    using that by simp
  with assms codes that show ?thesis
    by (cases "visitedFieldsOf types fs") (auto simp: Let_def)
qed

text \<open>
  C1. The operations of the walk function generated for a struct, in order: the enter hook;
  for a struct with a descendable field one push, tagged with the first descendable field;
  the call into each descendable field in declaration order, every field after the first
  preceded by a retag of the top entry; one pop; the exit hook. For a struct with no
  descendable field they are the enter hook and the exit hook, and nothing else.
\<close>

theorem struct_walk_order:
  assumes "generateWalkForStruct (Struct name l fs) types = Inr fd"
  shows "concat (map flat_ops (fd_body fd)) =
      (case visitedFieldsOf types fs of
         [] \<Rightarrow> [PHook (EnterHook name), PHook (ExitHook name)]
       | first # others \<Rightarrow>
           [PHook (EnterHook name), PPush (VariantName name (f_name first)),
            PCall (walkTarget first)]
           @ concat (map (\<lambda>f. [PRetag (ancestorDiscriminant f), PCall (walkTarget f)]) others)
           @ [PPop, PHook (ExitHook name)])"
proof -
  from assms obtain codes where
    codes: "fieldsCodesFrom (visitedFieldsOf types fs) 0 = Inr codes"
    and fd: "fd = \<lparr>fd_name = WalkFn name, fd_param = ''node'',
           fd_body = CallHook (EnterHook name) (Var ''node'')
             # (case visitedFieldsOf types fs of
                  [] \<Rightarrow> []
                | field # rest \<Rightarrow>
                    PushStack (VariantName name (f_name field)) (Without name (f_name field))
                    # concat codes @ [PopStack])
             @ [CallHook (ExitHook name) (Var ''node'')]\<rparr>"
    by (rule generateWalkForStruct_body)
  show ?thesis
  proof (cases "visitedFieldsOf types fs")
    case Nil
    with fd show ?thesis by simp
  next
    case (Cons first others)
    from fieldsCodesFrom_ops[OF codes] Cons
    have "concat (map flat_ops (concat codes)) =
        [PCall (walkTarget first)]
        @ concat (map (\<lambda>f. [PRetag (ancestorDiscriminant f), PCall (walkTarget f)]) others)"
      by (simp add: enumerate_later_ops)
    with fd Cons show ?thesis by simp
  qed
qed

theorem struct_walk_order_witness:
  "(\<exists>fd. generateWalkForStruct (hd ex_annotated) ex_annotated = Inr fd
      \<and> concat (map flat_ops (fd_body fd)) =
          [PHook (EnterHook ''BinaryExpression''),
           PPush (VariantName ''BinaryExpression'' ''left''),
           PCall (WalkFn ''Expression''),
           PRetag (Some 2), PCall (WalkFn ''Expression''),
           PPop, PHook (ExitHook ''BinaryExpression'')])
   \<and> (\<exists>fd. generateWalkForStruct (ex_annotated ! 1) ex_annotated = Inr fd
      \<and> concat (map flat_ops (fd_body fd)) =
          [PHook (EnterHook ''NumericLiteral''), PHook (ExitHook ''NumericLiteral'')])"
proof -
  define fs where "fs =
     [\<lparr>f_name = ''span'', f_type = RustType [] ''Span'', f_rawName = ''span'',
       f_rawTypeName = ''Span'',
       offsetVarName = Some (OFFSET ''BinaryExpression'' ''span''),
       ancestorDiscriminant = None\<rparr>,
      \<lparr>f_name = ''left'', f_type = RustType [] ''Expression'', f_rawName = ''left'',
       f_rawTypeName = ''Expression'',
       offsetVarName = Some (OFFSET ''BinaryExpression'' ''left''),
       ancestorDiscriminant = Some 1\<rparr>,
      \<lparr>f_name = ''operator'', f_type = RustType [] ''BinaryOperator'',
       f_rawName = ''operator'', f_rawTypeName = ''BinaryOperator'',
       offsetVarName = Some (OFFSET ''BinaryExpression'' ''operator''),
       ancestorDiscriminant = None\<rparr>,
      \<lparr>f_name = ''right'', f_type = RustType [] ''Expression'', f_rawName = ''right'',
       f_rawTypeName = ''Expression'',
       offsetVarName = Some (OFFSET ''BinaryExpression'' ''right''),
       ancestorDiscriminant = Some 2\<rparr>]"
  define gs where "gs =
     [\<lparr>f_name = ''span'', f_type = RustType [] ''Span'', f_rawName = ''span'',
       f_rawTypeName = ''Span'',
       offsetVarName = Some (OFFSET ''NumericLiteral'' ''span''),
       ancestorDiscriminant = None\<rparr>,
      \<lparr>f_name = ''value'', f_type = RustType [] ''f64'', f_rawName = ''value'',
       f_rawTypeName = ''f64'',
       offsetVarName = Some (OFFSET ''NumericLiteral'' ''value''),
       ancestorDiscriminant = None\<rparr>]"
  have hd: "hd ex_annotated = Struct ''BinaryExpression'' True fs"
    unfolding fs_def by code_simp
  have snd: "ex_annotated ! 1 = Struct ''NumericLiteral'' True gs"
    unfolding gs_def by code_simp
  have ok: "\<not> isl (generateWalkForStruct (Struct ''BinaryExpression'' True fs) ex_annotated)"
    unfolding fs_def by code_simp
  have ok2: "\<not> isl (generateWalkForStruct (Struct ''NumericLiteral'' True gs) ex_annotated)"
    unfolding gs_def by code_simp
  have vf: "visitedFieldsOf ex_annotated fs = [fs ! 1, fs ! 3]"
    unfolding fs_def by code_simp
  have vg: "visitedFieldsOf ex_annotated gs = []"
    unfolding gs_def by code_simp
  have tg: "walkTarget (fs ! 1) = WalkFn ''Expression''" "walkTarget (fs ! 3) = WalkFn ''Expression''"
    "f_name (fs ! 1) = ''left''" "ancestorDiscriminant (fs ! 3) = Some 2"
    unfolding fs_def by code_simp+
  from ok obtain fd where fd: "generateWalkForStruct (Struct ''BinaryExpression'' True fs) ex_annotated = Inr fd"
    by (cases "generateWalkForStruct (Struct ''BinaryExpression'' True fs) ex_annotated") auto
  from ok2 obtain fd2 where fd2: "generateWalkForStruct (Struct ''NumericLiteral'' True gs) ex_annotated = Inr fd2"
    by (cases "generateWalkForStruct (Struct ''NumericLiteral'' True gs) ex_annotated") auto
  from struct_walk_order[OF fd] struct_walk_order[OF fd2] fd fd2 hd snd show ?thesis
    by (simp add: vf vg tg del: One_nat_def)
qed

subsection \<open>Wrapper chains\<close>

lemma fieldsCodesFrom_nth:
  "fieldsCodesFrom fs k = Inr codes \<Longrightarrow>
   length codes = length fs \<and> (\<forall>i<length fs. fieldCodeFor (fs ! i) (k + i) = Inr (codes ! i))"
proof (induction fs arbitrary: k codes)
  case Nil
  then show ?case by simp
next
  case (Cons f fs)
  from Cons.prems obtain c cs where
    c: "fieldCodeFor f k = Inr c" and cs: "fieldsCodesFrom fs (Suc k) = Inr cs"
    and codes: "codes = c # cs"
    by (auto split: sum.splits)
  from Cons.IH[OF cs] have len: "length cs = length fs"
    and nth: "\<And>i. i < length fs \<Longrightarrow> fieldCodeFor (fs ! i) (Suc k + i) = Inr (cs ! i)"
    by auto
  show ?case
  proof (intro conjI allI impI)
    show "length codes = length (f # fs)" using len codes by simp
  next
    fix i assume "i < length (f # fs)"
    then show "fieldCodeFor ((f # fs) ! i) (k + i) = Inr (codes ! i)"
      using c nth codes by (cases i) auto
  qed
qed

lemma concat_nth_split:
  "i < length xss \<Longrightarrow> \<exists>pre post. concat xss = pre @ xss ! i @ post"
  by (metis concat.simps(2) concat_append id_take_nth_drop)

lemma generateWalkForStruct_field:
  assumes gen: "generateWalkForStruct (Struct name l fs) types = Inr fd"
    and k: "k < length (visitedFieldsOf types fs)"
  shows "\<exists>code pre post. fieldCodeFor (visitedFieldsOf types fs ! k) k = Inr code
           \<and> fd_body fd = pre @ code @ post"
proof -
  from gen obtain codes where
    codes: "fieldsCodesFrom (visitedFieldsOf types fs) 0 = Inr codes"
    and fd: "fd = \<lparr>fd_name = WalkFn name, fd_param = ''node'',
           fd_body = CallHook (EnterHook name) (Var ''node'')
             # (case visitedFieldsOf types fs of
                  [] \<Rightarrow> []
                | field # rest \<Rightarrow>
                    PushStack (VariantName name (f_name field)) (Without name (f_name field))
                    # concat codes @ [PopStack])
             @ [CallHook (ExitHook name) (Var ''node'')]\<rparr>"
    by (rule generateWalkForStruct_body)
  from fieldsCodesFrom_nth[OF codes] k
  have len: "k < length codes"
    and code: "fieldCodeFor (visitedFieldsOf types fs ! k) k = Inr (codes ! k)"
    by auto
  from concat_nth_split[OF len] obtain pre post where
    split: "concat codes = pre @ codes ! k @ post" by blast
  from k obtain first others where vf: "visitedFieldsOf types fs = first # others"
    by (cases "visitedFieldsOf types fs") auto
  have "fd_body fd =
      (CallHook (EnterHook name) (Var ''node'')
       # PushStack (VariantName name (f_name first)) (Without name (f_name first)) # pre)
      @ codes ! k @ (post @ [PopStack, CallHook (ExitHook name) (Var ''node'')])"
    using fd vf split by simp
  with code show ?thesis by blast
qed

lemma fieldCodeFor_boxed:
  assumes "''Box'' \<in> set (wrappers (f_type f))" and "fieldCodeFor f k = Inr code"
  shows "(wrappers (f_type f) = [''Box'']
          \<and> code = (if k = 0 then [] else [RetagStack (ancestorDiscriminant f)])
                   @ [Call (WalkFn (inner (f_type f)))
                        (Unbox (FieldPtr (offsetVarName f) (f_type f)))])
       \<or> (wrappers (f_type f) = [''Option'', ''Box'']
          \<and> code = [IfLetSome ''field'' (FieldPtr (offsetVarName f) (f_type f))
                      ((if k = 0 then [] else [RetagStack (ancestorDiscriminant f)])
                       @ [Call (WalkFn (inner (f_type f))) (Unbox (Var ''field''))])])"
proof (cases "wrappers (f_type f)")
  case Nil
  with assms show ?thesis by simp
next
  case (Cons w ws)
  with assms show ?thesis
    unfolding fieldCodeFor_def typeAndWrappers_def Let_def
    by (cases ws) (auto split: if_splits)
qed

text \<open>
  C3 as amended. For a descendable field of a struct whose wrapper chain contains
  \<^verbatim>\<open>Box\<close>: when the walk function is generated, the chain is \<^verbatim>\<open>Box<T>\<close> or \<^verbatim>\<open>Option<Box<T>>\<close>
  and the code of the field dereferences the box once and calls the walk function of
  \<^verbatim>\<open>T\<close>; for every other chain, \<^verbatim>\<open>Vec<Box<T>>\<close> among them, the generator stops with an
  assertion failure.
\<close>

theorem boxed_field_walk:
  assumes "k < length (visitedFieldsOf types fs)"
    and "field = visitedFieldsOf types fs ! k"
    and "''Box'' \<in> set (wrappers (f_type field))"
  shows "(wrappers (f_type field) \<noteq> [''Box''] \<and> wrappers (f_type field) \<noteq> [''Option'', ''Box'']
            \<longrightarrow> isl (generateWalkForStruct (Struct name l fs) types))
       \<and> (\<forall>fd. generateWalkForStruct (Struct name l fs) types = Inr fd \<longrightarrow>
            (wrappers (f_type field) = [''Box'']
             \<and> (\<exists>pre post. fd_body fd =
                   pre @ (if k = 0 then [] else [RetagStack (ancestorDiscriminant field)])
                   @ [Call (WalkFn (inner (f_type field)))
                        (Unbox (FieldPtr (offsetVarName field) (f_type field)))] @ post))
          \<or> (wrappers (f_type field) = [''Option'', ''Box'']
             \<and> (\<exists>pre post. fd_body fd =
                   pre @ [IfLetSome ''field'' (FieldPtr (offsetVarName field) (f_type field))
                            ((if k = 0 then [] else [RetagStack (ancestorDiscriminant field)])
                             @ [Call (WalkFn (inner (f_type field))) (Unbox (Var ''field''))])]
                   @ post)))"
proof -
  have main: "(wrappers (f_type field) = [''Box'']
             \<and> (\<exists>pre post. fd_body fd =
                   pre @ (if k = 0 then [] else [RetagStack (ancestorDiscriminant field)])
                   @ [Call (WalkFn (inner (f_type field)))
                        (Unbox (FieldPtr (offsetVarName field) (f_type field)))] @ post))
          \<or> (wrappers (f_type field) = [''Option'', ''Box'']
             \<and> (\<exists>pre post. fd_body fd =
                   pre @ [IfLetSome ''field'' (FieldPtr (offsetVarName field) (f_type field))
                            ((if k = 0 then [] else [RetagStack (ancestorDiscriminant field)])
                             @ [Call (WalkFn (inner (f_type field))) (Unbox (Var ''field''))])]
                   @ post))"
    if gen: "generateWalkForStruct (Struct name l fs) types = Inr fd" for fd
  proof -
    from generateWalkForStruct_field[OF gen assms(1)] assms(2)
    obtain code pre post where
      code: "fieldCodeFor field k = Inr code" and body: "fd_body fd = pre @ code @ post"
      by auto
    from fieldCodeFor_boxed[OF assms(3) code] body show ?thesis
      by (elim disjE conjE) (simp_all, blast+)
  qed
  show ?thesis
  proof (intro conjI allI impI)
    assume no: "wrappers (f_type field) \<noteq> [''Box''] \<and> wrappers (f_type field) \<noteq> [''Option'', ''Box'']"
    show "isl (generateWalkForStruct (Struct name l fs) types)"
    proof (cases "generateWalkForStruct (Struct name l fs) types")
      case (Inl e)
      then show ?thesis by simp
    next
      case (Inr fd)
      from main[OF Inr] no show ?thesis by auto
    qed
  next
    fix fd assume "generateWalkForStruct (Struct name l fs) types = Inr fd"
    from main[OF this] show "(wrappers (f_type field) = [''Box'']
             \<and> (\<exists>pre post. fd_body fd =
                   pre @ (if k = 0 then [] else [RetagStack (ancestorDiscriminant field)])
                   @ [Call (WalkFn (inner (f_type field)))
                        (Unbox (FieldPtr (offsetVarName field) (f_type field)))] @ post))
          \<or> (wrappers (f_type field) = [''Option'', ''Box'']
             \<and> (\<exists>pre post. fd_body fd =
                   pre @ [IfLetSome ''field'' (FieldPtr (offsetVarName field) (f_type field))
                            ((if k = 0 then [] else [RetagStack (ancestorDiscriminant field)])
                             @ [Call (WalkFn (inner (f_type field))) (Unbox (Var ''field''))])]
                   @ post))" .
  qed
qed

text \<open>The claim C3 as stated fails: a \<^verbatim>\<open>Vec<Box<NumericLiteral>>\<close> field is rejected.\<close>

theorem boxed_under_vec_rejected:
  "generateWalkForStruct (hd ex_vec_box) ex_vec_box
     = Inl (CannotHandleStructField (RustType [''Vec'', ''Box''] ''NumericLiteral''))
   \<and> generateWalkFunctionsCode ex_vec_box
     = Some (Inl (CannotHandleStructField (RustType [''Vec'', ''Box''] ''NumericLiteral'')))"
  by code_simp

theorem boxed_field_walk_witness:
  "isl (generateWalkForStruct (hd ex_vec_box) ex_vec_box)
   \<and> (\<exists>fd pre post. generateWalkForStruct (hd ex_boxed) ex_boxed = Inr fd
         \<and> fd_body fd =
             pre @ [Call (WalkFn ''NumericLiteral'')
                      (Unbox (FieldPtr (Some (OFFSET ''UnaryExpression'' ''argument''))
                                (RustType [''Box''] ''NumericLiteral'')))] @ post)
   \<and> (\<exists>fd pre post. generateWalkForStruct (hd ex_boxed) ex_boxed = Inr fd
         \<and> fd_body fd =
             pre @ [IfLetSome ''field''
                      (FieldPtr (Some (OFFSET ''UnaryExpression'' ''fallback''))
                         (RustType [''Option'', ''Box''] ''NumericLiteral''))
                      [RetagStack (Some 2),
                       Call (WalkFn ''NumericLiteral'') (Unbox (Var ''field''))]] @ post)"
proof -
  define fs where "fs = fieldsOf (hd ex_vec_box)"
  define gs where "gs = fieldsOf (hd ex_boxed)"
  have s1: "hd ex_vec_box = Struct ''TemplateLiteral'' True fs"
    unfolding fs_def by code_simp
  have s2: "hd ex_boxed = Struct ''UnaryExpression'' True gs"
    unfolding gs_def by code_simp
  have v1: "0 < length (visitedFieldsOf ex_vec_box fs)"
    "''Box'' \<in> set (wrappers (f_type (visitedFieldsOf ex_vec_box fs ! 0)))"
    "wrappers (f_type (visitedFieldsOf ex_vec_box fs ! 0)) \<noteq> [''Box'']"
    "wrappers (f_type (visitedFieldsOf ex_vec_box fs ! 0)) \<noteq> [''Option'', ''Box'']"
    unfolding fs_def by code_simp+
  have v2: "0 < length (visitedFieldsOf ex_boxed gs)"
    "''Box'' \<in> set (wrappers (f_type (visitedFieldsOf ex_boxed gs ! 0)))"
    "wrappers (f_type (visitedFieldsOf ex_boxed gs ! 0)) \<noteq> [''Option'', ''Box'']"
    "inner (f_type (visitedFieldsOf ex_boxed gs ! 0)) = ''NumericLiteral''"
    "offsetVarName (visitedFieldsOf ex_boxed gs ! 0) = Some (OFFSET ''UnaryExpression'' ''argument'')"
    "f_type (visitedFieldsOf ex_boxed gs ! 0) = RustType [''Box''] ''NumericLiteral''"
    unfolding gs_def by code_simp+
  have v3: "Suc 0 < length (visitedFieldsOf ex_boxed gs)"
    "''Box'' \<in> set (wrappers (f_type (visitedFieldsOf ex_boxed gs ! Suc 0)))"
    "wrappers (f_type (visitedFieldsOf ex_boxed gs ! Suc 0)) \<noteq> [''Box'']"
    "inner (f_type (visitedFieldsOf ex_boxed gs ! Suc 0)) = ''NumericLiteral''"
    "offsetVarName (visitedFieldsOf ex_boxed gs ! Suc 0) = Some (OFFSET ''UnaryExpression'' ''fallback'')"
    "f_type (visitedFieldsOf ex_boxed gs ! Suc 0) = RustType [''Option'', ''Box''] ''NumericLiteral''"
    "ancestorDiscriminant (visitedFieldsOf ex_boxed gs ! Suc 0) = Some 2"
    unfolding gs_def by code_simp+
  have ok: "\<not> isl (generateWalkForStruct (Struct ''UnaryExpression'' True gs) ex_boxed)"
    unfolding gs_def by code_simp
  then obtain fd where fd: "generateWalkForStruct (Struct ''UnaryExpression'' True gs) ex_boxed = Inr fd"
    by (cases "generateWalkForStruct (Struct ''UnaryExpression'' True gs) ex_boxed") auto
  from boxed_field_walk[OF v1(1) refl v1(2), of "''TemplateLiteral''" True] v1(3,4)
  have a: "isl (generateWalkForStruct (hd ex_vec_box) ex_vec_box)"
    by (simp add: s1)
  from boxed_field_walk[OF v2(1) refl v2(2), of "''UnaryExpression''" True] fd v2
  have b: "\<exists>pre post. fd_body fd =
             pre @ [Call (WalkFn ''NumericLiteral'')
                      (Unbox (FieldPtr (Some (OFFSET ''UnaryExpression'' ''argument''))
                                (RustType [''Box''] ''NumericLiteral'')))] @ post"
    by simp
  from boxed_field_walk[OF v3(1) refl v3(2), of "''UnaryExpression''" True] fd v3
  have c: "\<exists>pre post. fd_body fd =
             pre @ [IfLetSome ''field''
                      (FieldPtr (Some (OFFSET ''UnaryExpression'' ''fallback''))
                         (RustType [''Option'', ''Box''] ''NumericLiteral''))
                      [RetagStack (Some 2),
                       Call (WalkFn ''NumericLiteral'') (Unbox (Var ''field''))]] @ post"
    by simp
  from a b c fd s2 show ?thesis by simp
qed

subsection \<open>Enum inheritance and the walk function of an enum\<close>


lemma is_enum_iff: "is_enum types b \<longleftrightarrow> (\<exists>n l vs inh. types_get types b = Some (Enum n l vs inh))"
  by (auto simp: is_enum_def split: option.splits type_def.splits)

lemma inherits_variant_enum:
  assumes "types_get types B = Some (Enum n l vs inh)"
  shows "inherits_variant types B v \<longleftrightarrow>
         v \<in> set (map v_name vs) \<or> (\<exists>b \<in> set inh. inherits_variant types b v)"
proof
  assume "inherits_variant types B v"
  then show "v \<in> set (map v_name vs) \<or> (\<exists>b \<in> set inh. inherits_variant types b v)"
    using assms by (cases rule: inherits_variant.cases) auto
next
  assume "v \<in> set (map v_name vs) \<or> (\<exists>b \<in> set inh. inherits_variant types b v)"
  then show "inherits_variant types B v"
    using assms by (auto intro: inherits_variant.intros)
qed

lemma inherits_variant_other:
  assumes "\<not> is_enum types B"
  shows "\<not> inherits_variant types B v"
proof
  assume "inherits_variant types B v"
  then show False using assms by (cases rule: inherits_variant.cases) (auto simp: is_enum_iff)
qed

lemma missing_base_enum:
  assumes "types_get types B = Some (Enum n l vs inh)"
  shows "missing_base types B m \<longleftrightarrow> (\<exists>b \<in> set inh. missing_base types b m)"
proof
  assume "missing_base types B m"
  then show "\<exists>b \<in> set inh. missing_base types b m"
    using assms by (cases rule: missing_base.cases) (auto simp: is_enum_iff)
next
  assume "\<exists>b \<in> set inh. missing_base types b m"
  then show "missing_base types B m"
    using assms by (auto intro: missing_base.intros)
qed

lemma missing_base_other:
  assumes "\<not> is_enum types B"
  shows "missing_base types B m \<longleftrightarrow> m = B"
proof
  assume "missing_base types B m"
  then show "m = B" using assms by (cases rule: missing_base.cases) (auto simp: is_enum_iff)
next
  assume "m = B"
  with assms show "missing_base types B m" by (auto intro: missing_base.intros)
qed

lemma inheritedLoop_sets:
  assumes "inheritedLoop types from i vm mv = Some y"
  shows "i \<le> length from \<longrightarrow>
     set (fst y) = set vm \<union> {v. \<exists>b \<in> set (drop i from). inherits_variant types b v}
   \<and> set (snd y) = set mv \<union> {m. \<exists>b \<in> set (drop i from). missing_base types b m}"
proof (rule inheritedLoop.raw_induct[rotated 1, OF assms])
  fix loop types "from" i vm mv y
  assume IH: "\<And>types from i vm mv y. loop types from i vm mv = Some y \<Longrightarrow>
     i \<le> length from \<longrightarrow>
       set (fst y) = set vm \<union> {v. \<exists>b \<in> set (drop i from). inherits_variant types b v}
     \<and> set (snd y) = set mv \<union> {m. \<exists>b \<in> set (drop i from). missing_base types b m}"
    and eq: "(if i < length from then
        (case types_get types (from ! i) of
           Some (Enum n l vs inh) \<Rightarrow>
             loop types (from @ inh) (Suc i) (vm @ map v_name vs) mv
         | _ \<Rightarrow> loop types from (Suc i) vm (mv @ [from ! i]))
      else Some (vm, mv)) = Some y"
  show "i \<le> length from \<longrightarrow>
     set (fst y) = set vm \<union> {v. \<exists>b \<in> set (drop i from). inherits_variant types b v}
   \<and> set (snd y) = set mv \<union> {m. \<exists>b \<in> set (drop i from). missing_base types b m}"
  proof (cases "i < length from")
    case False
    with eq show ?thesis by auto
  next
    case True
    then have dr: "drop i from = from ! i # drop (Suc i) from"
      by (simp add: Cons_nth_drop_Suc)
    show ?thesis
    proof (cases "is_enum types (from ! i)")
      case False
      with True eq have
        rec: "loop types from (Suc i) vm (mv @ [from ! i]) = Some y"
        by (auto simp: is_enum_def split: option.splits type_def.splits)
      from IH[OF rec] True
      have "set (fst y) = set vm \<union> {v. \<exists>b \<in> set (drop (Suc i) from). inherits_variant types b v}"
        and "set (snd y) = set (mv @ [from ! i])
              \<union> {m. \<exists>b \<in> set (drop (Suc i) from). missing_base types b m}"
        by auto
      with False show ?thesis
        by (auto simp: dr inherits_variant_other missing_base_other)
    next
      case en: True
      then obtain n l vs inh where
        get: "types_get types (from ! i) = Some (Enum n l vs inh)"
        by (auto simp: is_enum_iff)
      with True eq have
        rec: "loop types (from @ inh) (Suc i) (vm @ map v_name vs) mv = Some y"
        by auto
      from True have dr2: "drop (Suc i) (from @ inh) = drop (Suc i) from @ inh"
        by simp
      from IH[OF rec] True
      have "set (fst y) = set (vm @ map v_name vs)
              \<union> {v. \<exists>b \<in> set (drop (Suc i) (from @ inh)). inherits_variant types b v}"
        and "set (snd y) = set mv
              \<union> {m. \<exists>b \<in> set (drop (Suc i) (from @ inh)). missing_base types b m}"
        by auto
      then show ?thesis
        unfolding dr dr2
        using inherits_variant_enum[OF get] missing_base_enum[OF get]
        by auto
    qed
  qed
qed



lemma variantCodesFrom_own:
  "variantCodesFrom types name vs = Inr own \<Longrightarrow>
   own = map (ownArm name) vs
   \<and> (\<forall>var \<in> set vs. types_get types (inner (v_type var)) \<noteq> None
         \<and> (wrappers (v_type var) = [''Box''] \<or> wrappers (v_type var) = []))"
proof (induction vs arbitrary: own)
  case Nil
  then show ?case by simp
next
  case (Cons var vs)
  from Cons.prems obtain c cs where
    c: "variantCodeFor types name var = Inr c"
    and cs: "variantCodesFrom types name vs = Inr cs" and own: "own = c # cs"
    by (auto split: sum.splits)
  from c have "c = ownArm name var \<and> types_get types (inner (v_type var)) \<noteq> None
         \<and> (wrappers (v_type var) = [''Box''] \<or> wrappers (v_type var) = [])"
    by (auto simp: variantCodeFor_def typeAndWrappers_def ownArm_def Let_def split: if_splits)
  with Cons.IH[OF cs] own show ?case by simp
qed

lemma find_pattern:
  "find (pattern_matches v) (map (\<lambda>x. Pattern name x b) vm)
     = (if v \<in> set vm then Some (Pattern name v b) else None)"
  by (induction vm) auto

lemma select_arm_own:
  "select_arm (map (ownArm name) vs @ rest) v =
     (case find (\<lambda>x. v_name x = v) vs of
        Some var \<Rightarrow> Some (Some ''node'', snd (ownArm name var))
      | None \<Rightarrow> select_arm rest v)"
  by (induction vs) (auto simp: ownArm_def)


lemma inheritedCodes_arms:
  "inheritedCodes types name inh mv = Some (codes, mv') \<Longrightarrow>
   list_all2 (inheritedArm types name) inh codes
   \<and> set mv' = set mv \<union> {m. \<exists>b \<in> set inh. missing_base types b m}"
proof (induction inh arbitrary: mv codes mv')
  case Nil
  then show ?case by simp
next
  case (Cons b inh)
  from Cons.prems obtain vm mv1 cs where
    loop: "inheritedLoop types [b] 0 [] mv = Some (vm, mv1)"
    and rest: "inheritedCodes types name inh mv1 = Some (cs, mv')"
    and codes: "codes = (map (\<lambda>v. Pattern name v None) vm, Call (WalkFn b) (Var ''node'')) # cs"
    by (auto split: option.splits prod.splits)
  from inheritedLoop_sets[OF loop]
  have vm: "set vm = {v. inherits_variant types b v}"
    and mv1: "set mv1 = set mv \<union> {m. missing_base types b m}"
    by auto
  from Cons.IH[OF rest]
  have "list_all2 (inheritedArm types name) inh cs"
    and "set mv' = set mv1 \<union> {m. \<exists>b \<in> set inh. missing_base types b m}"
    by auto
  moreover have "inheritedArm types name b
      (map (\<lambda>v. Pattern name v None) vm, Call (WalkFn b) (Var ''node''))"
    using vm by (auto simp: inheritedArm_def)
  ultimately show ?case
    using mv1 codes by auto
qed

lemma select_arm_inherited:
  assumes "list_all2 (inheritedArm types name) inh codes"
    and "\<exists>b \<in> set inh. inherits_variant types b v"
  shows "\<exists>B \<in> set inh. select_arm codes v = Some (None, Call (WalkFn B) (Var ''node''))
           \<and> inherits_variant types B v"
  using assms
proof (induction rule: list_all2_induct)
  case Nil
  then show ?case by simp
next
  case (Cons b inh arm codes)
  from Cons.hyps(1) obtain vm where
    arm: "arm = (map (\<lambda>v. Pattern name v None) vm, Call (WalkFn b) (Var ''node''))"
    and vm: "set vm = {v. inherits_variant types b v}"
    by (auto simp: inheritedArm_def)
  show ?case
  proof (cases "inherits_variant types b v")
    case True
    with arm vm show ?thesis by (simp add: find_pattern)
  next
    case False
    with Cons.prems have "\<exists>b \<in> set inh. inherits_variant types b v" by auto
    from Cons.IH[OF this] False arm vm show ?thesis by (auto simp: find_pattern)
  qed
qed

lemma generateWalkForEnum_body:
  assumes "generateWalkForEnum (Enum name l vs inh) types = Some (Inr fd)"
  obtains codes where
    "variantCodesFrom types name vs = Inr (map (ownArm name) vs)"
    "inheritedCodes types name inh [] = Some (codes, [])"
    "fd = \<lparr>fd_name = WalkFn name, fd_param = ''node'',
           fd_body = [CallHook (EnterHook name) (Var ''node''),
                      Match (Var ''node'') (map (ownArm name) vs @ codes),
                      CallHook (ExitHook name) (Var ''node'')]\<rparr>"
proof -
  from assms obtain own codes mv where
    own: "variantCodesFrom types name vs = Inr own"
    and codes: "inheritedCodes types name inh [] = Some (codes, mv)"
    by (auto split: sum.splits option.splits)
  from variantCodesFrom_own[OF own] have "own = map (ownArm name) vs" by simp
  with assms own codes that show ?thesis
    by (auto split: if_splits)
qed

inductive_cases inh_sizes_ConsE: "inh_sizes types (b # bs) k"
inductive_cases inh_sizes_NilE: "inh_sizes types [] k"
inductive_cases inh_sizeE: "inh_size types b k"

lemma inh_sizes_append:
  "inh_sizes types xs a \<Longrightarrow> inh_sizes types ys b \<Longrightarrow> inh_sizes types (xs @ ys) (a + b)"
proof (induction xs arbitrary: a)
  case Nil
  then show ?case by (auto elim: inh_sizes_NilE)
next
  case (Cons x xs)
  from Cons.prems(1) obtain k m where
    "a = k + m" "inh_size types x k" "inh_sizes types xs m"
    by (auto elim: inh_sizes_ConsE)
  with Cons.IH[OF _ Cons.prems(2)] show ?case
    by (auto simp: add.assoc intro: inh_size_inh_sizes.cons)
qed

lemma inh_sizes_split:
  "inh_sizes types (xs @ ys) k \<Longrightarrow> \<exists>a b. inh_sizes types xs a \<and> inh_sizes types ys b"
proof (induction xs arbitrary: k)
  case Nil
  then show ?case by (auto intro: inh_size_inh_sizes.nil)
next
  case (Cons x xs)
  from Cons.prems obtain kx m where
    "inh_size types x kx" "inh_sizes types (xs @ ys) m"
    by (auto elim: inh_sizes_ConsE)
  with Cons.IH show ?case
    by (blast intro: inh_size_inh_sizes.cons)
qed

lemma inh_sizes_member:
  "inh_sizes types bs k \<Longrightarrow> b \<in> set bs \<Longrightarrow> \<exists>kb \<le> k. inh_size types b kb"
proof (induction bs arbitrary: k)
  case Nil
  then show ?case by simp
next
  case (Cons x bs)
  from Cons.prems(1) obtain kx m where
    k: "k = kx + m" and x: "inh_size types x kx" and bs: "inh_sizes types bs m"
    by (auto elim: inh_sizes_ConsE)
  show ?case
  proof (cases "b = x")
    case True
    have "kx \<le> k" using k by simp
    with x True show ?thesis by blast
  next
    case False
    with Cons.prems(2) have "b \<in> set bs" by simp
    from Cons.IH[OF bs this] obtain kb where "kb \<le> m" "inh_size types b kb" by blast
    moreover from this k have "kb \<le> k" by simp
    ultimately show ?thesis by blast
  qed
qed

lemma inh_sizes_all:
  "(\<And>b. b \<in> set bs \<Longrightarrow> \<exists>k. inh_size types b k) \<Longrightarrow> \<exists>k. inh_sizes types bs k"
proof (induction bs)
  case Nil
  show ?case by (auto intro: inh_size_inh_sizes.nil)
next
  case (Cons x bs)
  then obtain kx m where "inh_size types x kx" "inh_sizes types bs m"
    by (metis list.set_intros(1) list.set_intros(2))
  then show ?case by (blast intro: inh_size_inh_sizes.cons)
qed

lemma inh_size_enum:
  assumes "inh_size types b k" and "types_get types b = Some (Enum n l vs inh)"
  shows "\<exists>k'. k = Suc k' \<and> inh_sizes types inh k'"
  using assms by (auto elim!: inh_sizeE simp: is_enum_iff)

lemma inheritedLoop_terminates:
  "inh_sizes types (drop i from) k \<Longrightarrow> i \<le> length from
   \<Longrightarrow> \<exists>y. inheritedLoop types from i vm mv = Some y"
proof (induction k arbitrary: "from" i vm mv rule: less_induct)
  case (less k)
  show ?case
  proof (cases "i < length from")
    case False
    then show ?thesis by (subst inheritedLoop.simps) simp
  next
    case True
    then have dr: "drop i from = from ! i # drop (Suc i) from"
      by (simp add: Cons_nth_drop_Suc)
    with less.prems(1) obtain kb m where
      k: "k = kb + m" and b: "inh_size types (from ! i) kb"
      and rest: "inh_sizes types (drop (Suc i) from) m"
      by (auto elim: inh_sizes_ConsE)
    show ?thesis
    proof (cases "is_enum types (from ! i)")
      case False
      from b have "0 < kb" by (auto elim: inh_sizeE)
      with k have "m < k" by simp
      from less.IH[OF this rest, of vm "mv @ [from ! i]"] True
      obtain y where "inheritedLoop types from (Suc i) vm (mv @ [from ! i]) = Some y"
        by auto
      with True False show ?thesis
        by (subst inheritedLoop.simps)
           (auto simp: is_enum_def split: option.splits type_def.splits)
    next
      case en: True
      then obtain n l vs inh where
        get: "types_get types (from ! i) = Some (Enum n l vs inh)"
        by (auto simp: is_enum_iff)
      from inh_size_enum[OF b get] obtain k' where
        kb: "kb = Suc k'" and inh: "inh_sizes types inh k'" by blast
      from True have dr2: "drop (Suc i) (from @ inh) = drop (Suc i) from @ inh"
        by simp
      from inh_sizes_append[OF rest inh]
      have sz: "inh_sizes types (drop (Suc i) (from @ inh)) (m + k')"
        unfolding dr2 .
      have "m + k' < k" using k kb by simp
      from less.IH[OF this sz, of "vm @ map v_name vs" mv] True
      obtain y where
        "inheritedLoop types (from @ inh) (Suc i) (vm @ map v_name vs) mv = Some y"
        by auto
      with True get show ?thesis
        by (subst inheritedLoop.simps) simp
    qed
  qed
qed

lemma inheritedLoop_sizes:
  assumes "inheritedLoop types from i vm mv = Some y"
  shows "i \<le> length from \<longrightarrow> (\<exists>k. inh_sizes types (drop i from) k)"
proof (rule inheritedLoop.raw_induct[rotated 1, OF assms])
  fix loop types "from" i vm mv y
  assume IH: "\<And>types from i vm mv y. loop types from i vm mv = Some y \<Longrightarrow>
     i \<le> length from \<longrightarrow> (\<exists>k. inh_sizes types (drop i from) k)"
    and eq: "(if i < length from then
        (case types_get types (from ! i) of
           Some (Enum n l vs inh) \<Rightarrow>
             loop types (from @ inh) (Suc i) (vm @ map v_name vs) mv
         | _ \<Rightarrow> loop types from (Suc i) vm (mv @ [from ! i]))
      else Some (vm, mv)) = Some y"
  show "i \<le> length from \<longrightarrow> (\<exists>k. inh_sizes types (drop i from) k)"
  proof (cases "i < length from")
    case False
    then show ?thesis by (auto intro: inh_size_inh_sizes.nil)
  next
    case True
    then have dr: "drop i from = from ! i # drop (Suc i) from"
      by (simp add: Cons_nth_drop_Suc)
    show ?thesis
    proof (cases "is_enum types (from ! i)")
      case False
      with True eq have
        rec: "loop types from (Suc i) vm (mv @ [from ! i]) = Some y"
        by (auto simp: is_enum_def split: option.splits type_def.splits)
      from IH[OF rec] True obtain k where "inh_sizes types (drop (Suc i) from) k"
        by auto
      with False show ?thesis
        unfolding dr by (blast intro: inh_size_inh_sizes.cons inh_size_inh_sizes.leaf)
    next
      case en: True
      then obtain n l vs inh where
        get: "types_get types (from ! i) = Some (Enum n l vs inh)"
        by (auto simp: is_enum_iff)
      with True eq have
        rec: "loop types (from @ inh) (Suc i) (vm @ map v_name vs) mv = Some y"
        by auto
      from True have dr2: "drop (Suc i) (from @ inh) = drop (Suc i) from @ inh"
        by simp
      from IH[OF rec] True obtain k where
        "inh_sizes types (drop (Suc i) from @ inh) k"
        by (auto simp: dr2)
      from inh_sizes_split[OF this] obtain a b where
        "inh_sizes types (drop (Suc i) from) a" "inh_sizes types inh b" by blast
      with get show ?thesis
        unfolding dr by (blast intro: inh_size_inh_sizes.cons inh_size_inh_sizes.node)
    qed
  qed
qed

lemma acyclic_inh_size:
  assumes "acyclic_inherits types"
  shows "\<exists>k. inh_size types b k"
proof -
  from assms obtain rank :: "string \<Rightarrow> nat" where
    rank: "\<And>B n l vs inh b. types_get types B = Some (Enum n l vs inh) \<Longrightarrow> b \<in> set inh
             \<Longrightarrow> rank b < rank B"
    unfolding acyclic_inherits_def by blast
  show ?thesis
  proof (induction "rank b" arbitrary: b rule: less_induct)
    case less
    show ?case
    proof (cases "is_enum types b")
      case False
      then show ?thesis by (blast intro: inh_size_inh_sizes.leaf)
    next
      case True
      then obtain n l vs inh where
        get: "types_get types b = Some (Enum n l vs inh)"
        by (auto simp: is_enum_iff)
      have "\<exists>k. inh_size types b' k" if "b' \<in> set inh" for b'
        using less[OF rank[OF get that]] .
      from inh_sizes_all[of inh types, OF this] obtain k where "inh_sizes types inh k"
        by blast
      with get show ?thesis by (blast intro: inh_size_inh_sizes.node)
    qed
  qed
qed

lemma acyclic_inheritedCodes:
  assumes "acyclic_inherits types"
  shows "\<exists>y. inheritedCodes types name inh mv = Some y"
proof (induction inh arbitrary: mv)
  case Nil
  show ?case by simp
next
  case (Cons b inh)
  from acyclic_inh_size[OF assms, of b] obtain k where "inh_size types b k" by blast
  from inh_size_inh_sizes.cons[OF this inh_size_inh_sizes.nil]
  have "inh_sizes types (drop 0 [b]) (k + 0)" by simp
  from inheritedLoop_terminates[OF this, of "[]" mv]
  obtain vm mv1 where "inheritedLoop types [b] 0 [] mv = Some (vm, mv1)" by auto
  moreover from Cons[of mv1] obtain y where "inheritedCodes types name inh mv1 = Some y"
    by blast
  ultimately show ?case by (cases y) simp
qed

lemma acyclic_walkMethodsFrom:
  assumes "acyclic_inherits types"
  shows "\<exists>y. walkMethodsFrom types ts = Some y"
proof (induction ts)
  case Nil
  show ?case by simp
next
  case (Cons t ts)
  then obtain y where y: "walkMethodsFrom types ts = Some y" by blast
  show ?case
  proof (cases t)
    case (Struct n l fs)
    with y show ?thesis by (auto split: sum.splits)
  next
    case (Enum n l vs inh)
    from acyclic_inheritedCodes[OF assms, of n inh "[]"]
    obtain z where "inheritedCodes types n inh [] = Some z" by blast
    then have "\<exists>r. generateWalkForEnum (Enum n l vs inh) types = Some r"
      by (cases z) (auto split: sum.splits)
    with Enum y show ?thesis by (auto split: sum.splits)
  qed
qed

subsection \<open>The generated program as a whole\<close>


lemma types_get_Some:
  "types_get types n = Some t \<Longrightarrow> t \<in> set types \<and> t_name t = n"
  by (auto simp: types_get_def find_Some_iff)

lemma types_get_distinct:
  "distinct (map t_name types) \<Longrightarrow> t \<in> set types \<Longrightarrow> types_get types (t_name t) = Some t"
  unfolding types_get_def
  by (induction types) auto

lemma generatedFor_name:
  "generatedFor types t fd \<Longrightarrow> fd_name fd = WalkFn (t_name t)"
proof (cases t)
  case (Struct n l fs)
  assume "generatedFor types t fd"
  with Struct have "generateWalkForStruct (Struct n l fs) types = Inr fd"
    by (simp add: generatedFor_def)
  then show ?thesis using Struct
    by (elim generateWalkForStruct_body) simp
next
  case (Enum n l vs inh)
  assume "generatedFor types t fd"
  with Enum have "generateWalkForEnum (Enum n l vs inh) types = Some (Inr fd)"
    by (simp add: generatedFor_def)
  then show ?thesis using Enum
    by (elim generateWalkForEnum_body) simp
qed

lemma walkMethodsFrom_all:
  "walkMethodsFrom types ts = Some (Inr fns) \<Longrightarrow> list_all2 (generatedFor types) ts fns"
proof (induction ts arbitrary: fns)
  case Nil
  then show ?case by simp
next
  case (Cons t ts)
  from Cons.prems obtain f fs where
    f: "(case t of Struct name l fs \<Rightarrow> Some (generateWalkForStruct t types)
          | Enum name l vs inh \<Rightarrow> generateWalkForEnum t types) = Some (Inr f)"
    and fs: "walkMethodsFrom types ts = Some (Inr fs)" and fns: "fns = f # fs"
    by (auto split: option.splits sum.splits)
  from f have "generatedFor types t f"
    by (auto simp: generatedFor_def split: type_def.splits)
  with Cons.IH[OF fs] fns show ?case by simp
qed

lemma find_generated:
  assumes "list_all2 (generatedFor types) ts fns" and "distinct (map t_name ts)"
    and "t \<in> set ts"
  shows "\<exists>fd. find (\<lambda>fd. fd_name fd = WalkFn (t_name t)) (fns @ rest) = Some fd
           \<and> generatedFor types t fd"
  using assms
proof (induction rule: list_all2_induct)
  case Nil
  then show ?case by simp
next
  case (Cons t' ts fd' fns)
  from generatedFor_name[OF Cons.hyps(1)] have name: "fd_name fd' = WalkFn (t_name t')" .
  show ?case
  proof (cases "t = t'")
    case True
    with name Cons.hyps(1) show ?thesis by simp
  next
    case False
    with Cons.prems have mem: "t \<in> set ts" by simp
    from Cons.prems(1) have "t_name t' \<notin> t_name ` set ts" by simp
    with mem have "t_name t \<noteq> t_name t'" by (metis imageI)
    note mem this
    with Cons.IH Cons.prems(1) name show ?thesis by simp
  qed
qed

lemma find_generated_cases:
  assumes "list_all2 (generatedFor types) ts fns"
    and "find (\<lambda>fd. fd_name fd = f) (fns @ [walk_statements]) = Some fd"
  shows "fd = walk_statements \<or> (\<exists>t \<in> set ts. generatedFor types t fd)"
  using assms
  by (induction rule: list_all2_induct) (auto split: if_splits)

lemma generated_program:
  assumes "generateWalkFunctionsCode types = Some (Inr fns)"
  obtains ms where "fns = ms @ [walk_statements]" "list_all2 (generatedFor types) types ms"
proof -
  from assms obtain ms where
    "walkMethodsFrom types types = Some (Inr ms)" "fns = ms @ [walk_statements]"
    by (auto simp: generateWalkFunctionsCode_def split: option.splits sum.splits)
  with walkMethodsFrom_all that show ?thesis by blast
qed

lemma generated_enum_size:
  assumes "generateWalkForEnum (Enum name l vs inh) types = Some (Inr fd)"
    and "types_get types name = Some (Enum name l vs inh)"
  shows "\<exists>k. inh_size types name k"
proof -
  from assms(1) obtain codes where
    codes: "inheritedCodes types name inh [] = Some (codes, [])"
    by (rule generateWalkForEnum_body)
  have "\<exists>k. inh_sizes types bs k" if "inheritedCodes types name bs mv = Some y" for bs mv y
    using that
  proof (induction bs arbitrary: mv y)
    case Nil
    show ?case by (auto intro: inh_size_inh_sizes.nil)
  next
    case (Cons b bs)
    from Cons.prems obtain vm mv1 y' where
      loop: "inheritedLoop types [b] 0 [] mv = Some (vm, mv1)"
      and rest: "inheritedCodes types name bs mv1 = Some y'"
      by (auto split: option.splits prod.splits)
    from inheritedLoop_sizes[OF loop] obtain k where "inh_sizes types [b] k" by auto
    then obtain kb where "inh_size types b kb"
      by (auto elim: inh_sizes_ConsE)
    moreover from Cons.IH[OF rest] obtain m where "inh_sizes types bs m" by blast
    ultimately show ?case by (blast intro: inh_size_inh_sizes.cons)
  qed
  from this[OF codes] obtain k where "inh_sizes types inh k" by blast
  with assms(2) show ?thesis by (blast intro: inh_size_inh_sizes.node)
qed

lemma dispatch_chain:
  assumes gen: "generateWalkFunctionsCode types = Some (Inr fns)"
    and dist: "distinct (map t_name types)"
  shows "inh_size types E k \<Longrightarrow> inherits_variant types E v
         \<Longrightarrow> \<exists>D. dispatches_to fns E v D \<and> declares types D v"
proof (induction k arbitrary: E rule: less_induct)
  case (less k)
  from gen obtain ms where
    fns: "fns = ms @ [walk_statements]" and all: "list_all2 (generatedFor types) types ms"
    by (rule generated_program)
  from less.prems(2) have "is_enum types E"
    using inherits_variant_other by blast
  then obtain n l vs inh where get: "types_get types E = Some (Enum n l vs inh)"
    by (auto simp: is_enum_iff)
  from types_get_Some[OF get] have mem: "Enum n l vs inh \<in> set types" and n: "n = E"
    by auto
  from find_generated[OF all dist mem, of "[walk_statements]"] n fns
  obtain fd where
    find: "find (\<lambda>fd. fd_name fd = WalkFn E) fns = Some fd"
    and fd: "generateWalkForEnum (Enum E l vs inh) types = Some (Inr fd)"
    by (auto simp: generatedFor_def)
  from fd obtain codes where
    codes: "inheritedCodes types E inh [] = Some (codes, [])"
    and body: "fd_body fd = [CallHook (EnterHook E) (Var ''node''),
                      Match (Var ''node'') (map (ownArm E) vs @ codes),
                      CallHook (ExitHook E) (Var ''node'')]"
    by (elim generateWalkForEnum_body) simp
  show ?case
  proof (cases "find (\<lambda>x. v_name x = v) vs")
    case (Some var)
    then have "select_arm (map (ownArm E) vs @ codes) v
        = Some (Some ''node'', snd (ownArm E var))"
      by (simp add: select_arm_own)
    from dispatches_to.arrived[OF find body this]
    have "dispatches_to fns E v E" .
    moreover from Some have "v \<in> set (map v_name vs)"
      by (auto simp: find_Some_iff)
    with get have "declares types E v" by (simp add: declares_def)
    ultimately show ?thesis by blast
  next
    case None
    then have notown: "v \<notin> set (map v_name vs)"
      by (auto simp: find_None_iff)
    with less.prems(2) inherits_variant_enum[OF get]
    have ex: "\<exists>b \<in> set inh. inherits_variant types b v" by simp
    from inheritedCodes_arms[OF codes]
    have "list_all2 (inheritedArm types E) inh codes" by simp
    from select_arm_inherited[OF this ex] obtain B where
      B: "B \<in> set inh" and sel: "select_arm codes v = Some (None, Call (WalkFn B) (Var ''node''))"
      and Bv: "inherits_variant types B v"
      by blast
    from inh_size_enum[OF less.prems(1) get] obtain k' where
      k: "k = Suc k'" and sz: "inh_sizes types inh k'" by blast
    from inh_sizes_member[OF sz B] obtain kb where "kb \<le> k'" "inh_size types B kb"
      by blast
    with k have "kb < k" by simp
    from less.IH[OF this \<open>inh_size types B kb\<close> Bv] obtain D where
      D: "dispatches_to fns B v D" "declares types D v" by blast
    from sel None have "select_arm (map (ownArm E) vs @ codes) v
        = Some (None, Call (WalkFn B) (Var ''node''))"
      by (simp add: select_arm_own)
    from dispatches_to.through[OF find body this D(1)] D(2) show ?thesis by blast
  qed
qed

subsection \<open>Dispatch on the variant\<close>

text \<open>
  C8. The walk function of an enum takes, for a value whose variant the enum itself
  lists, the arm of that variant: it binds the payload and calls the walk function of the
  payload's type, on the unboxed payload when the payload type is boxed. The arms of the
  inherited enums come after the enum's own and are not reached, whether or not one of them
  names the variant too.
\<close>

theorem own_variant_dispatch:
  assumes "generateWalkForEnum (Enum name l vs inh) types = Some (Inr fd)"
    and "find (\<lambda>x. v_name x = v) vs = Some var"
  shows "\<exists>arms. fd_body fd = [CallHook (EnterHook name) (Var ''node''),
                               Match (Var ''node'') arms,
                               CallHook (ExitHook name) (Var ''node'')]
           \<and> select_arm arms v =
               Some (Some ''node'',
                     Call (WalkFn (inner (v_type var)))
                       (if wrappers (v_type var) = [''Box''] then Unbox (Var ''node'')
                        else Var ''node''))
           \<and> types_get types (inner (v_type var)) \<noteq> None"
proof -
  from assms(1) obtain codes where
    own: "variantCodesFrom types name vs = Inr (map (ownArm name) vs)"
    and fd: "fd = \<lparr>fd_name = WalkFn name, fd_param = ''node'',
           fd_body = [CallHook (EnterHook name) (Var ''node''),
                      Match (Var ''node'') (map (ownArm name) vs @ codes),
                      CallHook (ExitHook name) (Var ''node'')]\<rparr>"
    by (rule generateWalkForEnum_body)
  from assms(2) have "var \<in> set vs"
    by (auto simp: find_Some_iff)
  with variantCodesFrom_own[OF own] have "types_get types (inner (v_type var)) \<noteq> None"
    by auto
  with fd assms(2) show ?thesis
    by (simp add: select_arm_own ownArm_def)
qed

theorem own_variant_dispatch_witness:
  "inherits_variant ex_overlap ''MemberExpression'' ''StaticMemberExpression''
   \<and> (\<exists>fd arms. generateWalkForEnum (hd ex_overlap) ex_overlap = Some (Inr fd)
         \<and> fd_body fd = [CallHook (EnterHook ''SimpleAssignmentTarget'') (Var ''node''),
                          Match (Var ''node'') arms,
                          CallHook (ExitHook ''SimpleAssignmentTarget'') (Var ''node'')]
         \<and> select_arm arms ''StaticMemberExpression''
             = Some (Some ''node'', Call (WalkFn ''StaticMemberExpression'') (Var ''node'')))
   \<and> (\<exists>fd arms. generateWalkForEnum (ex_types ! 2) ex_types = Some (Inr fd)
         \<and> fd_body fd = [CallHook (EnterHook ''Expression'') (Var ''node''),
                          Match (Var ''node'') arms,
                          CallHook (ExitHook ''Expression'') (Var ''node'')]
         \<and> select_arm arms ''BinaryExpression''
             = Some (Some ''node'', Call (WalkFn ''BinaryExpression'') (Unbox (Var ''node''))))"
proof -
  define var where "var = mk_variant ''StaticMemberExpression'' [] ''StaticMemberExpression''"
  define bin where "bin = mk_variant ''BinaryExpression'' [''Box''] ''BinaryExpression''"
  have get: "types_get ex_overlap ''MemberExpression''
      = Some (Enum ''MemberExpression'' True
                [mk_variant ''StaticMemberExpression'' [''Box''] ''StaticMemberExpression''] [])"
    by code_simp
  have inh: "inherits_variant ex_overlap ''MemberExpression'' ''StaticMemberExpression''"
    by (rule inherits_variant.own[OF get]) (simp add: mk_variant_def)
  have hd: "hd ex_overlap = Enum ''SimpleAssignmentTarget'' True [var] [''MemberExpression'']"
    unfolding var_def by code_simp
  have ok: "generateWalkForEnum (Enum ''SimpleAssignmentTarget'' True [var] [''MemberExpression''])
              ex_overlap \<noteq> None"
    "\<not> isl (the (generateWalkForEnum
              (Enum ''SimpleAssignmentTarget'' True [var] [''MemberExpression'']) ex_overlap))"
    unfolding var_def by code_simp+
  then obtain fd where fd:
    "generateWalkForEnum (Enum ''SimpleAssignmentTarget'' True [var] [''MemberExpression''])
       ex_overlap = Some (Inr fd)"
    by (cases "generateWalkForEnum
          (Enum ''SimpleAssignmentTarget'' True [var] [''MemberExpression'']) ex_overlap";
        cases "the (generateWalkForEnum
          (Enum ''SimpleAssignmentTarget'' True [var] [''MemberExpression'']) ex_overlap)")
       auto
  have f: "find (\<lambda>x. v_name x = ''StaticMemberExpression'') [var] = Some var"
    unfolding var_def by code_simp
  have vt: "inner (v_type var) = ''StaticMemberExpression''" "wrappers (v_type var) \<noteq> [''Box'']"
    unfolding var_def by code_simp+
  have e2: "ex_types ! 2 = Enum ''Expression'' True
       [mk_variant ''NumericLiteral'' [''Box''] ''NumericLiteral'', bin] [''MemberExpression'']"
    unfolding bin_def by code_simp
  have ok2: "generateWalkForEnum (Enum ''Expression'' True
       [mk_variant ''NumericLiteral'' [''Box''] ''NumericLiteral'', bin] [''MemberExpression''])
          ex_types \<noteq> None"
    "\<not> isl (the (generateWalkForEnum (Enum ''Expression'' True
       [mk_variant ''NumericLiteral'' [''Box''] ''NumericLiteral'', bin] [''MemberExpression''])
          ex_types))"
    unfolding bin_def by code_simp+
  then obtain fd2 where fd2:
    "generateWalkForEnum (Enum ''Expression'' True
       [mk_variant ''NumericLiteral'' [''Box''] ''NumericLiteral'', bin] [''MemberExpression''])
          ex_types = Some (Inr fd2)"
    by (cases "generateWalkForEnum (Enum ''Expression'' True
       [mk_variant ''NumericLiteral'' [''Box''] ''NumericLiteral'', bin] [''MemberExpression''])
          ex_types";
        cases "the (generateWalkForEnum (Enum ''Expression'' True
       [mk_variant ''NumericLiteral'' [''Box''] ''NumericLiteral'', bin] [''MemberExpression''])
          ex_types)")
       auto
  have f2: "find (\<lambda>x. v_name x = ''BinaryExpression'')
       [mk_variant ''NumericLiteral'' [''Box''] ''NumericLiteral'', bin] = Some bin"
    unfolding bin_def by code_simp
  have vt2: "inner (v_type bin) = ''BinaryExpression''" "wrappers (v_type bin) = [''Box'']"
    unfolding bin_def by code_simp+
  from own_variant_dispatch[OF fd f]
  have a: "\<exists>arms. fd_body fd = [CallHook (EnterHook ''SimpleAssignmentTarget'') (Var ''node''),
                          Match (Var ''node'') arms,
                          CallHook (ExitHook ''SimpleAssignmentTarget'') (Var ''node'')]
         \<and> select_arm arms ''StaticMemberExpression''
             = Some (Some ''node'', Call (WalkFn ''StaticMemberExpression'') (Var ''node''))"
    by (auto simp: vt)
  from own_variant_dispatch[OF fd2 f2]
  have b: "\<exists>arms. fd_body fd2 = [CallHook (EnterHook ''Expression'') (Var ''node''),
                          Match (Var ''node'') arms,
                          CallHook (ExitHook ''Expression'') (Var ''node'')]
         \<and> select_arm arms ''BinaryExpression''
             = Some (Some ''node'', Call (WalkFn ''BinaryExpression'') (Unbox (Var ''node'')))"
    by (auto simp: vt2)
  show ?thesis
    unfolding hd e2 using inh fd fd2 a b by blast
qed

text \<open>
  C4. In a generated program, the walk function of an enum with inherited enums takes, for
  a value whose variant is not among the enum's own but belongs to an enum it inherits
  from, directly or through other enums, the arm of a directly inherited enum \<open>B\<close> to
  which the variant belongs: a call of the walk function of \<open>B\<close> on the same value, not a
  dispatch error. From there the walk functions of the base enums lead to the walk function
  of an enum \<open>D\<close> that lists the variant itself.
\<close>

theorem inherited_variant_dispatch:
  assumes "generateWalkFunctionsCode types = Some (Inr fns)"
    and "distinct (map t_name types)"
    and "Enum name l vs inh \<in> set types"
    and "v \<notin> set (map v_name vs)"
    and "b \<in> set inh" and "inherits_variant types b v"
  shows "\<exists>fd arms B D.
           find (\<lambda>fd. fd_name fd = WalkFn name) fns = Some fd
         \<and> fd_body fd = [CallHook (EnterHook name) (Var ''node''),
                          Match (Var ''node'') arms,
                          CallHook (ExitHook name) (Var ''node'')]
         \<and> select_arm arms v = Some (None, Call (WalkFn B) (Var ''node''))
         \<and> (\<forall>n P vis s payload.
               read_expr (p_ancestor P) (env s) (Var ''node'') = Some (VEnum v payload) \<longrightarrow>
               exec (Suc n) P vis (Match (Var ''node'') arms) s
                 = exec n P vis (Call (WalkFn B) (Var ''node'')) s)
         \<and> B \<in> set inh \<and> inherits_variant types B v
         \<and> dispatches_to fns B v D \<and> declares types D v"
proof -
  from assms(1) obtain ms where
    fns: "fns = ms @ [walk_statements]" and all: "list_all2 (generatedFor types) types ms"
    by (rule generated_program)
  from find_generated[OF all assms(2,3), of "[walk_statements]"] fns
  obtain fd where
    find: "find (\<lambda>fd. fd_name fd = WalkFn name) fns = Some fd"
    and fd: "generateWalkForEnum (Enum name l vs inh) types = Some (Inr fd)"
    by (auto simp: generatedFor_def)
  from fd obtain codes where
    codes: "inheritedCodes types name inh [] = Some (codes, [])"
    and body: "fd_body fd = [CallHook (EnterHook name) (Var ''node''),
                      Match (Var ''node'') (map (ownArm name) vs @ codes),
                      CallHook (ExitHook name) (Var ''node'')]"
    by (elim generateWalkForEnum_body) simp
  from assms(4) have none: "find (\<lambda>x. v_name x = v) vs = None"
    by (auto simp: find_None_iff)
  from inheritedCodes_arms[OF codes]
  have "list_all2 (inheritedArm types name) inh codes" by simp
  from select_arm_inherited[OF this] assms(5,6)
  obtain B where B: "B \<in> set inh"
    and sel0: "select_arm codes v = Some (None, Call (WalkFn B) (Var ''node''))"
    and Bv: "inherits_variant types B v"
    by blast
  from sel0 none have sel: "select_arm (map (ownArm name) vs @ codes) v
      = Some (None, Call (WalkFn B) (Var ''node''))"
    by (simp add: select_arm_own)
  from Bv have "is_enum types B"
    using inherits_variant_other by blast
  then obtain n' l' vs' inh' where get: "types_get types B = Some (Enum n' l' vs' inh')"
    by (auto simp: is_enum_iff)
  from types_get_Some[OF get] have mem: "Enum n' l' vs' inh' \<in> set types" and n': "n' = B"
    by auto
  from find_generated[OF all assms(2) mem, of "[]"] n'
  obtain fd' where "generateWalkForEnum (Enum B l' vs' inh') types = Some (Inr fd')"
    by (auto simp: generatedFor_def)
  from generated_enum_size[OF this] get n' obtain k where "inh_size types B k"
    by auto
  from dispatch_chain[OF assms(1,2) this Bv] obtain D where
    D: "dispatches_to fns B v D" "declares types D v" by blast
  have run: "exec (Suc n) P vis (Match (Var ''node'') (map (ownArm name) vs @ codes)) s
                 = exec n P vis (Call (WalkFn B) (Var ''node'')) s"
    if "read_expr (p_ancestor P) (env s) (Var ''node'') = Some (VEnum v payload)"
    for n P vis s payload
    using that sel by simp
  from find body sel run B Bv D show ?thesis by blast
qed

theorem inherited_variant_dispatch_witness:
  "\<exists>fns fd arms.
       generateWalkFunctionsCode ex_types = Some (Inr fns)
     \<and> find (\<lambda>fd. fd_name fd = WalkFn ''Expression'') fns = Some fd
     \<and> fd_body fd = [CallHook (EnterHook ''Expression'') (Var ''node''),
                      Match (Var ''node'') arms,
                      CallHook (ExitHook ''Expression'') (Var ''node'')]
     \<and> select_arm arms ''StaticMemberExpression''
         = Some (None, Call (WalkFn ''MemberExpression'') (Var ''node''))
     \<and> dispatches_to fns ''MemberExpression'' ''StaticMemberExpression'' ''MemberExpression''"
proof -
  have ok: "generateWalkFunctionsCode ex_types \<noteq> None"
    "\<not> isl (the (generateWalkFunctionsCode ex_types))"
    by code_simp+
  then obtain fns where fns: "generateWalkFunctionsCode ex_types = Some (Inr fns)"
    by (cases "generateWalkFunctionsCode ex_types";
        cases "the (generateWalkFunctionsCode ex_types)") auto
  have dist: "distinct (map t_name ex_types)" by code_simp
  have mem: "Enum ''Expression'' True
       [mk_variant ''NumericLiteral'' [''Box''] ''NumericLiteral'',
        mk_variant ''BinaryExpression'' [''Box''] ''BinaryExpression'']
       [''MemberExpression''] \<in> set ex_types"
    by code_simp
  have notown: "''StaticMemberExpression'' \<notin> set (map v_name
       [mk_variant ''NumericLiteral'' [''Box''] ''NumericLiteral'',
        mk_variant ''BinaryExpression'' [''Box''] ''BinaryExpression''])"
    by code_simp
  have get: "types_get ex_types ''MemberExpression''
      = Some (Enum ''MemberExpression'' True
                [mk_variant ''StaticMemberExpression'' [''Box''] ''StaticMemberExpression''] [])"
    by code_simp
  have inh: "inherits_variant ex_types ''MemberExpression'' ''StaticMemberExpression''"
    by (rule inherits_variant.own[OF get]) (simp add: mk_variant_def)
  have decl: "declares ex_types D ''StaticMemberExpression'' \<Longrightarrow> D = ''MemberExpression''" for D
    by (simp add: declares_def types_get_def ex_types_def ex_binary_def ex_literal_def
        ex_expression_def ex_member_def ex_static_member_def ex_return_def ex_body_def
        ex_statement_def mk_variant_def split: if_splits)
  from inherited_variant_dispatch[OF fns dist mem notown _ inh]
  obtain fd arms B D where
    "find (\<lambda>fd. fd_name fd = WalkFn ''Expression'') fns = Some fd"
    "fd_body fd = [CallHook (EnterHook ''Expression'') (Var ''node''),
                   Match (Var ''node'') arms,
                   CallHook (ExitHook ''Expression'') (Var ''node'')]"
    "select_arm arms ''StaticMemberExpression'' = Some (None, Call (WalkFn B) (Var ''node''))"
    "B \<in> set [''MemberExpression'']"
    "dispatches_to fns B ''StaticMemberExpression'' D"
    "declares ex_types D ''StaticMemberExpression''"
    by auto
  with decl[of D] fns show ?thesis by auto
qed

subsection \<open>Catalogues the generator rejects\<close>

lemma fieldCodeFor_supported:
  assumes "fieldCodeFor f k = Inr code"
  shows "wrappers (f_type f) \<in> supportedWrappers"
proof (cases "wrappers (f_type f)")
  case Nil
  then show ?thesis by (simp add: supportedWrappers_def)
next
  case (Cons w ws)
  with assms show ?thesis
    unfolding fieldCodeFor_def typeAndWrappers_def Let_def supportedWrappers_def
    by (cases ws) (auto split: if_splits)
qed

lemma fieldCodeFor_error:
  "fieldCodeFor f k = Inl e \<Longrightarrow> e = CannotHandleStructField (f_type f)"
  unfolding fieldCodeFor_def typeAndWrappers_def Let_def
  by (auto split: if_splits)

lemma fieldsCodesFrom_error:
  "fieldsCodesFrom fs k = Inl e \<Longrightarrow> \<exists>f \<in> set fs. e = CannotHandleStructField (f_type f)"
proof (induction fs arbitrary: k)
  case Nil
  then show ?case by simp
next
  case (Cons f fs)
  then show ?case
    by (auto split: sum.splits dest: fieldCodeFor_error)
qed

lemma variantCodesFrom_error:
  "variantCodesFrom types name vs = Inl e \<Longrightarrow> \<exists>ty. e = CannotHandleEnumVariant ty"
proof (induction vs)
  case Nil
  then show ?case by simp
next
  case (Cons var vs)
  then show ?case
    by (auto simp: variantCodeFor_def typeAndWrappers_def Let_def split: sum.splits if_splits)
qed

lemma walkMethodsFrom_error:
  "walkMethodsFrom types ts = Some (Inl e) \<Longrightarrow> e \<noteq> TypeError"
proof (induction ts)
  case Nil
  then show ?case by simp
next
  case (Cons t ts)
  show ?case
  proof (cases t)
    case (Struct n l fs)
    with Cons show ?thesis
      by (auto simp: Let_def split: sum.splits option.splits dest: fieldsCodesFrom_error)
  next
    case (Enum n l vs inh)
    with Cons show ?thesis
      by (auto split: sum.splits option.splits if_splits prod.splits
          dest: variantCodesFrom_error)
  qed
qed

lemma generated_all:
  assumes "list_all2 (generatedFor types) ts fns" and "t \<in> set ts"
  shows "\<exists>fd. generatedFor types t fd"
  using assms by (auto simp: in_set_conv_nth list_all2_conv_all_nth)

text \<open>
  C6 as amended. When a struct of the catalogue has a descendable field (one whose
  unwrapped type is catalogued) with a wrapper chain the generator has no branch for, or an
  enum of the catalogue inherits from a name that is not an enum of the catalogue, the
  generator never returns code: if it returns, it returns a failed assertion, and it does
  return when the inheritance between the enums has no cycle.
\<close>

theorem unsupported_catalogue_fails:
  assumes "(\<exists>n l fs field. Struct n l fs \<in> set types
              \<and> field \<in> set (visitedFieldsOf types fs)
              \<and> wrappers (f_type field) \<notin> supportedWrappers)
         \<or> (\<exists>n l vs inh b. Enum n l vs inh \<in> set types \<and> b \<in> set inh \<and> \<not> is_enum types b)"
  shows "(\<forall>fns. generateWalkFunctionsCode types \<noteq> Some (Inr fns))
       \<and> (acyclic_inherits types \<longrightarrow>
            (\<exists>e. generateWalkFunctionsCode types = Some (Inl e) \<and> e \<noteq> TypeError))"
proof -
  have no: "generateWalkFunctionsCode types \<noteq> Some (Inr fns)" for fns
  proof
    assume "generateWalkFunctionsCode types = Some (Inr fns)"
    then obtain ms where all: "list_all2 (generatedFor types) types ms"
      by (rule generated_program)
    from assms show False
    proof (elim disjE exE conjE)
      fix n l fs field
      assume mem: "Struct n l fs \<in> set types"
        and field: "field \<in> set (visitedFieldsOf types fs)"
        and bad: "wrappers (f_type field) \<notin> supportedWrappers"
      from generated_all[OF all mem] obtain fd where
        "generateWalkForStruct (Struct n l fs) types = Inr fd"
        by (auto simp: generatedFor_def)
      then obtain codes where
        codes: "fieldsCodesFrom (visitedFieldsOf types fs) 0 = Inr codes"
        by (rule generateWalkForStruct_body)
      from field obtain k where "k < length (visitedFieldsOf types fs)"
        "visitedFieldsOf types fs ! k = field"
        by (auto simp: in_set_conv_nth)
      with fieldsCodesFrom_nth[OF codes] have "fieldCodeFor field k = Inr (codes ! k)"
        by auto
      from fieldCodeFor_supported[OF this] bad show False by simp
    next
      fix n l vs inh b
      assume mem: "Enum n l vs inh \<in> set types" and b: "b \<in> set inh"
        and miss: "\<not> is_enum types b"
      from generated_all[OF all mem] obtain fd where
        "generateWalkForEnum (Enum n l vs inh) types = Some (Inr fd)"
        by (auto simp: generatedFor_def)
      then obtain codes where "inheritedCodes types n inh [] = Some (codes, [])"
        by (rule generateWalkForEnum_body)
      from inheritedCodes_arms[OF this] b
      have "\<not> missing_base types b b" by auto
      with miss show False by (auto intro: missing_base.here)
    qed
  qed
  have yes: "\<exists>e. generateWalkFunctionsCode types = Some (Inl e) \<and> e \<noteq> TypeError"
    if "acyclic_inherits types"
  proof -
    from acyclic_walkMethodsFrom[OF that, of types] obtain y where
      y: "walkMethodsFrom types types = Some y" by blast
    show ?thesis
    proof (cases y)
      case (Inl e)
      with y walkMethodsFrom_error[of types types e] show ?thesis
        by (simp add: generateWalkFunctionsCode_def)
    next
      case (Inr ms)
      with y have "generateWalkFunctionsCode types = Some (Inr (ms @ [walk_statements]))"
        by (simp add: generateWalkFunctionsCode_def)
      with no show ?thesis by blast
    qed
  qed
  from no yes show ?thesis by blast
qed

theorem unsupported_catalogue_fails_witness:
  "(\<exists>e. generateWalkFunctionsCode ex_vec_box = Some (Inl e) \<and> e \<noteq> TypeError)
   \<and> (\<exists>e. generateWalkFunctionsCode ex_missing = Some (Inl e) \<and> e \<noteq> TypeError)"
proof -
  define fs where "fs = fieldsOf (hd ex_vec_box)"
  have s1: "Struct ''TemplateLiteral'' True fs \<in> set ex_vec_box"
    unfolding fs_def by code_simp
  have f1: "fs ! 1 \<in> set (visitedFieldsOf ex_vec_box fs)"
    "wrappers (f_type (fs ! 1)) \<notin> supportedWrappers"
    unfolding fs_def by code_simp+
  have noenum: "types_get ex_vec_box B \<noteq> Some (Enum n l vs inh)" for B n l vs inh
    by (simp add: types_get_def ex_vec_box_def ex_literal_def)
  then have a1: "acyclic_inherits ex_vec_box"
    by (simp add: acyclic_inherits_def)
  have s2: "Enum ''Declaration'' True [] [''ClassElement''] \<in> set ex_missing"
    by code_simp
  have m2: "''ClassElement'' \<in> set [''ClassElement'']" "\<not> is_enum ex_missing ''ClassElement''"
    by code_simp+
  have a2: "acyclic_inherits ex_missing"
    unfolding acyclic_inherits_def
    by (rule exI[of _ "\<lambda>b. if b = ''Declaration'' then 1 else (0::nat)"])
       (auto simp: types_get_def ex_missing_def split: if_splits)
  from unsupported_catalogue_fails[of ex_vec_box] s1 f1 a1
  have r1: "\<exists>e. generateWalkFunctionsCode ex_vec_box = Some (Inl e) \<and> e \<noteq> TypeError"
    by blast
  from unsupported_catalogue_fails[of ex_missing] s2 m2 a2
  have r2: "\<exists>e. generateWalkFunctionsCode ex_missing = Some (Inl e) \<and> e \<noteq> TypeError"
    by blast
  from r1 r2 show ?thesis by blast
qed

text \<open>The claim C6 as stated fails: a field under wrappers the generator has no branch for
  is passed over without an error when its unwrapped type is not catalogued.\<close>

theorem terminal_field_skipped:
  "f_type (hd (fieldsOf (hd ex_cell))) = RustType [''Cell'', ''Option''] ''ReferenceId''
   \<and> [''Cell'', ''Option''] \<notin> supportedWrappers
   \<and> generateWalkFunctionsCode ex_cell
       = Some (Inr [\<lparr>fd_name = WalkFn ''IdentifierReference'', fd_param = ''node'',
                      fd_body = [CallHook (EnterHook ''IdentifierReference'') (Var ''node''),
                                 CallHook (ExitHook ''IdentifierReference'') (Var ''node'')]\<rparr>,
                    walk_statements])"
  by code_simp

subsection \<open>Accessors of an ancestor tag\<close>


lemma enumerate_filter_map:
  "map (\<lambda>(j, f). h j f) (filter (\<lambda>(j, f). P j f) (enumerate k xs))
   = map (\<lambda>j. h j (xs ! (j - k))) (filter (\<lambda>j. P j (xs ! (j - k))) [k..<k + length xs])"
proof (induction xs arbitrary: k)
  case Nil
  show ?case by simp
next
  case (Cons x xs)
  define ks where "ks = [Suc k..<Suc k + length xs]"
  have "[k..<Suc (k + length xs)] = k # [Suc k..<Suc (k + length xs)]"
    by (rule upt_conv_Cons) simp
  then have up: "[k..<k + length (x # xs)] = k # ks"
    by (simp add: ks_def)
  have nth: "(x # xs) ! (j - k) = xs ! (j - Suc k)" if "j \<in> set ks" for j
  proof -
    from that have "j - k = Suc (j - Suc k)" by (auto simp: ks_def)
    then show ?thesis by simp
  qed
  have f: "filter (\<lambda>j. P j ((x # xs) ! (j - k))) ks
       = filter (\<lambda>j. P j (xs ! (j - Suc k))) ks"
    by (rule filter_cong[OF refl]) (simp add: nth)
  have m: "map (\<lambda>j. h j ((x # xs) ! (j - k))) (filter (\<lambda>j. P j (xs ! (j - Suc k))) ks)
       = map (\<lambda>j. h j (xs ! (j - Suc k))) (filter (\<lambda>j. P j (xs ! (j - Suc k))) ks)"
    by (rule map_cong[OF refl]) (simp add: nth)
  have IH: "map (\<lambda>(j, f). h j f) (filter (\<lambda>(j, f). P j f) (enumerate (Suc k) xs))
      = map (\<lambda>j. h j (xs ! (j - Suc k))) (filter (\<lambda>j. P j (xs ! (j - Suc k))) ks)"
    unfolding ks_def by (rule Cons.IH)
  show ?case
    unfolding up using IH by (simp add: f m)
qed

lemma methodsCode_offsets:
  "methodsCode (map (\<lambda>f. f\<lparr>offsetVarName := Some (OFFSET n (f_name f))\<rparr>) fs) g
   = map (accessorFor n fs) (filter (\<lambda>i. i \<noteq> g) [0..<length fs])"
proof -
  let ?fs1 = "map (\<lambda>f. f\<lparr>offsetVarName := Some (OFFSET n (f_name f))\<rparr>) fs"
  have "methodsCode ?fs1 g
      = map (\<lambda>j. \<lparr>a_name = f_rawName (?fs1 ! (j - 0)), a_offset = offsetVarName (?fs1 ! (j - 0)),
                  a_type = f_rawTypeName (?fs1 ! (j - 0))\<rparr>)
          (filter (\<lambda>j. j \<noteq> g) [0..<0 + length ?fs1])"
    unfolding methodsCode_def
    using enumerate_filter_map[of "\<lambda>j f. \<lparr>a_name = f_rawName f, a_offset = offsetVarName f,
             a_type = f_rawTypeName f\<rparr>" "\<lambda>j f. j \<noteq> g" 0 ?fs1]
    by simp
  also have "\<dots> = map (accessorFor n fs) (filter (\<lambda>i. i \<noteq> g) [0..<length fs])"
    by (rule map_cong) (auto simp: accessorFor_def)
  finally show ?thesis .
qed

lemma ancestorFields_items:
  "fst (ancestorFields types T fs i rest d)
   = map (\<lambda>(j, f). AncestorStruct (Without T (f_name f)) T (methodsCode fs j))
       (filter (\<lambda>(j, f). types_get types (innerTypeName f) \<noteq> None) (enumerate i rest))"
proof (induction rest arbitrary: i d)
  case Nil
  show ?case by simp
next
  case (Cons f rest)
  show ?case
  proof (cases "types_get types (innerTypeName f)")
    case None
    obtain a b c e where r: "ancestorFields types T fs (Suc i) rest d = (a, b, c, e)"
      by (cases "ancestorFields types T fs (Suc i) rest d") auto
    from Cons.IH[of "Suc i" d] r None show ?thesis by simp
  next
    case (Some ft)
    obtain a b c e where r: "ancestorFields types T fs (Suc i) rest (Suc d) = (a, b, c, e)"
      by (cases "ancestorFields types T fs (Suc i) rest (Suc d)") auto
    from Cons.IH[of "Suc i" "Suc d"] r Some show ?thesis by (simp add: Let_def)
  qed
qed

lemma ancestorTypesLoop_items:
  "fst (ancestorTypesLoop types ts d) = concat (map (itemsOf types) ts)"
proof (induction types ts d rule: ancestorTypesLoop.induct)
  case (1 types d)
  show ?case by simp
next
  case (2 types n l vs inh rest d)
  obtain a b c e where r: "ancestorTypesLoop types rest d = (a, b, c, e)"
    by (cases "ancestorTypesLoop types rest d") auto
  have "itemsOf types (Enum n l vs inh) = []" by (simp add: itemsOf_def)
  with "2.IH" r show ?case by simp
next
  case (3 types n l fs rest d)
  let ?fs1 = "map (\<lambda>f. f\<lparr>offsetVarName := Some (OFFSET n (f_name f))\<rparr>) fs"
  obtain structs avs1 fs2 d1 where
    a: "ancestorFields types n ?fs1 0 ?fs1 d = (structs, avs1, fs2, d1)"
    by (cases "ancestorFields types n ?fs1 0 ?fs1 d") auto
  obtain it avs2 r d2 where
    b: "ancestorTypesLoop types rest d1 = (it, avs2, r, d2)"
    by (cases "ancestorTypesLoop types rest d1") auto
  from "3.IH"[OF refl refl a[symmetric] refl refl refl] b
  have it: "it = concat (map (itemsOf types) rest)" by simp
  have "structs = fst (ancestorFields types n ?fs1 0 ?fs1 d)" using a by simp
  also have "\<dots> = map (\<lambda>(j, f). AncestorStruct (Without n (f_name f)) n (methodsCode ?fs1 j))
       (filter (\<lambda>(j, f). types_get types (innerTypeName f) \<noteq> None) (enumerate 0 ?fs1))"
    by (rule ancestorFields_items)
  also have "\<dots> = map (\<lambda>j. AncestorStruct (Without n (f_name (?fs1 ! (j - 0)))) n (methodsCode ?fs1 j))
       (filter (\<lambda>j. types_get types (innerTypeName (?fs1 ! (j - 0))) \<noteq> None)
          [0..<0 + length ?fs1])"
    using enumerate_filter_map[of "\<lambda>j f. AncestorStruct (Without n (f_name f)) n (methodsCode ?fs1 j)"
        "\<lambda>j f. types_get types (innerTypeName f) \<noteq> None" 0 ?fs1]
    by simp
  also have "\<dots> = map (\<lambda>j. AncestorStruct (Without n (f_name (fs ! j))) n
                       (map (accessorFor n fs) (filter (\<lambda>i. i \<noteq> j) [0..<length fs])))
              (filter (\<lambda>j. types_get types (innerTypeName (fs ! j)) \<noteq> None) [0..<length fs])"
  proof -
    have f: "filter (\<lambda>j. types_get types (innerTypeName (?fs1 ! (j - 0))) \<noteq> None)
          [0..<0 + length ?fs1]
        = filter (\<lambda>j. types_get types (innerTypeName (fs ! j)) \<noteq> None) [0..<length fs]"
      by (rule filter_cong) (auto simp: innerTypeName_def)
    show ?thesis
      unfolding f by (rule map_cong[OF refl]) (auto simp: methodsCode_offsets)
  qed
  finally have structs: "structs = map (\<lambda>j. AncestorStruct (Without n (f_name (fs ! j))) n
                       (map (accessorFor n fs) (filter (\<lambda>i. i \<noteq> j) [0..<length fs])))
              (filter (\<lambda>j. types_get types (innerTypeName (fs ! j)) \<noteq> None) [0..<length fs])" .
  have here: "itemsOf types (Struct n l fs)
      = map (\<lambda>f. OffsetConst (OFFSET n (f_name f)) n (f_rawName f)) fs @ structs"
    unfolding structs by (simp add: itemsOf_def)
  have "fst (ancestorTypesLoop types (Struct n l fs # rest) d)
      = map (\<lambda>f. OffsetConst (OFFSET n (f_name f)) n (f_rawName f)) fs @ structs @ it"
    using a b by (simp add: Let_def)
  with here it show ?case by simp
qed


lemma find_concat_none:
  "(\<And>t x. t \<in> set ts \<Longrightarrow> x \<in> set (F t) \<Longrightarrow> \<not> P x) \<Longrightarrow> find P (concat (map F ts)) = None"
  by (auto simp: find_None_iff)

lemma find_append_left:
  "find P (xs @ ys) = (case find P xs of None \<Rightarrow> find P ys | Some x \<Rightarrow> Some x)"
  by (induction xs) auto

lemma find_concat_unique:
  assumes "t \<in> set ts"
    and "\<And>t' x. t' \<in> set ts \<Longrightarrow> t' \<noteq> t \<Longrightarrow> x \<in> set (F t') \<Longrightarrow> \<not> P x"
  shows "find P (concat (map F ts)) = find P (F t)"
  using assms
proof (induction ts)
  case Nil
  then show ?case by simp
next
  case (Cons a ts)
  show ?case
  proof (cases "a = t")
    case True
    show ?thesis
    proof (cases "find P (F t)")
      case (Some x)
      with True show ?thesis by (simp add: find_append_left)
    next
      case None
      have "find P (concat (map F ts)) = None"
      proof (cases "t \<in> set ts")
        case True
        have "find P (concat (map F ts)) = find P (F t)"
          by (rule Cons.IH[OF True]) (use Cons.prems(2) in auto)
        with None show ?thesis by simp
      next
        case False
        show ?thesis
        proof (rule find_concat_none)
          fix t' x assume "t' \<in> set ts" "x \<in> set (F t')"
          with False Cons.prems(2)[of t' x] show "\<not> P x" by auto
        qed
      qed
      with True None show ?thesis by (simp add: find_append_left)
    qed
  next
    case False
    with Cons.prems(1) have mem: "t \<in> set ts" by simp
    from False Cons.prems(2)[of a] have "find P (F a) = None"
      by (auto simp: find_None_iff)
    moreover have "find P (concat (map F ts)) = find P (F t)"
      by (rule Cons.IH[OF mem]) (use Cons.prems(2) in auto)
    ultimately show ?thesis by (simp add: find_append_left)
  qed
qed

lemma find_map_unique:
  assumes "g \<in> set js" and "P (S g)" and "\<And>j. j \<in> set js \<Longrightarrow> P (S j) \<Longrightarrow> j = g"
  shows "find P (map S js) = Some (S g)"
  using assms
proof (induction js)
  case Nil
  then show ?case by simp
next
  case (Cons j js)
  show ?case
  proof (cases "P (S j)")
    case True
    with Cons.prems(3)[of j] show ?thesis by simp
  next
    case False
    with Cons.prems(1,2) have "g \<in> set js" by auto
    from Cons.IH[OF this Cons.prems(2)] Cons.prems(3) False show ?thesis by simp
  qed
qed

lemma distinct_names_other:
  assumes "distinct (map t_name types)" and "t \<in> set types" and "t' \<in> set types" and "t' \<noteq> t"
  shows "t_name t' \<noteq> t_name t"
  using assms by (metis distinct_map inj_onD)

lemma itemsOf_struct_names:
  assumes "x \<in> set (itemsOf types t)"
  shows "case x of OffsetConst (OFFSET T f) T' r \<Rightarrow> T = t_name t
                 | AncestorStruct (Without T f) T' ms \<Rightarrow> T = t_name t"
  using assms by (cases t) (auto simp: itemsOf_def)

lemma ancestorTypes_items:
  "ancestorTypes (fst (generateAncestorsCode types)) = concat (map (itemsOf types) types)"
proof -
  obtain a b c d where r: "ancestorTypesLoop types types 1 = (a, b, c, d)"
    by (cases "ancestorTypesLoop types types 1") auto
  from ancestorTypesLoop_items[of types types 1] r
  have "a = concat (map (itemsOf types) types)" by simp
  with r show ?thesis
    using r by (simp add: generateAncestorsCode_def del: One_nat_def)
qed

lemma accessorsOf_tag:
  assumes dist: "distinct (map t_name types)" and mem: "Struct n l fs \<in> set types"
    and names: "distinct (map f_name fs)" and g: "g < length fs"
    and desc: "types_get types (innerTypeName (fs ! g)) \<noteq> None"
  shows "accessorsOf (fst (generateAncestorsCode types)) (Without n (f_name (fs ! g)))
         = Some (map (accessorFor n fs) (filter (\<lambda>i. i \<noteq> g) [0..<length fs]))"
proof -
  let ?P = "\<lambda>item. case item of AncestorStruct sn' T ms \<Rightarrow> sn' = Without n (f_name (fs ! g))
                                 | _ \<Rightarrow> False"
  let ?S = "\<lambda>j. AncestorStruct (Without n (f_name (fs ! j))) n
                       (map (accessorFor n fs) (filter (\<lambda>i. i \<noteq> j) [0..<length fs]))"
  let ?js = "filter (\<lambda>j. types_get types (innerTypeName (fs ! j)) \<noteq> None) [0..<length fs]"
  have other: "\<not> ?P x" if "t' \<in> set types" "t' \<noteq> Struct n l fs" "x \<in> set (itemsOf types t')"
    for t' x
  proof -
    from distinct_names_other[OF dist mem that(1,2)] have "t_name t' \<noteq> n" by simp
    with itemsOf_struct_names[OF that(3)] show ?thesis
      by (auto split: ancestor_item.splits struct_name.splits)
  qed
  have "find ?P (concat (map (itemsOf types) types)) = find ?P (itemsOf types (Struct n l fs))"
    by (rule find_concat_unique[OF mem]) (use other in blast)
  also have "\<dots> = find ?P (map ?S ?js)"
    by (simp add: itemsOf_def find_append_left find_None_iff[THEN iffD2])
  also have "\<dots> = Some (?S g)"
  proof (rule find_map_unique)
    show "g \<in> set ?js" using g desc by simp
    show "?P (?S g)" by simp
    fix j assume "j \<in> set ?js" "?P (?S j)"
    then have "j < length fs" "f_name (fs ! j) = f_name (fs ! g)" by auto
    with names g show "j = g"
      by (metis distinct_conv_nth length_map nth_map)
  qed
  finally show ?thesis
    by (simp add: accessorsOf_def ancestorTypes_items)
qed

lemma offsetConst_field:
  assumes dist: "distinct (map t_name types)" and mem: "Struct n l fs \<in> set types"
    and names: "distinct (map f_name fs)" and j: "j < length fs"
  shows "offsetConst (fst (generateAncestorsCode types)) (OFFSET n (f_name (fs ! j)))
         = Some (n, f_rawName (fs ! j))"
proof -
  let ?P = "\<lambda>item. case item of OffsetConst ov' T r \<Rightarrow> ov' = OFFSET n (f_name (fs ! j))
                                 | _ \<Rightarrow> False"
  let ?C = "\<lambda>i. OffsetConst (OFFSET n (f_name (fs ! i))) n (f_rawName (fs ! i))"
  have other: "\<not> ?P x" if "t' \<in> set types" "t' \<noteq> Struct n l fs" "x \<in> set (itemsOf types t')"
    for t' x
  proof -
    from distinct_names_other[OF dist mem that(1,2)] have "t_name t' \<noteq> n" by simp
    with itemsOf_struct_names[OF that(3)] show ?thesis
      by (auto split: ancestor_item.splits offset_var.splits)
  qed
  have cs_eq: "map (\<lambda>f. OffsetConst (OFFSET n (f_name f)) n (f_rawName f)) fs
      = map ?C [0..<length fs]"
    by (rule nth_equalityI) auto
  have here: "find ?P (map ?C [0..<length fs]) = Some (?C j)"
  proof (rule find_map_unique)
    show "j \<in> set [0..<length fs]" using j by simp
    show "?P (?C j)" by simp
    fix i assume "i \<in> set [0..<length fs]" "?P (?C i)"
    then have "i < length fs" "f_name (fs ! i) = f_name (fs ! j)" by auto
    with names j show "i = j"
      by (metis distinct_conv_nth length_map nth_map)
  qed
  have "find ?P (concat (map (itemsOf types) types)) = find ?P (itemsOf types (Struct n l fs))"
    by (rule find_concat_unique[OF mem]) (use other in blast)
  also have "\<dots> = Some (?C j)"
    using here by (simp add: itemsOf_def find_append_left cs_eq)
  finally show ?thesis
    by (simp add: offsetConst_def ancestorTypes_items)
qed


lemma ancestorFields_structs:
  "ancestorFields types T fs i rest d = (items, avs, rest', d')
   \<Longrightarrow> \<forall>av \<in> set avs. \<exists>f. av_name av = VariantName T f \<and> av_struct av = Without T f"
proof (induction rest arbitrary: i d items avs rest' d')
  case Nil
  then show ?case by simp
next
  case (Cons f rest)
  obtain a b c e where r: "ancestorFields types T fs (Suc i) rest d = (a, b, c, e)"
    by (cases "ancestorFields types T fs (Suc i) rest d") auto
  obtain a' b' c' e' where r': "ancestorFields types T fs (Suc i) rest (Suc d) = (a', b', c', e')"
    by (cases "ancestorFields types T fs (Suc i) rest (Suc d)") auto
  from Cons.prems r r' Cons.IH[OF r] Cons.IH[OF r'] show ?case
    by (cases "types_get types (innerTypeName f)") (auto simp: Let_def)
qed

lemma ancestorTypesLoop_structs:
  "ancestorTypesLoop types ts d = (items, avs, ts', d')
   \<Longrightarrow> \<forall>av \<in> set avs. \<exists>T f. av_name av = VariantName T f \<and> av_struct av = Without T f"
proof (induction types ts d arbitrary: items avs ts' d' rule: ancestorTypesLoop.induct)
  case (1 types d)
  then show ?case by simp
next
  case (2 types n l vs inh rest d)
  then show ?case by (auto split: prod.splits)
next
  case (3 types n l fs rest d)
  define fs1 where "fs1 = map (\<lambda>f. f\<lparr>offsetVarName := Some (OFFSET n (f_name f))\<rparr>) fs"
  obtain structs avs1 fs2 d1 where
    a: "ancestorFields types n fs1 0 fs1 d = (structs, avs1, fs2, d1)"
    by (cases "ancestorFields types n fs1 0 fs1 d") auto
  obtain it avs2 r d2 where
    b: "ancestorTypesLoop types rest d1 = (it, avs2, r, d2)"
    by (cases "ancestorTypesLoop types rest d1") auto
  from "3.prems" a b have eq: "avs = avs1 @ avs2"
    by (auto simp: fs1_def Let_def)
  from ancestorFields_structs[OF a] "3.IH"[OF fs1_def refl a[symmetric] refl refl refl b] eq
  show ?case by auto
qed

lemma ancestorTags_member:
  assumes "Struct n l fs \<in> set ts" and "g < length fs"
    and "types_get types (innerTypeName (fs ! g)) \<noteq> None"
  shows "VariantName n (f_name (fs ! g)) \<in> set (ancestorTags types ts)"
  using assms(1)
proof (induction ts)
  case Nil
  then show ?case by simp
next
  case (Cons t ts)
  show ?case
  proof (cases "t = Struct n l fs")
    case True
    from assms(2,3) have "VariantName n (f_name (fs ! g)) \<in> set (tagsOf types n fs)"
      by (auto simp: tagsOf_def)
    with True show ?thesis by simp
  next
    case False
    with Cons show ?thesis by (cases t) auto
  qed
qed

text \<open>
  C5. For a struct \<open>n\<close> of the catalogue and a field \<open>G\<close> of it whose unwrapped type is
  catalogued, the tag of \<open>(n, G)\<close> is a variant of the generated enum and names a struct
  whose methods are the accessors of the fields of \<open>n\<close> other than \<open>G\<close>, in declaration
  order, whatever their types; the accessor of a field \<open>F\<close> returns the address held by the
  entry plus \<^verbatim>\<open>offset_of!(n, F)\<close>; and the accessor of \<open>G\<close> itself is not among them.
\<close>

theorem accessor_addresses:
  assumes "distinct (map t_name types)" and "Struct n l fs \<in> set types"
    and "distinct (map f_name fs)" and "g < length fs"
    and "types_get types (innerTypeName (fs ! g)) \<noteq> None"
  shows "(\<exists>av \<in> set (enumVariants (fst (generateAncestorsCode types))).
            av_name av = VariantName n (f_name (fs ! g))
          \<and> av_struct av = Without n (f_name (fs ! g)))
       \<and> accessorsOf (fst (generateAncestorsCode types)) (Without n (f_name (fs ! g)))
           = Some (map (accessorFor n fs) (filter (\<lambda>j. j \<noteq> g) [0..<length fs]))
       \<and> (\<forall>j<length fs. j \<noteq> g \<longrightarrow>
             accessorAddress offset_of (fst (generateAncestorsCode types)) base
               (accessorFor n fs j) = Some (base + offset_of n (f_rawName (fs ! j))))
       \<and> accessorFor n fs g
           \<notin> set (map (accessorFor n fs) (filter (\<lambda>j. j \<noteq> g) [0..<length fs]))"
proof -
  obtain items avs ts d where
    loop: "ancestorTypesLoop types types 1 = (items, avs, ts, d)"
    by (cases "ancestorTypesLoop types types 1") auto
  then have ev: "enumVariants (fst (generateAncestorsCode types)) = avs"
    by (simp add: generateAncestorsCode_def del: One_nat_def)
  from ancestorTypesLoop_discriminants[OF loop]
  have names: "map av_name avs = ancestorTags types types" by simp
  from ancestorTags_member[OF assms(2,4,5)] names
  obtain av where av: "av \<in> set avs" "av_name av = VariantName n (f_name (fs ! g))"
    by (metis (no_types, lifting) imageE list.set_map)
  with ancestorTypesLoop_structs[OF loop] have "av_struct av = Without n (f_name (fs ! g))"
    by auto
  with av ev have tag: "\<exists>av \<in> set (enumVariants (fst (generateAncestorsCode types))).
            av_name av = VariantName n (f_name (fs ! g))
          \<and> av_struct av = Without n (f_name (fs ! g))"
    by blast
  have addr: "accessorAddress offset_of (fst (generateAncestorsCode types)) base
               (accessorFor n fs j) = Some (base + offset_of n (f_rawName (fs ! j)))"
    if "j < length fs" for j
    using offsetConst_field[OF assms(1,2,3) that]
    by (simp add: accessorAddress_def accessorFor_def)
  have notself: "accessorFor n fs g
           \<notin> set (map (accessorFor n fs) (filter (\<lambda>j. j \<noteq> g) [0..<length fs]))"
  proof
    assume "accessorFor n fs g
           \<in> set (map (accessorFor n fs) (filter (\<lambda>j. j \<noteq> g) [0..<length fs]))"
    then obtain j where j: "j < length fs" "j \<noteq> g" "accessorFor n fs j = accessorFor n fs g"
      by auto
    then have "f_name (fs ! j) = f_name (fs ! g)"
      by (simp add: accessorFor_def)
    with assms(3,4) j(1) have "j = g"
      by (metis distinct_conv_nth length_map nth_map)
    with j(2) show False by simp
  qed
  from tag accessorsOf_tag[OF assms] addr notself show ?thesis by blast
qed

theorem accessor_addresses_witness:
  "accessorsOf (fst (generateAncestorsCode ex_types)) (Without ''BinaryExpression'' ''left'')
     = Some [\<lparr>a_name = ''span'', a_offset = Some (OFFSET ''BinaryExpression'' ''span''),
              a_type = ''Span''\<rparr>,
             \<lparr>a_name = ''operator'', a_offset = Some (OFFSET ''BinaryExpression'' ''operator''),
              a_type = ''BinaryOperator''\<rparr>,
             \<lparr>a_name = ''right'', a_offset = Some (OFFSET ''BinaryExpression'' ''right''),
              a_type = ''Expression''\<rparr>]
   \<and> accessorAddress (\<lambda>T f. if f = ''right'' then 24 else 0)
        (fst (generateAncestorsCode ex_types)) 1000
        \<lparr>a_name = ''right'', a_offset = Some (OFFSET ''BinaryExpression'' ''right''),
          a_type = ''Expression''\<rparr> = Some 1024"
proof -
  define fs where "fs = fieldsOf ex_binary"
  have dist: "distinct (map t_name ex_types)" by code_simp
  have mem: "Struct ''BinaryExpression'' True fs \<in> set ex_types"
    unfolding fs_def by code_simp
  have names: "distinct (map f_name fs)" unfolding fs_def by code_simp
  have g: "1 < length fs" unfolding fs_def by code_simp
  have desc: "types_get ex_types (innerTypeName (fs ! 1)) \<noteq> None"
    unfolding fs_def by code_simp
  have left: "f_name (fs ! 1) = ''left''" unfolding fs_def by code_simp
  have ms: "map (accessorFor ''BinaryExpression'' fs) (filter (\<lambda>j. j \<noteq> 1) [0..<length fs])
      = [\<lparr>a_name = ''span'', a_offset = Some (OFFSET ''BinaryExpression'' ''span''),
              a_type = ''Span''\<rparr>,
             \<lparr>a_name = ''operator'', a_offset = Some (OFFSET ''BinaryExpression'' ''operator''),
              a_type = ''BinaryOperator''\<rparr>,
             \<lparr>a_name = ''right'', a_offset = Some (OFFSET ''BinaryExpression'' ''right''),
              a_type = ''Expression''\<rparr>]"
    unfolding fs_def by code_simp
  have r: "accessorFor ''BinaryExpression'' fs 3
      = \<lparr>a_name = ''right'', a_offset = Some (OFFSET ''BinaryExpression'' ''right''),
          a_type = ''Expression''\<rparr>"
    "f_rawName (fs ! 3) = ''right''" "3 < length fs"
    unfolding fs_def by code_simp+
  from accessor_addresses[OF dist mem names g desc,
      of "\<lambda>T f. if f = ''right'' then 24 else 0" 1000] r
  have "accessorsOf (fst (generateAncestorsCode ex_types))
          (Without ''BinaryExpression'' (f_name (fs ! 1)))
        = Some (map (accessorFor ''BinaryExpression'' fs) (filter (\<lambda>j. j \<noteq> 1) [0..<length fs]))"
    and "accessorAddress (\<lambda>T f. if f = ''right'' then 24 else 0)
        (fst (generateAncestorsCode ex_types)) 1000
        (accessorFor ''BinaryExpression'' fs 3) = Some 1024"
    by auto
  then show ?thesis
    by (simp only: left ms r)
qed

subsection \<open>A walk with the default visitor leaves the tree as it is\<close>

lemma update_same: "map_of al k = Some v \<Longrightarrow> AList.update k v al = al"
  by (induction al) auto

lemma write_read_same:
  "read_expr A en e = Some v \<Longrightarrow> write_expr A en e v = Some en"
proof (induction e arbitrary: v)
  case (Var x)
  then show ?case by (simp add: update_same)
next
  case (FieldPtr ov ty)
  then show ?case
    by (auto simp: update_same split: option.splits val.splits if_splits prod.splits)
next
  case (Unbox e)
  then show ?case by (auto split: option.splits val.splits)
qed


lemma execs_env:
  "keeps_env X \<Longrightarrow> execs X cs s = Inr s' \<Longrightarrow> env s' = env s"
proof (induction cs arbitrary: s)
  case Nil
  then show ?case by simp
next
  case (Cons c cs)
  from Cons.prems(2) obtain s1 where a: "X c s = Inr s1" and b: "execs X cs s1 = Inr s'"
    by (auto split: sum.splits)
  from Cons.prems(1) a have "env s1 = env s" by (auto simp: keeps_env_def)
  with Cons.IH[OF Cons.prems(1) b] show ?case by simp
qed

lemma in_scope_env:
  assumes "keeps_env X" and "in_scope X x w body s = Inr (w', s')"
  shows "w' = w \<and> env s' = env s"
proof -
  from assms(2) obtain s1 where
    a: "execs X body (s\<lparr>env := (x, w) # env s\<rparr>) = Inr s1"
    by (auto simp: in_scope_def split: sum.splits)
  from execs_env[OF assms(1) a] have "env s1 = (x, w) # env s" by simp
  with assms(2) a show ?thesis by (auto simp: in_scope_def)
qed

lemma for_each_env:
  assumes "keeps_env X"
  shows "for_each X x fl body items s = Inr (items', s') \<Longrightarrow> items' = items \<and> env s' = env s"
proof (induction items arbitrary: s items')
  case Nil
  then show ?case by simp
next
  case (Cons item items)
  show ?case
  proof (cases fl)
    case False
    with Cons.prems obtain i1 s1 is1 where
      a: "in_scope X x item body s = Inr (i1, s1)"
      and b: "for_each X x fl body items s1 = Inr (is1, s')" and c: "items' = i1 # is1"
      by (auto split: sum.splits prod.splits)
    from in_scope_env[OF assms a] Cons.IH[OF b] c show ?thesis by simp
  next
    case True
    show ?thesis
    proof (cases item)
      case VNone
      with True Cons.prems obtain is1 where
        b: "for_each X x fl body items s = Inr (is1, s')" and c: "items' = VNone # is1"
        by (auto split: sum.splits prod.splits)
      from Cons.IH[OF b] c VNone show ?thesis by simp
    next
      case (VSome w)
      with True Cons.prems obtain w1 s1 is1 where
        a: "in_scope X x w body s = Inr (w1, s1)"
        and b: "for_each X x fl body items s1 = Inr (is1, s')" and c: "items' = VSome w1 # is1"
        by (auto split: sum.splits prod.splits)
      from in_scope_env[OF assms a] Cons.IH[OF b] c VSome show ?thesis by simp
    qed (use True Cons.prems in auto)
  qed
qed

lemma call_body_env:
  assumes "keeps_env X" and "call_body X param body v s = Inr (v', s')"
  shows "v' = v \<and> env s' = env s"
proof -
  from assms(2) obtain s1 where
    a: "execs X body (s\<lparr>env := [(param, v)]\<rparr>) = Inr s1"
    by (auto simp: call_body_def split: sum.splits)
  from execs_env[OF assms(1) a] have "env s1 = [(param, v)]" by simp
  with assms(2) a show ?thesis by (auto simp: call_body_def)
qed

lemma store_same:
  assumes "read_expr A (env s) e = Some v" and "store A e (Inr (v, s1)) = Inr s'"
    and "env s1 = env s"
  shows "env s' = env s"
  using assms write_read_same[OF assms(1)] by (auto simp: store_def)


subsection \<open>What a successful step has done\<close>

lemma store_Inr:
  assumes "store A e r = Inr s'"
  obtains v s1 en where "r = Inr (v, s1)" "write_expr A (env s1) e v = Some en"
    "s' = s1\<lparr>env := en\<rparr>"
proof (cases r)
  case (Inl err)
  with assms show ?thesis by (simp add: store_def)
next
  case (Inr p)
  obtain v s1 where p: "p = (v, s1)" by (cases p)
  show ?thesis
  proof (cases "write_expr A (env s1) e v")
    case None
    with assms Inr p show ?thesis by (simp add: store_def)
  next
    case (Some en)
    with assms Inr p have "s' = s1\<lparr>env := en\<rparr>" by (simp add: store_def)
    with Inr p Some show ?thesis by (intro that) auto
  qed
qed

lemma exec_CallHook:
  assumes "exec_stmt P vis X (CallHook h e) s = Inr s'"
  obtains v r where "read_expr (p_ancestor P) (env s) e = Some v"
    "store (p_ancestor P) e (Inr r) = Inr s'"
    "(\<exists>f. vis h = Some f \<and> r = (f v (stack s), s\<lparr>trace := trace s @ [EvHook h (stack s)]\<rparr>))
     \<or> (\<exists>body. vis h = None \<and> map_of (p_trait P) h = Some body
          \<and> call_body X ''node'' body v (s\<lparr>trace := trace s @ [EvHook h (stack s)]\<rparr>) = Inr r)"
proof (cases "read_expr (p_ancestor P) (env s) e")
  case None
  with assms show ?thesis by simp
next
  case (Some v)
  show ?thesis
  proof (cases "vis h")
    case f: (Some f)
    with assms Some
    have "store (p_ancestor P) e
            (Inr (f v (stack s), s\<lparr>trace := trace s @ [EvHook h (stack s)]\<rparr>)) = Inr s'"
      by (simp add: Let_def)
    with Some f show ?thesis by (intro that) auto
  next
    case None
    show ?thesis
    proof (cases "map_of (p_trait P) h")
      case nb: None
      with assms Some None show ?thesis by (simp add: Let_def)
    next
      case body: (Some body)
      with assms Some None have
        st: "store (p_ancestor P) e
               (call_body X ''node'' body v (s\<lparr>trace := trace s @ [EvHook h (stack s)]\<rparr>)) = Inr s'"
        by (simp add: Let_def)
      then obtain r where
        "call_body X ''node'' body v (s\<lparr>trace := trace s @ [EvHook h (stack s)]\<rparr>) = Inr r"
        by (elim store_Inr) auto
      with st Some None body show ?thesis by (intro that) auto
    qed
  qed
qed

lemma exec_Call:
  assumes "exec_stmt P vis X (Call f e) s = Inr s'"
  obtains v fd r where "read_expr (p_ancestor P) (env s) e = Some v"
    "find (\<lambda>fd. fd_name fd = f) (p_walk P) = Some fd"
    "call_body X (fd_param fd) (fd_body fd) v s = Inr r"
    "store (p_ancestor P) e (Inr r) = Inr s'"
proof (cases "read_expr (p_ancestor P) (env s) e")
  case None
  with assms show ?thesis by simp
next
  case (Some v)
  show ?thesis
  proof (cases "find (\<lambda>fd. fd_name fd = f) (p_walk P)")
    case None
    with assms Some show ?thesis by simp
  next
    case fd: (Some fd)
    with assms Some have
      st: "store (p_ancestor P) e (call_body X (fd_param fd) (fd_body fd) v s) = Inr s'"
      by simp
    then obtain r where "call_body X (fd_param fd) (fd_body fd) v s = Inr r"
      by (elim store_Inr) auto
    with st Some fd show ?thesis by (intro that) auto
  qed
qed

lemma exec_IfLetSome:
  assumes "exec_stmt P vis X (IfLetSome x e body) s = Inr s'"
  obtains "read_expr (p_ancestor P) (env s) e = Some VNone" "s' = s"
  | w w' s1 where "read_expr (p_ancestor P) (env s) e = Some (VSome w)"
      "in_scope X x w body s = Inr (w', s1)"
      "store (p_ancestor P) e (Inr (VSome w', s1)) = Inr s'"
proof (cases "read_expr (p_ancestor P) (env s) e")
  case None
  with assms show ?thesis by simp
next
  case (Some v)
  show ?thesis
  proof (cases v)
    case VNone
    with assms Some have "s' = s" by simp
    with Some VNone show ?thesis by (intro that(1)) simp_all
  next
    case (VSome w)
    show ?thesis
    proof (cases "in_scope X x w body s")
      case (Inl err)
      with assms Some VSome show ?thesis by simp
    next
      case (Inr p)
      obtain w' s1 where p: "p = (w', s1)" by (cases p)
      with assms Some VSome Inr
      have "store (p_ancestor P) e (Inr (VSome w', s1)) = Inr s'" by simp
      with Some VSome Inr p show ?thesis by (intro that(2)) simp_all
    qed
  qed (use assms Some in simp_all)
qed

lemma exec_ForIn:
  assumes "exec_stmt P vis X (ForIn x e fl body) s = Inr s'"
  obtains items items' s1 where "read_expr (p_ancestor P) (env s) e = Some (VVec items)"
      "for_each X x fl body items s = Inr (items', s1)"
      "store (p_ancestor P) e (Inr (VVec items', s1)) = Inr s'"
proof (cases "read_expr (p_ancestor P) (env s) e")
  case None
  with assms show ?thesis by simp
next
  case (Some v)
  show ?thesis
  proof (cases v)
    case (VVec items)
    show ?thesis
    proof (cases "for_each X x fl body items s")
      case (Inl err)
      with assms Some VVec show ?thesis by simp
    next
      case (Inr p)
      obtain items' s1 where p: "p = (items', s1)" by (cases p)
      with assms Some VVec Inr
      have "store (p_ancestor P) e (Inr (VVec items', s1)) = Inr s'" by simp
      with Some VVec Inr p show ?thesis by (intro that) simp_all
    qed
  qed (use assms Some in simp_all)
qed

lemma exec_Match:
  assumes "exec_stmt P vis X (Match e arms) s = Inr s'"
  obtains var payload c where "read_expr (p_ancestor P) (env s) e = Some (VEnum var payload)"
      "select_arm arms var = Some (None, c)" "X c s = Inr s'"
  | var payload x c p' s1 where "read_expr (p_ancestor P) (env s) e = Some (VEnum var payload)"
      "select_arm arms var = Some (Some x, c)"
      "in_scope X x payload [c] s = Inr (p', s1)"
      "store (p_ancestor P) e (Inr (VEnum var p', s1)) = Inr s'"
proof (cases "read_expr (p_ancestor P) (env s) e")
  case None
  with assms show ?thesis by simp
next
  case (Some v)
  show ?thesis
  proof (cases v)
    case (VEnum var payload)
    show ?thesis
    proof (cases "select_arm arms var")
      case None
      with assms Some VEnum show ?thesis by simp
    next
      case sel: (Some bc)
      obtain b c where bc: "bc = (b, c)" by (cases bc)
      show ?thesis
      proof (cases b)
        case None
        with assms Some VEnum sel bc have "X c s = Inr s'" by simp
        with Some VEnum sel bc None show ?thesis by (intro that(1)) simp_all
      next
        case x: (Some x)
        show ?thesis
        proof (cases "in_scope X x payload [c] s")
          case (Inl err)
          with assms Some VEnum sel bc x show ?thesis by simp
        next
          case (Inr p)
          obtain p' s1 where p: "p = (p', s1)" by (cases p)
          with assms Some VEnum sel bc x Inr
          have "store (p_ancestor P) e (Inr (VEnum var p', s1)) = Inr s'" by simp
          with Some VEnum sel bc x Inr p show ?thesis by (intro that(2)) simp_all
        qed
      qed
    qed
  qed (use assms Some in simp_all)
qed

lemma exec_stmt_env:
  assumes X: "keeps_env X" and run: "exec_stmt P default_visitor X c s = Inr s'"
  shows "env s' = env s"
proof (cases c)
  case (CallHook h e)
  from run[unfolded CallHook] show ?thesis
  proof (rule exec_CallHook)
    fix v r
    assume v: "read_expr (p_ancestor P) (env s) e = Some v"
      and st: "store (p_ancestor P) e (Inr r) = Inr s'"
      and how: "(\<exists>f. default_visitor h = Some f
                  \<and> r = (f v (stack s), s\<lparr>trace := trace s @ [EvHook h (stack s)]\<rparr>))
       \<or> (\<exists>body. default_visitor h = None \<and> map_of (p_trait P) h = Some body
          \<and> call_body X ''node'' body v (s\<lparr>trace := trace s @ [EvHook h (stack s)]\<rparr>) = Inr r)"
    obtain v' s1 where r': "r = (v', s1)" by (cases r)
    from how r' obtain body where
      "call_body X ''node'' body v (s\<lparr>trace := trace s @ [EvHook h (stack s)]\<rparr>) = Inr (v', s1)"
      by (auto simp: default_visitor_def)
    from call_body_env[OF X this] have eqs: "v' = v" "env s1 = env s" by auto
    from st have "store (p_ancestor P) e (Inr (v, s1)) = Inr s'"
      unfolding r' eqs(1) .
    from store_same[OF v this eqs(2)] show ?thesis .
  qed
next
  case (PushStack vn sn)
  with run show ?thesis by (cases "map_of (Ancestor (p_ancestor P)) (Some vn)") auto
next
  case (RetagStack d)
  with run show ?thesis by (cases d; cases "stack s") auto
next
  case PopStack
  with run show ?thesis by (cases "stack s") auto
next
  case (Call f e)
  from run[unfolded Call] show ?thesis
  proof (rule exec_Call)
    fix v fd r
    assume v: "read_expr (p_ancestor P) (env s) e = Some v"
      and r: "call_body X (fd_param fd) (fd_body fd) v s = Inr r"
      and st: "store (p_ancestor P) e (Inr r) = Inr s'"
    obtain v' s1 where r': "r = (v', s1)" by (cases r)
    from call_body_env[OF X r[unfolded r']] have eqs: "v' = v" "env s1 = env s" by auto
    from st have "store (p_ancestor P) e (Inr (v, s1)) = Inr s'"
      unfolding r' eqs(1) .
    from store_same[OF v this eqs(2)] show ?thesis .
  qed
next
  case (IfLetSome x e body)
  from run[unfolded IfLetSome] show ?thesis
  proof (rule exec_IfLetSome)
    assume "s' = s"
    then show ?thesis by simp
  next
    fix w w' s1
    assume v: "read_expr (p_ancestor P) (env s) e = Some (VSome w)"
      and r: "in_scope X x w body s = Inr (w', s1)"
      and st: "store (p_ancestor P) e (Inr (VSome w', s1)) = Inr s'"
    from in_scope_env[OF X r] have eqs: "w' = w" "env s1 = env s" by auto
    from st have "store (p_ancestor P) e (Inr (VSome w, s1)) = Inr s'"
      unfolding eqs(1) .
    from store_same[OF v this eqs(2)] show ?thesis .
  qed
next
  case (ForIn x e fl body)
  from run[unfolded ForIn] show ?thesis
  proof (rule exec_ForIn)
    fix items items' s1
    assume v: "read_expr (p_ancestor P) (env s) e = Some (VVec items)"
      and r: "for_each X x fl body items s = Inr (items', s1)"
      and st: "store (p_ancestor P) e (Inr (VVec items', s1)) = Inr s'"
    from for_each_env[OF X r] have eqs: "items' = items" "env s1 = env s" by auto
    from st have "store (p_ancestor P) e (Inr (VVec items, s1)) = Inr s'"
      unfolding eqs(1) .
    from store_same[OF v this eqs(2)] show ?thesis .
  qed
next
  case (Match e arms)
  from run[unfolded Match] show ?thesis
  proof (rule exec_Match)
    fix c
    assume "X c s = Inr s'"
    with X show ?thesis by (auto simp: keeps_env_def)
  next
    fix var payload x c p' s1
    assume v: "read_expr (p_ancestor P) (env s) e = Some (VEnum var payload)"
      and r: "in_scope X x payload [c] s = Inr (p', s1)"
      and st: "store (p_ancestor P) e (Inr (VEnum var p', s1)) = Inr s'"
    from in_scope_env[OF X r] have eqs: "p' = payload" "env s1 = env s" by auto
    from st have "store (p_ancestor P) e (Inr (VEnum var payload, s1)) = Inr s'"
      unfolding eqs(1) .
    from store_same[OF v this eqs(2)] show ?thesis .
  qed
qed

lemma exec_env:
  "exec n P default_visitor c s = Inr s' \<Longrightarrow> env s' = env s"
proof (induction n arbitrary: c s s')
  case 0
  then show ?case by simp
next
  case (Suc n)
  have "keeps_env (exec n P default_visitor)"
    unfolding keeps_env_def using Suc.IH by blast
  from exec_stmt_env[OF this] Suc.prems show ?case by simp
qed

subsection \<open>Generated code keeps the stack discipline\<close>

lemma pushes_append [simp]: "pushes (a @ b) = pushes a + pushes b"
  by (simp add: pushes_def)

lemma pops_append [simp]: "pops (a @ b) = pops a + pops b"
  by (simp add: pops_def)

lemma pushes_single [simp]:
  "pushes [EvHook h st] = 0" "pushes [EvPush v d] = 1" "pushes [EvRetag d] = 0" "pushes [EvPop] = 0"
  "pushes [] = 0"
  by (simp_all add: pushes_def)

lemma pops_single [simp]:
  "pops [EvHook h st] = 0" "pops [EvPush v d] = 0" "pops [EvRetag d] = 0" "pops [EvPop] = 1"
  "pops [] = 0"
  by (simp_all add: pops_def)

lemma same_stack_refl: "same_stack s s"
  by (simp add: same_stack_def)

lemma same_stack_trans:
  assumes "same_stack a b" and "same_stack b c"
  shows "same_stack a c"
proof -
  from assms obtain e1 e2 where
    "trace b = trace a @ e1" "pushes e1 = pops e1"
    "trace c = trace b @ e2" "pushes e2 = pops e2"
    by (auto simp: same_stack_def)
  then have "trace c = trace a @ (e1 @ e2)" "pushes (e1 @ e2) = pops (e1 @ e2)"
    by simp_all
  with assms show ?thesis unfolding same_stack_def by (metis)
qed

lemma same_below_trans:
  assumes "same_below a b" and "same_below b c"
  shows "same_below a c"
proof -
  from assms obtain e1 e2 where
    "trace b = trace a @ e1" "pushes e1 = pops e1"
    "trace c = trace b @ e2" "pushes e2 = pops e2"
    by (auto simp: same_below_def)
  then have "trace c = trace a @ (e1 @ e2)" "pushes (e1 @ e2) = pops (e1 @ e2)"
    by simp_all
  with assms show ?thesis unfolding same_below_def by (metis)
qed

lemma same_stack_below: "same_stack s s' \<Longrightarrow> same_below s s'"
  by (auto simp: same_stack_def same_below_def)

lemma frame_same_stack: "frame_rel same_stack"
  unfolding frame_rel_def
proof (intro conjI allI impI)
  fix a b c assume "same_stack a b" "same_stack b c"
  then show "same_stack a c" by (rule same_stack_trans)
next
  fix s h st
  have "pushes [EvHook h st] = pops [EvHook h st]" by simp
  then show "same_stack s (s\<lparr>trace := trace s @ [EvHook h st]\<rparr>)"
    unfolding same_stack_def by auto
qed (simp_all add: same_stack_def)

lemma frame_same_below: "frame_rel same_below"
  unfolding frame_rel_def
proof (intro conjI allI impI)
  fix a b c assume "same_below a b" "same_below b c"
  then show "same_below a c" by (rule same_below_trans)
next
  fix s h st
  have "pushes [EvHook h st] = pops [EvHook h st]" by simp
  then show "same_below s (s\<lparr>trace := trace s @ [EvHook h st]\<rparr>)"
    unfolding same_below_def by auto
qed (simp_all add: same_below_def)

lemma frame_reflD: "frame_rel R \<Longrightarrow> R s s"
  by (simp add: frame_rel_def)

lemma frame_transD: "frame_rel R \<Longrightarrow> R a b \<Longrightarrow> R b c \<Longrightarrow> R a c"
  unfolding frame_rel_def by blast

lemma frame_env_left: "frame_rel R \<Longrightarrow> R (s\<lparr>env := en\<rparr>) s' \<Longrightarrow> R s s'"
  unfolding frame_rel_def by blast

lemma frame_env_right: "frame_rel R \<Longrightarrow> R s s' \<Longrightarrow> R s (s'\<lparr>env := en\<rparr>)"
  unfolding frame_rel_def by blast

lemma frame_hook: "frame_rel R \<Longrightarrow> R s (s\<lparr>trace := trace s @ [EvHook h st]\<rparr>)"
  unfolding frame_rel_def by blast

lemma execs_rel:
  assumes R: "frame_rel R"
    and step: "\<And>c s s'. c \<in> set cs \<Longrightarrow> X c s = Inr s' \<Longrightarrow> R s s'"
  shows "execs X cs s = Inr s' \<Longrightarrow> R s s'"
  using step
proof (induction cs arbitrary: s)
  case Nil
  then show ?case using frame_reflD[OF R] by simp
next
  case (Cons c cs)
  from Cons.prems(1) obtain s1 where a: "X c s = Inr s1" and b: "execs X cs s1 = Inr s'"
    by (cases "X c s") auto
  from Cons.prems(2)[OF _ a] have "R s s1" by simp
  moreover have "R s1 s'"
    by (rule Cons.IH[OF b]) (use Cons.prems(2) in auto)
  ultimately show ?case by (rule frame_transD[OF R])
qed

lemma in_scope_rel:
  assumes R: "frame_rel R"
    and step: "\<And>c s s'. c \<in> set body \<Longrightarrow> X c s = Inr s' \<Longrightarrow> R s s'"
    and run: "in_scope X x w body s = Inr (w', s')"
  shows "R s s'"
proof -
  from run obtain s1 where
    a: "execs X body (s\<lparr>env := (x, w) # env s\<rparr>) = Inr s1"
    by (cases "execs X body (s\<lparr>env := (x, w) # env s\<rparr>)") (auto simp: in_scope_def)
  from run a obtain rest where s': "s' = s1\<lparr>env := rest\<rparr>"
    by (cases "env s1") (auto simp: in_scope_def)
  from execs_rel[OF R step a] have "R (s\<lparr>env := (x, w) # env s\<rparr>) s1" by simp
  then have "R s s1" by (rule frame_env_left[OF R])
  then show ?thesis unfolding s' by (rule frame_env_right[OF R])
qed

lemma for_each_rel:
  assumes R: "frame_rel R"
    and step: "\<And>c s s'. c \<in> set body \<Longrightarrow> X c s = Inr s' \<Longrightarrow> R s s'"
  shows "for_each X x fl body items s = Inr (items', s') \<Longrightarrow> R s s'"
proof (induction items arbitrary: s items')
  case Nil
  then show ?case using frame_reflD[OF R] by simp
next
  case (Cons item items)
  have one: "R s s1" if "in_scope X x w body s = Inr (w', s1)" for w w' s1
    using in_scope_rel[OF R step that] .
  show ?case
  proof (cases fl)
    case False
    with Cons.prems obtain i1 s1 is1 where
      a: "in_scope X x item body s = Inr (i1, s1)"
      and b: "for_each X x fl body items s1 = Inr (is1, s')"
      by (cases "in_scope X x item body s"; cases "for_each X x fl body items
            (snd (projr (in_scope X x item body s)))")
         (auto split: prod.splits)
    from one[OF a] Cons.IH[OF b] show ?thesis by (rule frame_transD[OF R])
  next
    case True
    show ?thesis
    proof (cases item)
      case VNone
      with True Cons.prems obtain is1 where
        b: "for_each X x fl body items s = Inr (is1, s')"
        by (cases "for_each X x fl body items s") (auto split: prod.splits)
      from Cons.IH[OF b] show ?thesis .
    next
      case (VSome w)
      with True Cons.prems obtain w1 s1 is1 where
        a: "in_scope X x w body s = Inr (w1, s1)"
        and b: "for_each X x fl body items s1 = Inr (is1, s')"
        by (cases "in_scope X x w body s"; cases "for_each X x fl body items
              (snd (projr (in_scope X x w body s)))")
           (auto split: prod.splits)
      from one[OF a] Cons.IH[OF b] show ?thesis by (rule frame_transD[OF R])
    qed (use True Cons.prems in simp_all)
  qed
qed

lemma call_body_rel:
  assumes R: "frame_rel R"
    and body: "\<And>s1. execs X body (s\<lparr>env := [(param, v)]\<rparr>) = Inr s1
                 \<Longrightarrow> R (s\<lparr>env := [(param, v)]\<rparr>) s1"
    and run: "call_body X param body v s = Inr (v', s')"
  shows "R s s'"
proof -
  from run obtain s1 where
    a: "execs X body (s\<lparr>env := [(param, v)]\<rparr>) = Inr s1"
    by (cases "execs X body (s\<lparr>env := [(param, v)]\<rparr>)") (auto simp: call_body_def)
  from run a have s': "s' = s1\<lparr>env := env s\<rparr>"
    by (cases "map_of (env s1) param") (auto simp: call_body_def)
  from body[OF a] have "R s s1" by (rule frame_env_left[OF R])
  then show ?thesis unfolding s' by (rule frame_env_right[OF R])
qed

lemma store_rel:
  assumes R: "frame_rel R" and "store A e (Inr (v, s1)) = Inr s'" and "R s s1"
  shows "R s s'"
proof -
  from assms(2) obtain en where "s' = s1\<lparr>env := en\<rparr>"
    by (elim store_Inr) auto
  with frame_env_right[OF R assms(3)] show ?thesis by simp
qed


lemma select_arm_mem:
  "select_arm arms var = Some (b, c) \<Longrightarrow> c \<in> snd ` set arms"
proof (induction arms)
  case Nil
  then show ?case by simp
next
  case (Cons arm arms)
  obtain pats c' where arm: "arm = (pats, c')" by (cases arm)
  show ?case
  proof (cases "find (pattern_matches var) pats")
    case None
    with Cons arm show ?thesis by auto
  next
    case (Some p)
    with Cons.prems arm have "c = c'" by (cases p) auto
    with arm show ?thesis by simp
  qed
qed

lemma exec_stmt_rel:
  assumes R: "frame_rel R"
    and sub: "\<And>c' s s'. c' \<in> set (substmts c) \<Longrightarrow> X c' s = Inr s' \<Longrightarrow> R s s'"
    and calls: "\<And>f e fd v s r. c = Call f e
        \<Longrightarrow> find (\<lambda>fd. fd_name fd = f) (p_walk P) = Some fd
        \<Longrightarrow> call_body X (fd_param fd) (fd_body fd) v s = Inr r \<Longrightarrow> R s (snd r)"
    and trait: "\<And>h body v s r. map_of (p_trait P) h = Some body
        \<Longrightarrow> call_body X ''node'' body v s = Inr r \<Longrightarrow> R s (snd r)"
    and nostack: "retag_only c" "\<forall>d. c \<noteq> RetagStack d"
    and run: "exec_stmt P vis X c s = Inr s'"
  shows "R s s'"
proof (cases c)
  case (CallHook h e)
  from run[unfolded CallHook] show ?thesis
  proof (rule exec_CallHook)
    fix v r
    assume st: "store (p_ancestor P) e (Inr r) = Inr s'"
      and how: "(\<exists>f. vis h = Some f
                  \<and> r = (f v (stack s), s\<lparr>trace := trace s @ [EvHook h (stack s)]\<rparr>))
       \<or> (\<exists>body. vis h = None \<and> map_of (p_trait P) h = Some body
          \<and> call_body X ''node'' body v (s\<lparr>trace := trace s @ [EvHook h (stack s)]\<rparr>) = Inr r)"
    obtain v' s1 where r': "r = (v', s1)" by (cases r)
    have hook: "R s (s\<lparr>trace := trace s @ [EvHook h (stack s)]\<rparr>)"
      by (rule frame_hook[OF R])
    from how have "R s s1"
    proof (elim disjE exE conjE)
      fix f assume "r = (f v (stack s), s\<lparr>trace := trace s @ [EvHook h (stack s)]\<rparr>)"
      with r' have "s1 = s\<lparr>trace := trace s @ [EvHook h (stack s)]\<rparr>" by simp
      with hook show ?thesis by simp
    next
      fix body assume "map_of (p_trait P) h = Some body"
        "call_body X ''node'' body v (s\<lparr>trace := trace s @ [EvHook h (stack s)]\<rparr>) = Inr r"
      from trait[OF this] r' have "R (s\<lparr>trace := trace s @ [EvHook h (stack s)]\<rparr>) s1"
        by simp
      with hook show ?thesis by (rule frame_transD[OF R])
    qed
    from store_rel[OF R st[unfolded r'] this] show ?thesis .
  qed
next
  case (PushStack vn sn)
  with nostack show ?thesis by simp
next
  case (RetagStack d)
  with nostack show ?thesis by simp
next
  case PopStack
  with nostack show ?thesis by simp
next
  case (Call f e)
  from run[unfolded Call] show ?thesis
  proof (rule exec_Call)
    fix v fd r
    assume fd: "find (\<lambda>fd. fd_name fd = f) (p_walk P) = Some fd"
      and r: "call_body X (fd_param fd) (fd_body fd) v s = Inr r"
      and st: "store (p_ancestor P) e (Inr r) = Inr s'"
    obtain v' s1 where r': "r = (v', s1)" by (cases r)
    from calls[OF Call fd r] r' have "R s s1" by simp
    from store_rel[OF R st[unfolded r'] this] show ?thesis .
  qed
next
  case (IfLetSome x e body)
  from run[unfolded IfLetSome] show ?thesis
  proof (rule exec_IfLetSome)
    assume "s' = s"
    then show ?thesis using frame_reflD[OF R] by simp
  next
    fix w w' s1
    assume r: "in_scope X x w body s = Inr (w', s1)"
      and st: "store (p_ancestor P) e (Inr (VSome w', s1)) = Inr s'"
    have "R s s1"
      by (rule in_scope_rel[OF R _ r]) (use sub IfLetSome in auto)
    from store_rel[OF R st this] show ?thesis .
  qed
next
  case (ForIn x e fl body)
  from run[unfolded ForIn] show ?thesis
  proof (rule exec_ForIn)
    fix items items' s1
    assume r: "for_each X x fl body items s = Inr (items', s1)"
      and st: "store (p_ancestor P) e (Inr (VVec items', s1)) = Inr s'"
    have "R s s1"
      by (rule for_each_rel[OF R _ r]) (use sub ForIn in auto)
    from store_rel[OF R st this] show ?thesis .
  qed
next
  case (Match e arms)
  from run[unfolded Match] show ?thesis
  proof (rule exec_Match)
    fix var payload c'
    assume sel: "select_arm arms var = Some (None, c')" and x: "X c' s = Inr s'"
    from select_arm_mem[OF sel] Match have "c' \<in> set (substmts c)" by simp
    from sub[OF this x] show ?thesis .
  next
    fix var payload x c' p' s1
    assume sel: "select_arm arms var = Some (Some x, c')"
      and r: "in_scope X x payload [c'] s = Inr (p', s1)"
      and st: "store (p_ancestor P) e (Inr (VEnum var p', s1)) = Inr s'"
    from select_arm_mem[OF sel] Match have mem: "c' \<in> set (substmts c)" by simp
    have "R s s1"
      by (rule in_scope_rel[OF R _ r]) (use sub mem in auto)
    from store_rel[OF R st this] show ?thesis .
  qed
qed


lemma no_stack_ops_sub:
  "no_stack_ops c \<Longrightarrow> c' \<in> set (substmts c) \<Longrightarrow> no_stack_ops c'"
  by (cases c) (auto simp: list_all_iff)

lemma retag_only_sub:
  "retag_only c \<Longrightarrow> c' \<in> set (substmts c) \<Longrightarrow> retag_only c'"
  by (cases c) (auto simp: list_all_iff)

lemma no_stack_ops_retag_only: "no_stack_ops c \<Longrightarrow> retag_only c"
  by (induction c rule: no_stack_ops.induct) (auto simp: list_all_iff)

lemma execs_append:
  "execs X (a @ b) s = Inr s' \<longleftrightarrow> (\<exists>s1. execs X a s = Inr s1 \<and> execs X b s1 = Inr s')"
proof (induction a arbitrary: s)
  case Nil
  show ?case by simp
next
  case (Cons c a)
  show ?case by (cases "X c s") (simp_all add: Cons)
qed

lemma execs_Cons:
  "execs X (c # cs) s = Inr s' \<longleftrightarrow> (\<exists>s1. X c s = Inr s1 \<and> execs X cs s1 = Inr s')"
  by (cases "X c s") simp_all

lemma exec_Push:
  assumes "exec n P vis (PushStack v sn) s = Inr s'"
  shows "\<exists>d. stack s' = d # stack s \<and> trace s' = trace s @ [EvPush v d]"
proof (cases n)
  case 0
  with assms show ?thesis by simp
next
  case (Suc m)
  with assms show ?thesis
    by (cases "map_of (Ancestor (p_ancestor P)) (Some v)") auto
qed

lemma exec_Pop:
  assumes "exec n P vis PopStack s = Inr s'"
  shows "stack s \<noteq> [] \<and> stack s' = tl (stack s) \<and> trace s' = trace s @ [EvPop]"
proof (cases n)
  case 0
  with assms show ?thesis by simp
next
  case (Suc m)
  with assms show ?thesis
    by (cases "stack s") auto
qed

lemma exec_Retag:
  assumes "exec n P vis (RetagStack d) s = Inr s'"
  shows "same_below s s'"
proof (cases n)
  case 0
  with assms show ?thesis by simp
next
  case (Suc m)
  have "pushes [EvRetag x] = pops [EvRetag x]" for x by simp
  with Suc assms show ?thesis
    by (cases d; cases "stack s") (auto simp: same_below_def)
qed

lemma execs_balanced:
  assumes IH1: "\<And>c s s'. exec n P vis c s = Inr s' \<Longrightarrow> no_stack_ops c \<Longrightarrow> same_stack s s'"
    and IH2: "\<And>c s s'. exec n P vis c s = Inr s' \<Longrightarrow> retag_only c \<Longrightarrow> same_below s s'"
    and bal: "balanced_body body"
    and run: "execs (exec n P vis) body s0 = Inr s5"
  shows "same_stack s0 s5"
proof -
  have plain: "same_stack a b"
    if "list_all no_stack_ops cs" "execs (exec n P vis) cs a = Inr b" for cs a b
    by (rule execs_rel[OF frame_same_stack _ that(2)]) (use IH1 that(1) in \<open>auto simp: list_all_iff\<close>)
  from bal show ?thesis
    unfolding balanced_body_def
  proof (elim disjE exE conjE)
    assume "list_all no_stack_ops body"
    from plain[OF this run] show ?thesis .
  next
    fix pre v sn mid post
    assume body: "body = pre @ [PushStack v sn] @ mid @ [PopStack] @ post"
      and pre: "list_all no_stack_ops pre" and mid: "list_all retag_only mid"
      and post: "list_all no_stack_ops post"
    from run[unfolded body]
    have "\<exists>s1. execs (exec n P vis) pre s0 = Inr s1
            \<and> execs (exec n P vis) ([PushStack v sn] @ mid @ [PopStack] @ post) s1 = Inr s5"
      by (rule execs_append[THEN iffD1])
    then obtain s1 where
      r1: "execs (exec n P vis) pre s0 = Inr s1"
      and t1: "execs (exec n P vis) (PushStack v sn # (mid @ (PopStack # post))) s1 = Inr s5"
      by auto
    from t1 have "\<exists>s2. exec n P vis (PushStack v sn) s1 = Inr s2
            \<and> execs (exec n P vis) (mid @ (PopStack # post)) s2 = Inr s5"
      by (rule execs_Cons[THEN iffD1])
    then obtain s2 where
      r2: "exec n P vis (PushStack v sn) s1 = Inr s2"
      and t2: "execs (exec n P vis) (mid @ (PopStack # post)) s2 = Inr s5"
      by auto
    from t2 have "\<exists>s3. execs (exec n P vis) mid s2 = Inr s3
            \<and> execs (exec n P vis) (PopStack # post) s3 = Inr s5"
      by (rule execs_append[THEN iffD1])
    then obtain s3 where
      r3: "execs (exec n P vis) mid s2 = Inr s3"
      and t3: "execs (exec n P vis) (PopStack # post) s3 = Inr s5"
      by auto
    from t3 have "\<exists>s4. exec n P vis PopStack s3 = Inr s4
            \<and> execs (exec n P vis) post s4 = Inr s5"
      by (rule execs_Cons[THEN iffD1])
    then obtain s4 where
      r4: "exec n P vis PopStack s3 = Inr s4"
      and r5: "execs (exec n P vis) post s4 = Inr s5"
      by auto
    from exec_Push[OF r2] obtain d where
      p: "stack s2 = d # stack s1" "trace s2 = trace s1 @ [EvPush v d]" by blast
    have "same_below s2 s3"
      by (rule execs_rel[OF frame_same_below _ r3]) (use IH2 mid in \<open>auto simp: list_all_iff\<close>)
    then obtain e where
      m: "tl (stack s3) = tl (stack s2)" "trace s3 = trace s2 @ e" "pushes e = pops e"
      by (auto simp: same_below_def)
    from exec_Pop[OF r4] have
      q: "stack s4 = tl (stack s3)" "trace s4 = trace s3 @ [EvPop]" by auto
    have "stack s4 = stack s1" using p(1) m(1) q(1) by simp
    moreover have "trace s4 = trace s1 @ ([EvPush v d] @ e @ [EvPop])"
      using p(2) m(2) q(2) by simp
    moreover have "pushes ([EvPush v d] @ e @ [EvPop]) = pops ([EvPush v d] @ e @ [EvPop])"
      using m(3) by (simp add: pushes_def pops_def)
    ultimately have "same_stack s1 s4"
      unfolding same_stack_def by blast
    from same_stack_trans[OF plain[OF pre r1] same_stack_trans[OF this plain[OF post r5]]]
    show ?thesis .
  qed
qed

lemma exec_stack:
  assumes ok: "program_ok P"
  shows "exec n P vis c s = Inr s' \<Longrightarrow>
         (no_stack_ops c \<longrightarrow> same_stack s s') \<and> (retag_only c \<longrightarrow> same_below s s')"
proof (induction n arbitrary: c s s')
  case 0
  then show ?case by simp
next
  case (Suc n)
  have IH1: "same_stack a b" if "exec n P vis c' a = Inr b" "no_stack_ops c'" for c' a b
    using Suc.IH[OF that(1)] that(2) by simp
  have IH2: "same_below a b" if "exec n P vis c' a = Inr b" "retag_only c'" for c' a b
    using Suc.IH[OF that(1)] that(2) by simp
  have calls: "same_stack a (snd r)"
    if "find (\<lambda>fd. fd_name fd = f) (p_walk P) = Some fd"
      "call_body (exec n P vis) (fd_param fd) (fd_body fd) v a = Inr r" for f fd v a r
  proof -
    from that(1) have "fd \<in> set (p_walk P)"
      by (auto simp: find_Some_iff)
    with ok have bal: "balanced_body (fd_body fd)"
      by (simp add: program_ok_def)
    obtain v' s1 where r: "r = (v', s1)" by (cases r)
    have "same_stack a s1"
      by (rule call_body_rel[OF frame_same_stack _ that(2)[unfolded r]])
         (rule execs_balanced[OF IH1 IH2 bal])
    with r show ?thesis by simp
  qed
  have trait: "same_stack a (snd r)"
    if "map_of (p_trait P) h = Some body"
      "call_body (exec n P vis) ''node'' body v a = Inr r" for h body v a r
  proof -
    from that(1) have "(h, body) \<in> set (p_trait P)"
      by (rule map_of_SomeD)
    with ok have "list_all no_stack_ops body"
      by (auto simp: program_ok_def)
    then have bal: "balanced_body body" by (simp add: balanced_body_def)
    obtain v' s1 where r: "r = (v', s1)" by (cases r)
    have "same_stack a s1"
      by (rule call_body_rel[OF frame_same_stack _ that(2)[unfolded r]])
         (rule execs_balanced[OF IH1 IH2 bal])
    with r show ?thesis by simp
  qed
  from Suc.prems have run: "exec_stmt P vis (exec n P vis) c s = Inr s'" by simp
  have one: "same_stack s s'" if ns: "no_stack_ops c"
  proof (rule exec_stmt_rel[OF frame_same_stack _ _ _ _ _ run])
    show "retag_only c" using ns by (rule no_stack_ops_retag_only)
    show "\<forall>d. c \<noteq> RetagStack d" using ns by auto
  next
    fix c' a b assume "c' \<in> set (substmts c)" "exec n P vis c' a = Inr b"
    with no_stack_ops_sub[OF ns] IH1 show "same_stack a b" by blast
  next
    fix f e fd v a r
    assume "find (\<lambda>fd. fd_name fd = f) (p_walk P) = Some fd"
      "call_body (exec n P vis) (fd_param fd) (fd_body fd) v a = Inr r"
    then show "same_stack a (snd r)" by (rule calls)
  next
    fix h body v a r
    assume "map_of (p_trait P) h = Some body"
      "call_body (exec n P vis) ''node'' body v a = Inr r"
    then show "same_stack a (snd r)" by (rule trait)
  qed
  have two: "same_below s s'" if ro: "retag_only c"
  proof (cases "\<exists>d. c = RetagStack d")
    case True
    with Suc.prems exec_Retag show ?thesis by blast
  next
    case False
    show ?thesis
    proof (rule exec_stmt_rel[OF frame_same_below _ _ _ ro _ run])
      show "\<forall>d. c \<noteq> RetagStack d" using False by simp
    next
      fix c' a b assume "c' \<in> set (substmts c)" "exec n P vis c' a = Inr b"
      with retag_only_sub[OF ro] IH2 show "same_below a b" by blast
    next
      fix f e fd v a r
      assume "find (\<lambda>fd. fd_name fd = f) (p_walk P) = Some fd"
        "call_body (exec n P vis) (fd_param fd) (fd_body fd) v a = Inr r"
      then show "same_below a (snd r)" by (intro same_stack_below calls)
    next
      fix h body v a r
      assume "map_of (p_trait P) h = Some body"
        "call_body (exec n P vis) ''node'' body v a = Inr r"
      then show "same_below a (snd r)" by (intro same_stack_below trait)
    qed
  qed
  from one two show ?case by blast
qed

lemma fieldCodeFor_retag_only:
  assumes "fieldCodeFor f k = Inr code"
  shows "list_all retag_only code"
proof (cases "wrappers (f_type f)")
  case Nil
  with assms show ?thesis
    unfolding fieldCodeFor_def typeAndWrappers_def Let_def by (auto split: if_splits)
next
  case (Cons w ws)
  with assms show ?thesis
    unfolding fieldCodeFor_def typeAndWrappers_def Let_def
    by (cases ws) (auto split: if_splits)
qed

lemma fieldsCodesFrom_retag_only:
  "fieldsCodesFrom fs k = Inr codes \<Longrightarrow> list_all retag_only (concat codes)"
proof (induction fs arbitrary: k codes)
  case Nil
  then show ?case by simp
next
  case (Cons f fs)
  from Cons.prems obtain c cs where
    c: "fieldCodeFor f k = Inr c" and cs: "fieldsCodesFrom fs (Suc k) = Inr cs"
    and codes: "codes = c # cs"
    by (auto split: sum.splits)
  from fieldCodeFor_retag_only[OF c] Cons.IH[OF cs] codes show ?case by simp
qed

lemma inheritedArm_no_stack_ops:
  "list_all2 (inheritedArm types name) inh codes
   \<Longrightarrow> list_all (\<lambda>arm. no_stack_ops (snd arm)) codes"
  by (induction rule: list_all2_induct) (auto simp: inheritedArm_def)

lemma generatedFor_balanced:
  assumes "generatedFor types t fd"
  shows "balanced_body (fd_body fd)"
proof (cases t)
  case (Struct n l fs)
  with assms have gen: "generateWalkForStruct (Struct n l fs) types = Inr fd"
    by (simp add: generatedFor_def)
  then obtain codes where
    codes: "fieldsCodesFrom (visitedFieldsOf types fs) 0 = Inr codes"
    and fd: "fd = \<lparr>fd_name = WalkFn n, fd_param = ''node'',
           fd_body = CallHook (EnterHook n) (Var ''node'')
             # (case visitedFieldsOf types fs of
                  [] \<Rightarrow> []
                | field # rest \<Rightarrow>
                    PushStack (VariantName n (f_name field)) (Without n (f_name field))
                    # concat codes @ [PopStack])
             @ [CallHook (ExitHook n) (Var ''node'')]\<rparr>"
    by (rule generateWalkForStruct_body)
  show ?thesis
  proof (cases "visitedFieldsOf types fs")
    case Nil
    with fd show ?thesis by (simp add: balanced_body_def)
  next
    case (Cons field rest)
    with fd have "fd_body fd = [CallHook (EnterHook n) (Var ''node'')]
        @ [PushStack (VariantName n (f_name field)) (Without n (f_name field))]
        @ concat codes @ [PopStack] @ [CallHook (ExitHook n) (Var ''node'')]"
      by simp
    moreover have "list_all no_stack_ops [CallHook (EnterHook n) (Var ''node'')]"
      "list_all no_stack_ops [CallHook (ExitHook n) (Var ''node'')]"
      by simp_all
    moreover note fieldsCodesFrom_retag_only[OF codes]
    ultimately show ?thesis
      unfolding balanced_body_def by blast
  qed
next
  case (Enum n l vs inh)
  with assms have gen: "generateWalkForEnum (Enum n l vs inh) types = Some (Inr fd)"
    by (simp add: generatedFor_def)
  then obtain codes where
    codes: "inheritedCodes types n inh [] = Some (codes, [])"
    and fd: "fd = \<lparr>fd_name = WalkFn n, fd_param = ''node'',
           fd_body = [CallHook (EnterHook n) (Var ''node''),
                      Match (Var ''node'') (map (ownArm n) vs @ codes),
                      CallHook (ExitHook n) (Var ''node'')]\<rparr>"
    by (rule generateWalkForEnum_body)
  from inheritedCodes_arms[OF codes]
  have "list_all2 (inheritedArm types n) inh codes" by simp
  from inheritedArm_no_stack_ops[OF this]
  have "list_all (\<lambda>arm. no_stack_ops (snd arm)) (map (ownArm n) vs @ codes)"
    by (auto simp: list_all_iff ownArm_def)
  with fd show ?thesis by (simp add: balanced_body_def)
qed

lemma generate_program:
  assumes "generate types = Some (Inr P)"
  obtains types' where "types' = snd (generateAncestorsCode types)"
    "p_ancestor P = fst (generateAncestorsCode types)"
    "generateWalkFunctionsCode types' = Some (Inr (p_walk P))"
    "p_trait P = generateTraverseTraitCode types'"
proof -
  obtain a t where at: "generateAncestorsCode types = (a, t)"
    by (cases "generateAncestorsCode types")
  with assms show ?thesis
    by (intro that[of t])
       (auto simp: generate_def split: option.splits sum.splits)
qed

lemma generated_program_ok:
  assumes "generate types = Some (Inr P)"
  shows "program_ok P"
proof -
  from assms obtain types' where
    walk: "generateWalkFunctionsCode types' = Some (Inr (p_walk P))"
    and trait: "p_trait P = generateTraverseTraitCode types'"
    by (rule generate_program)
  from walk obtain ms where
    fns: "p_walk P = ms @ [walk_statements]"
    and all: "list_all2 (generatedFor types') types' ms"
    by (rule generated_program)
  have "balanced_body (fd_body fd)" if "fd \<in> set (p_walk P)" for fd
  proof (cases "fd = walk_statements")
    case True
    then show ?thesis by (simp add: walk_statements_def balanced_body_def)
  next
    case False
    with that fns have "fd \<in> set ms" by simp
    with all obtain t where "generatedFor types' t fd"
      by (auto simp: in_set_conv_nth list_all2_conv_all_nth)
    then show ?thesis by (rule generatedFor_balanced)
  qed
  moreover have "list_all no_stack_ops (snd hb)" if "hb \<in> set (p_trait P)" for hb
    using that unfolding trait generateTraverseTraitCode_def by auto
  ultimately show ?thesis by (simp add: program_ok_def)
qed

lemma ex_program_generated: "generate ex_types = Some (Inr ex_program)"
  by code_simp

lemma ex_sum_run:
  "traverse 6 ex_program default_visitor ''BinaryExpression'' ex_sum []
   = Inr \<lparr>env = [(''node'', ex_sum)], stack = [],
          trace = [EvHook (EnterHook ''BinaryExpression'') [],
                   EvPush (VariantName ''BinaryExpression'' ''left'') 1,
                   EvHook (EnterHook ''Expression'') [1],
                   EvHook (EnterHook ''NumericLiteral'') [1],
                   EvHook (ExitHook ''NumericLiteral'') [1],
                   EvHook (ExitHook ''Expression'') [1],
                   EvRetag 2,
                   EvHook (EnterHook ''Expression'') [2],
                   EvHook (EnterHook ''NumericLiteral'') [2],
                   EvHook (ExitHook ''NumericLiteral'') [2],
                   EvHook (ExitHook ''Expression'') [2],
                   EvPop,
                   EvHook (ExitHook ''BinaryExpression'') []]\<rparr>"
  by code_simp


subsection \<open>Option fields\<close>

lemma fieldCodeFor_option:
  assumes "fieldCodeFor f k = Inr code"
    and "wrappers (f_type f) \<noteq> []" and "hd (wrappers (f_type f)) = ''Option''"
  shows "\<exists>body. code = [IfLetSome ''field'' (FieldPtr (offsetVarName f) (f_type f)) body]"
  using assms unfolding fieldCodeFor_def typeAndWrappers_def Let_def
  by (auto split: if_splits)

text \<open>
  C2 as amended. For a descendable field of a struct whose outermost wrapper is \<^verbatim>\<open>Option\<close>
  (\<^verbatim>\<open>Option<Vec<T>>\<close> included): the body of the generated walk function is the enter hook,
  the push tagged with the first descendable field, the code of the descendable fields in
  order, the pop and the exit hook, and the code of that field is one \<^verbatim>\<open>if let Some\<close>
  statement which holds the field's retag (when it is not the first) and its descent, and
  which leaves the state exactly as it was when the field holds \<^verbatim>\<open>None\<close>. The push is outside
  that statement: when the field is the first descendable one, the entry tagged with it is
  pushed whatever the field holds.
\<close>

theorem absent_option_field:
  assumes gen: "generateWalkForStruct (Struct name l fs) types = Inr fd"
    and k: "k < length (visitedFieldsOf types fs)"
    and field: "field = visitedFieldsOf types fs ! k"
    and opt: "wrappers (f_type field) \<noteq> []" "hd (wrappers (f_type field)) = ''Option''"
  shows "\<exists>codes body.
      length codes = length (visitedFieldsOf types fs)
    \<and> fd_body fd =
        [CallHook (EnterHook name) (Var ''node''),
         PushStack (VariantName name (f_name (hd (visitedFieldsOf types fs))))
                   (Without name (f_name (hd (visitedFieldsOf types fs))))]
        @ concat codes @ [PopStack, CallHook (ExitHook name) (Var ''node'')]
    \<and> codes ! k = [IfLetSome ''field'' (FieldPtr (offsetVarName field) (f_type field)) body]
    \<and> concat (map flat_ops body) =
        (if k = 0 then [] else [PRetag (ancestorDiscriminant field)]) @ [PCall (walkTarget field)]
    \<and> (\<forall>n P vis s.
          read_expr (p_ancestor P) (env s) (FieldPtr (offsetVarName field) (f_type field))
            = Some VNone
          \<longrightarrow> exec (Suc n) P vis
                (IfLetSome ''field'' (FieldPtr (offsetVarName field) (f_type field)) body) s
              = Inr s)"
proof -
  from gen obtain codes where
    codes: "fieldsCodesFrom (visitedFieldsOf types fs) 0 = Inr codes"
    and fd: "fd = \<lparr>fd_name = WalkFn name, fd_param = ''node'',
           fd_body = CallHook (EnterHook name) (Var ''node'')
             # (case visitedFieldsOf types fs of
                  [] \<Rightarrow> []
                | field # rest \<Rightarrow>
                    PushStack (VariantName name (f_name field)) (Without name (f_name field))
                    # concat codes @ [PopStack])
             @ [CallHook (ExitHook name) (Var ''node'')]\<rparr>"
    by (rule generateWalkForStruct_body)
  from fieldsCodesFrom_nth[OF codes] k field
  have len: "length codes = length (visitedFieldsOf types fs)"
    and code: "fieldCodeFor field k = Inr (codes ! k)"
    by auto
  from fieldCodeFor_option[OF code opt] obtain body where
    body: "codes ! k = [IfLetSome ''field'' (FieldPtr (offsetVarName field) (f_type field)) body]"
    by blast
  from fieldCodeFor_ops[OF code] body
  have ops: "concat (map flat_ops body) =
        (if k = 0 then [] else [PRetag (ancestorDiscriminant field)]) @ [PCall (walkTarget field)]"
    by simp
  from k obtain first others where vf: "visitedFieldsOf types fs = first # others"
    by (cases "visitedFieldsOf types fs") auto
  have shape: "fd_body fd =
        [CallHook (EnterHook name) (Var ''node''),
         PushStack (VariantName name (f_name (hd (visitedFieldsOf types fs))))
                   (Without name (f_name (hd (visitedFieldsOf types fs))))]
        @ concat codes @ [PopStack, CallHook (ExitHook name) (Var ''node'')]"
    using fd vf by simp
  have none: "exec (Suc n) P vis
                (IfLetSome ''field'' (FieldPtr (offsetVarName field) (f_type field)) body) s
              = Inr s"
    if "read_expr (p_ancestor P) (env s) (FieldPtr (offsetVarName field) (f_type field))
          = Some VNone" for n P vis s
    using that by simp
  from len shape body ops none show ?thesis by blast
qed

text \<open>The claim C2 as stated fails: walking a return statement without an argument pushes
  the entry tagged with the argument, the struct's first descendable field.\<close>

theorem absent_first_field_pushed:
  "traverse 2 ex_program default_visitor ''ReturnStatement'' ex_bare_return [] =
     Inr \<lparr>env = [(''node'', ex_bare_return)], stack = [],
          trace = [EvHook (EnterHook ''ReturnStatement'') [],
                   EvPush (VariantName ''ReturnStatement'' ''argument'') 4,
                   EvPop,
                   EvHook (ExitHook ''ReturnStatement'') []]\<rparr>"
  by code_simp

theorem absent_option_field_witness:
  "\<exists>fd codes body.
      generateWalkForStruct (ex_annotated ! 5) ex_annotated = Inr fd
    \<and> fd_body fd =
        [CallHook (EnterHook ''ReturnStatement'') (Var ''node''),
         PushStack (VariantName ''ReturnStatement'' ''argument'')
                   (Without ''ReturnStatement'' ''argument'')]
        @ concat codes @ [PopStack, CallHook (ExitHook ''ReturnStatement'') (Var ''node'')]
    \<and> codes ! 0 = [IfLetSome ''field''
                     (FieldPtr (Some (OFFSET ''ReturnStatement'' ''argument''))
                        (RustType [''Option''] ''Expression'')) body]
    \<and> concat (map flat_ops body) = [PCall (WalkFn ''Expression'')]
    \<and> exec 1 ex_program default_visitor
         (IfLetSome ''field''
            (FieldPtr (Some (OFFSET ''ReturnStatement'' ''argument''))
               (RustType [''Option''] ''Expression'')) body)
         \<lparr>env = [(''node'', ex_bare_return)], stack = [4], trace = []\<rparr>
       = Inr \<lparr>env = [(''node'', ex_bare_return)], stack = [4], trace = []\<rparr>"
proof -
  define fs where "fs = fieldsOf (ex_annotated ! 5)"
  define field where "field = visitedFieldsOf ex_annotated fs ! 0"
  have s: "ex_annotated ! 5 = Struct ''ReturnStatement'' True fs"
    unfolding fs_def by code_simp
  have v: "0 < length (visitedFieldsOf ex_annotated fs)"
    "wrappers (f_type field) \<noteq> []" "hd (wrappers (f_type field)) = ''Option''"
    unfolding fs_def field_def by code_simp+
  have e: "f_name (hd (visitedFieldsOf ex_annotated fs)) = ''argument''"
    "offsetVarName field = Some (OFFSET ''ReturnStatement'' ''argument'')"
    "f_type field = RustType [''Option''] ''Expression''"
    "walkTarget field = WalkFn ''Expression''"
    unfolding fs_def field_def by code_simp+
  have r: "read_expr (p_ancestor ex_program)
             (env \<lparr>env = [(''node'', ex_bare_return)], stack = [4], trace = []\<rparr>)
             (FieldPtr (Some (OFFSET ''ReturnStatement'' ''argument''))
                (RustType [''Option''] ''Expression''))
           = Some VNone"
    by code_simp
  have "\<not> isl (generateWalkForStruct (Struct ''ReturnStatement'' True fs) ex_annotated)"
    unfolding fs_def by code_simp
  then obtain fd where
    gen: "generateWalkForStruct (Struct ''ReturnStatement'' True fs) ex_annotated = Inr fd"
    by (cases "generateWalkForStruct (Struct ''ReturnStatement'' True fs) ex_annotated") auto
  from absent_option_field[OF gen v(1) field_def v(2,3)]
  obtain codes body where
    a: "fd_body fd =
        [CallHook (EnterHook ''ReturnStatement'') (Var ''node''),
         PushStack (VariantName ''ReturnStatement'' ''argument'')
                   (Without ''ReturnStatement'' ''argument'')]
        @ concat codes @ [PopStack, CallHook (ExitHook ''ReturnStatement'') (Var ''node'')]"
    and b: "codes ! 0 = [IfLetSome ''field''
                     (FieldPtr (Some (OFFSET ''ReturnStatement'' ''argument''))
                        (RustType [''Option''] ''Expression'')) body]"
    and c: "concat (map flat_ops body) = [PCall (WalkFn ''Expression'')]"
    and d: "\<And>n P vis s.
          read_expr (p_ancestor P) (env s)
            (FieldPtr (Some (OFFSET ''ReturnStatement'' ''argument''))
               (RustType [''Option''] ''Expression'')) = Some VNone
          \<Longrightarrow> exec (Suc n) P vis
                (IfLetSome ''field''
                   (FieldPtr (Some (OFFSET ''ReturnStatement'' ''argument''))
                      (RustType [''Option''] ''Expression'')) body) s
              = Inr s"
    unfolding e by auto
  from d[OF r, of 0] have d': "exec 1 ex_program default_visitor
         (IfLetSome ''field''
            (FieldPtr (Some (OFFSET ''ReturnStatement'' ''argument''))
               (RustType [''Option''] ''Expression'')) body)
         \<lparr>env = [(''node'', ex_bare_return)], stack = [4], trace = []\<rparr>
       = Inr \<lparr>env = [(''node'', ex_bare_return)], stack = [4], trace = []\<rparr>"
    by (simp del: exec.simps)
  from gen a b c d' show ?thesis unfolding s by blast
qed

subsection \<open>Enums and the stack\<close>

lemma enum_arms_calls:
  assumes "list_all2 (inheritedArm types name) inh codes"
  shows "list_all (\<lambda>arm. \<exists>f e. snd arm = Call f e) (map (ownArm name) vs @ codes)"
proof -
  from assms have "list_all (\<lambda>arm. \<exists>f e. snd arm = Call f e) codes"
    by (induction rule: list_all2_induct) (auto simp: inheritedArm_def)
  then show ?thesis by (auto simp: list_all_iff ownArm_def)
qed

lemma calls_no_stack_ops:
  "list_all (\<lambda>arm. \<exists>f e. snd arm = Call f e) arms
   \<Longrightarrow> list_all (\<lambda>arm. no_stack_ops (snd arm)) arms"
  by (induction arms) auto

lemma match_arm_run:
  assumes ok: "program_ok P"
    and calls: "list_all (\<lambda>arm. \<exists>f e. snd arm = Call f e) arms"
    and run: "exec (Suc n) P vis (Match e arms) s = Inr s'"
  shows "\<exists>var payload b c s3 s4.
           read_expr (p_ancestor P) (env s) e = Some (VEnum var payload)
         \<and> select_arm arms var = Some (b, c)
         \<and> stack s3 = stack s \<and> exec n P vis c s3 = Inr s4 \<and> stack s4 = stack s"
proof -
  have arm: "stack b = stack a"
    if "select_arm arms var = Some (x, c)" "exec n P vis c a = Inr b" for var x c a b
  proof -
    from select_arm_mem[OF that(1)] calls have "no_stack_ops c"
      by (auto simp: list_all_iff)
    with exec_stack[OF ok that(2)] show ?thesis by (simp add: same_stack_def)
  qed
  from run have "exec_stmt P vis (exec n P vis) (Match e arms) s = Inr s'" by simp
  then show ?thesis
  proof (rule exec_Match)
    fix var payload c
    assume "read_expr (p_ancestor P) (env s) e = Some (VEnum var payload)"
      "select_arm arms var = Some (None, c)" "exec n P vis c s = Inr s'"
    with arm show ?thesis by blast
  next
    fix var payload x c p' s1
    assume r: "read_expr (p_ancestor P) (env s) e = Some (VEnum var payload)"
      and sel: "select_arm arms var = Some (Some x, c)"
      and sc: "in_scope (exec n P vis) x payload [c] s = Inr (p', s1)"
    from sc obtain s4 where
      c: "exec n P vis c (s\<lparr>env := (x, payload) # env s\<rparr>) = Inr s4"
      by (auto simp: in_scope_def split: sum.splits)
    from arm[OF sel c] have "stack s4 = stack s" by simp
    moreover have "stack (s\<lparr>env := (x, payload) # env s\<rparr>) = stack s" by simp
    ultimately show ?thesis using r sel c by blast
  qed
qed

text \<open>
  C10. The walk function generated for an enum is the enter hook, one match whose arms are
  calls of walk functions, and the exit hook: no push, no retag, no pop. When it runs in a
  generated program, the enter hook, the call of the selected arm and the exit hook all
  start on the stack the function was entered with, and each leaves that stack as it is.
  In a generated program the only functions whose text has a stack operation are those
  generated for structs, and the default bodies of the hooks are empty.
\<close>

theorem enum_walk_keeps_stack:
  assumes gen: "generate types = Some (Inr P)"
    and types': "types' = snd (generateAncestorsCode types)"
    and fd: "generateWalkForEnum (Enum E l vs inh) types' = Some (Inr fd)"
  shows "\<exists>arms.
      fd_body fd = [CallHook (EnterHook E) (Var ''node''), Match (Var ''node'') arms,
                    CallHook (ExitHook E) (Var ''node'')]
    \<and> list_all (\<lambda>arm. \<exists>f e. snd arm = Call f e) arms
    \<and> list_all no_stack_ops (fd_body fd)
    \<and> (\<forall>n vis s s'. execs (exec (Suc n) P vis) (fd_body fd) s = Inr s' \<longrightarrow>
          (\<exists>s1 s2 var payload b c s3 s4.
              exec (Suc n) P vis (CallHook (EnterHook E) (Var ''node'')) s = Inr s1
            \<and> stack s1 = stack s
            \<and> read_expr (p_ancestor P) (env s1) (Var ''node'') = Some (VEnum var payload)
            \<and> select_arm arms var = Some (b, c)
            \<and> stack s3 = stack s \<and> exec n P vis c s3 = Inr s4 \<and> stack s4 = stack s
            \<and> exec (Suc n) P vis (Match (Var ''node'') arms) s1 = Inr s2
            \<and> stack s2 = stack s
            \<and> exec (Suc n) P vis (CallHook (ExitHook E) (Var ''node'')) s2 = Inr s'
            \<and> stack s' = stack s))
    \<and> (\<forall>g \<in> set (p_walk P). \<not> list_all no_stack_ops (fd_body g) \<longrightarrow>
          (\<exists>n l fs. Struct n l fs \<in> set types'
                   \<and> generateWalkForStruct (Struct n l fs) types' = Inr g))
    \<and> (\<forall>hb \<in> set (p_trait P). snd hb = [])"
proof -
  from fd obtain codes where
    codes: "inheritedCodes types' E inh [] = Some (codes, [])"
    and fd_eq: "fd = \<lparr>fd_name = WalkFn E, fd_param = ''node'',
           fd_body = [CallHook (EnterHook E) (Var ''node''),
                      Match (Var ''node'') (map (ownArm E) vs @ codes),
                      CallHook (ExitHook E) (Var ''node'')]\<rparr>"
    by (rule generateWalkForEnum_body)
  define arms where "arms = map (ownArm E) vs @ codes"
  have body: "fd_body fd = [CallHook (EnterHook E) (Var ''node''), Match (Var ''node'') arms,
                    CallHook (ExitHook E) (Var ''node'')]"
    using fd_eq arms_def by simp
  from inheritedCodes_arms[OF codes]
  have "list_all2 (inheritedArm types' E) inh codes" by simp
  from enum_arms_calls[OF this]
  have calls: "list_all (\<lambda>arm. \<exists>f e. snd arm = Call f e) arms"
    unfolding arms_def .
  then have quiet: "list_all (\<lambda>arm. no_stack_ops (snd arm)) arms"
    by (auto simp: list_all_iff)
  with body have none: "list_all no_stack_ops (fd_body fd)" by simp
  note ok = generated_program_ok[OF gen]
  from gen obtain t where
    t: "t = snd (generateAncestorsCode types)"
    and walk: "generateWalkFunctionsCode t = Some (Inr (p_walk P))"
    and trait: "p_trait P = generateTraverseTraitCode t"
    by (rule generate_program)
  from t types' have tt: "t = types'" by simp
  from walk obtain ms where
    fns: "p_walk P = ms @ [walk_statements]"
    and all: "list_all2 (generatedFor types') types' ms"
    unfolding tt by (rule generated_program)
  have dyn: "\<exists>s1 s2 var payload b c s3 s4.
              exec (Suc n) P vis (CallHook (EnterHook E) (Var ''node'')) s = Inr s1
            \<and> stack s1 = stack s
            \<and> read_expr (p_ancestor P) (env s1) (Var ''node'') = Some (VEnum var payload)
            \<and> select_arm arms var = Some (b, c)
            \<and> stack s3 = stack s \<and> exec n P vis c s3 = Inr s4 \<and> stack s4 = stack s
            \<and> exec (Suc n) P vis (Match (Var ''node'') arms) s1 = Inr s2
            \<and> stack s2 = stack s
            \<and> exec (Suc n) P vis (CallHook (ExitHook E) (Var ''node'')) s2 = Inr s'
            \<and> stack s' = stack s"
    if run: "execs (exec (Suc n) P vis) (fd_body fd) s = Inr s'" for n vis s s'
  proof -
    from run[unfolded body] obtain s1 where
      r1: "exec (Suc n) P vis (CallHook (EnterHook E) (Var ''node'')) s = Inr s1"
      and rest: "execs (exec (Suc n) P vis)
                   [Match (Var ''node'') arms, CallHook (ExitHook E) (Var ''node'')] s1 = Inr s'"
      by (rule execs_Cons[THEN iffD1, THEN exE]) blast
    from rest obtain s2 where
      r2: "exec (Suc n) P vis (Match (Var ''node'') arms) s1 = Inr s2"
      and rest2: "execs (exec (Suc n) P vis) [CallHook (ExitHook E) (Var ''node'')] s2 = Inr s'"
      by (rule execs_Cons[THEN iffD1, THEN exE]) blast
    from rest2 obtain s2' where
      r3: "exec (Suc n) P vis (CallHook (ExitHook E) (Var ''node'')) s2 = Inr s2'"
      and "execs (exec (Suc n) P vis) [] s2' = Inr s'"
      by (rule execs_Cons[THEN iffD1, THEN exE]) blast
    then have r3': "exec (Suc n) P vis (CallHook (ExitHook E) (Var ''node'')) s2 = Inr s'"
      by simp
    from exec_stack[OF ok r1] have k1: "stack s1 = stack s"
      by (simp add: same_stack_def)
    from exec_stack[OF ok r2] quiet have k2: "stack s2 = stack s1"
      by (simp add: same_stack_def)
    from exec_stack[OF ok r3'] have k3: "stack s' = stack s2"
      by (simp add: same_stack_def)
    from match_arm_run[OF ok calls r2] obtain var payload b c s3 s4 where
      "read_expr (p_ancestor P) (env s1) (Var ''node'') = Some (VEnum var payload)"
      "select_arm arms var = Some (b, c)"
      "stack s3 = stack s1" "exec n P vis c s3 = Inr s4" "stack s4 = stack s1"
      by blast
    with r1 r2 r3' k1 k2 k3 show ?thesis by (metis (no_types))
  qed
  have only: "\<exists>n l fs. Struct n l fs \<in> set types'
                   \<and> generateWalkForStruct (Struct n l fs) types' = Inr g"
    if g: "g \<in> set (p_walk P)" and ops: "\<not> list_all no_stack_ops (fd_body g)" for g
  proof -
    from ops have "g \<noteq> walk_statements" by (auto simp: walk_statements_def)
    with g fns have "g \<in> set ms" by simp
    then obtain i where i: "i < length ms" "g = ms ! i"
      by (auto simp: in_set_conv_nth)
    from all i have len: "i < length types'" and gi: "generatedFor types' (types' ! i) g"
      by (auto simp: list_all2_conv_all_nth)
    define t where "t = types' ! i"
    from len gi have tin: "t \<in> set types'" and gf: "generatedFor types' t g"
      unfolding t_def by simp_all
    show ?thesis
    proof (cases t)
      case (Struct n l fs)
      with tin gf show ?thesis by (auto simp: generatedFor_def)
    next
      case (Enum n l vs' inh')
      with gf have ge: "generateWalkForEnum (Enum n l vs' inh') types' = Some (Inr g)"
        by (simp add: generatedFor_def)
      then obtain cs where
        cs: "inheritedCodes types' n inh' [] = Some (cs, [])"
        and g_eq: "g = \<lparr>fd_name = WalkFn n, fd_param = ''node'',
           fd_body = [CallHook (EnterHook n) (Var ''node''),
                      Match (Var ''node'') (map (ownArm n) vs' @ cs),
                      CallHook (ExitHook n) (Var ''node'')]\<rparr>"
        by (rule generateWalkForEnum_body)
      from inheritedCodes_arms[OF cs]
      have "list_all2 (inheritedArm types' n) inh' cs" by simp
      from calls_no_stack_ops[OF enum_arms_calls[OF this]]
      have "list_all (\<lambda>arm. no_stack_ops (snd arm)) (map (ownArm n) vs' @ cs)" .
      with g_eq ops show ?thesis by simp
    qed
  qed
  have hooks: "snd hb = []" if "hb \<in> set (p_trait P)" for hb
    using that unfolding trait generateTraverseTraitCode_def by auto
  from body calls none dyn only hooks show ?thesis by blast
qed


theorem enum_walk_keeps_stack_witness:
  "\<exists>fd arms s'.
      generateWalkForEnum (ex_annotated ! 2) ex_annotated = Some (Inr fd)
    \<and> fd_body fd = [CallHook (EnterHook ''Expression'') (Var ''node''),
                    Match (Var ''node'') arms,
                    CallHook (ExitHook ''Expression'') (Var ''node'')]
    \<and> list_all no_stack_ops (fd_body fd)
    \<and> execs (exec 4 ex_program default_visitor) (fd_body fd)
         \<lparr>env = [(''node'', ex_number ''1'')], stack = [1], trace = []\<rparr> = Inr s'
    \<and> stack s' = [1]
    \<and> list_all (\<lambda>hb. snd hb = []) (p_trait ex_program)"
proof -
  define vs where "vs = (case ex_annotated ! 2 of Enum n l vs inh \<Rightarrow> vs | _ \<Rightarrow> [])"
  define inh where "inh = (case ex_annotated ! 2 of Enum n l vs inh \<Rightarrow> inh | _ \<Rightarrow> [])"
  let ?s = "\<lparr>env = [(''node'', ex_number ''1'')], stack = [1], trace = []\<rparr>"
  have s: "ex_annotated ! 2 = Enum ''Expression'' True vs inh"
    unfolding vs_def inh_def by code_simp
  have p: "generate ex_types = Some (Inr ex_program)" by code_simp
  have "generateWalkForEnum (Enum ''Expression'' True vs inh) ex_annotated \<noteq> None"
    "\<not> isl (the (generateWalkForEnum (Enum ''Expression'' True vs inh) ex_annotated))"
    unfolding vs_def inh_def by code_simp+
  then obtain fd where
    gen: "generateWalkForEnum (Enum ''Expression'' True vs inh) ex_annotated = Some (Inr fd)"
    by (cases "generateWalkForEnum (Enum ''Expression'' True vs inh) ex_annotated";
        cases "the (generateWalkForEnum (Enum ''Expression'' True vs inh) ex_annotated)")
       auto
  have "\<not> isl (execs (exec 4 ex_program default_visitor)
          (fd_body (projr (the (generateWalkForEnum (Enum ''Expression'' True vs inh)
                                  ex_annotated)))) ?s)"
    unfolding vs_def inh_def by code_simp
  with gen obtain s' where
    run': "execs (exec 4 ex_program default_visitor) (fd_body fd) ?s = Inr s'"
    by (cases "execs (exec 4 ex_program default_visitor) (fd_body fd) ?s")
       (auto simp del: exec.simps)
  have four: "(4::nat) = Suc 3" by simp
  note run = run'[unfolded four]
  from enum_walk_keeps_stack[OF p ex_annotated_def gen]
  obtain arms where
    a: "fd_body fd = [CallHook (EnterHook ''Expression'') (Var ''node''),
                     Match (Var ''node'') arms,
                     CallHook (ExitHook ''Expression'') (Var ''node'')]"
    and b: "list_all no_stack_ops (fd_body fd)"
    and c: "\<And>n vis s s'.
          execs (exec (Suc n) ex_program vis) (fd_body fd) s = Inr s' \<Longrightarrow> stack s' = stack s"
    and d: "\<forall>hb \<in> set (p_trait ex_program). snd hb = []"
    by blast
  from c[OF run] have e: "stack s' = [1]" by simp
  from d have f: "list_all (\<lambda>hb. snd hb = []) (p_trait ex_program)"
    by (simp add: list_all_iff)
  from gen a b run' e f show ?thesis unfolding s by blast
qed

subsection \<open>The annotated catalogue\<close>

lemma ancestorFields_annotated:
  "ancestorFields types T fs i rest d = (items, avs, rest', d')
   \<Longrightarrow> list_all2 (\<lambda>f f'. f_name f' = f_name f \<and> f_type f' = f_type f
                        \<and> f_rawName f' = f_rawName f \<and> offsetVarName f' = offsetVarName f
                        \<and> (types_get types (innerTypeName f) \<noteq> None
                             \<longrightarrow> ancestorDiscriminant f' \<noteq> None)) rest rest'"
proof (induction rest arbitrary: i d items avs rest' d')
  case Nil
  then show ?case by simp
next
  case (Cons f rest)
  show ?case
  proof (cases "types_get types (innerTypeName f)")
    case None
    with Cons.prems obtain r where
      rec: "ancestorFields types T fs (Suc i) rest d = (items, avs, r, d')"
      and eq: "rest' = f # r"
      by (auto split: prod.splits)
    from Cons.IH[OF rec] None eq show ?thesis by simp
  next
    case (Some ft)
    with Cons.prems obtain it vs r where
      rec: "ancestorFields types T fs (Suc i) rest (Suc d) = (it, vs, r, d')"
      and eq: "rest' = f\<lparr>ancestorDiscriminant := Some d\<rparr> # r"
      by (auto simp: Let_def split: prod.splits)
    from Cons.IH[OF rec] eq show ?thesis by simp
  qed
qed

lemma ancestorTypesLoop_annotated:
  "ancestorTypesLoop types ts d = (items, avs, ts', d')
   \<Longrightarrow> list_all2 (annotated types) ts ts'"
proof (induction types ts d arbitrary: items avs ts' d' rule: ancestorTypesLoop.induct)
  case (1 types d)
  then show ?case by simp
next
  case (2 types n l vs inh rest d)
  then show ?case by (auto simp: annotated_def split: prod.splits)
next
  case (3 types n l fs rest d)
  define fs1 where "fs1 = map (\<lambda>f. f\<lparr>offsetVarName := Some (OFFSET n (f_name f))\<rparr>) fs"
  obtain structs avs1 fs2 d1 where
    a: "ancestorFields types n fs1 0 fs1 d = (structs, avs1, fs2, d1)"
    by (cases "ancestorFields types n fs1 0 fs1 d") auto
  obtain it avs2 r d2 where
    b: "ancestorTypesLoop types rest d1 = (it, avs2, r, d2)"
    by (cases "ancestorTypesLoop types rest d1") auto
  from "3.prems" a b have eq: "ts' = Struct n l fs2 # r"
    by (auto simp: fs1_def Let_def)
  from "3.IH"[OF fs1_def refl a[symmetric] refl refl refl b]
  have tl: "list_all2 (annotated types) rest r" .
  have "list_all2 (\<lambda>f f1. f1 = f\<lparr>offsetVarName := Some (OFFSET n (f_name f))\<rparr>) fs fs1"
    unfolding fs1_def by (simp add: list_all2_conv_all_nth)
  from list_all2_trans[OF _ this ancestorFields_annotated[OF a],
      of "annotated_field types n"]
  have "list_all2 (annotated_field types n) fs fs2"
    by (simp add: annotated_field_def innerTypeName_def)
  then have "annotated types (Struct n l fs) (Struct n l fs2)"
    by (simp add: annotated_def)
  with tl eq show ?case by simp
qed

lemma generateAncestorsCode_annotated:
  "list_all2 (annotated types) types (snd (generateAncestorsCode types))"
proof -
  obtain items avs ts d where
    loop: "ancestorTypesLoop types types 1 = (items, avs, ts, d)"
    by (cases "ancestorTypesLoop types types 1") auto
  from ancestorTypesLoop_annotated[OF loop] loop show ?thesis
    by (simp add: generateAncestorsCode_def)
qed

lemma annotated_name: "annotated types t t' \<Longrightarrow> t_name t' = t_name t"
  by (auto simp: annotated_def split: type_def.splits)

lemma annotated_names:
  "list_all2 (annotated types) ts ts' \<Longrightarrow> map t_name ts' = map t_name ts"
  by (induction rule: list_all2_induct) (auto simp: annotated_name)

lemma types_get_None_iff: "types_get ts n = None \<longleftrightarrow> n \<notin> set (map t_name ts)"
  by (auto simp: types_get_def find_None_iff)

lemma annotated_types_get:
  assumes "list_all2 (annotated types) types types'"
  shows "types_get types' n = None \<longleftrightarrow> types_get types n = None"
  using annotated_names[OF assms] by (simp add: types_get_None_iff)

lemma annotated_mem:
  assumes "list_all2 (annotated types) ts ts'" and "t' \<in> set ts'"
  shows "\<exists>t \<in> set ts. annotated types t t'"
  using assms by (induction rule: list_all2_induct) auto

subsection \<open>Steps that succeed\<close>

lemma store_back:
  assumes "read_expr A (env s) e = Some v" and "env s1 = env s"
  shows "store A e (Inr (v, s1)) = Inr s1"
proof -
  from write_read_same[OF assms(1)] assms(2)
  have "write_expr A (env s1) e v = Some (env s1)" by simp
  then show ?thesis by (simp add: store_def)
qed

lemma in_scope_runs:
  assumes "keeps_env X" and "execs X body (s\<lparr>env := (x, w) # env s\<rparr>) = Inr t"
  shows "in_scope X x w body s = Inr (w, t\<lparr>env := env s\<rparr>)"
proof -
  from execs_env[OF assms] have "env t = (x, w) # env s" by simp
  with assms(2) show ?thesis by (simp add: in_scope_def)
qed

lemma run_CallHook:
  assumes "map_of (p_trait P) h = Some []"
    and "read_expr (p_ancestor P) (env s) e = Some v"
  shows "exec_stmt P default_visitor X (CallHook h e) s
         = Inr (s\<lparr>trace := trace s @ [EvHook h (stack s)]\<rparr>)"
proof -
  let ?s0 = "s\<lparr>trace := trace s @ [EvHook h (stack s)]\<rparr>"
  have "call_body X ''node'' [] v ?s0 = Inr (v, ?s0)"
    by (simp add: call_body_def)
  moreover have "store (p_ancestor P) e (Inr (v, ?s0)) = Inr ?s0"
    by (rule store_back[OF assms(2)]) simp
  ultimately show ?thesis
    using assms by (simp add: default_visitor_def)
qed

lemma run_Call:
  assumes "keeps_env X"
    and "find (\<lambda>fd. fd_name fd = f) (p_walk P) = Some fd"
    and "read_expr (p_ancestor P) (env s) e = Some v"
    and "execs X (fd_body fd) (s\<lparr>env := [(fd_param fd, v)]\<rparr>) = Inr s1"
  shows "exec_stmt P vis X (Call f e) s = Inr (s1\<lparr>env := env s\<rparr>)"
proof -
  from execs_env[OF assms(1,4)] have "env s1 = [(fd_param fd, v)]" by simp
  with assms(4) have "call_body X (fd_param fd) (fd_body fd) v s = Inr (v, s1\<lparr>env := env s\<rparr>)"
    by (simp add: call_body_def)
  moreover have "store (p_ancestor P) e (Inr (v, s1\<lparr>env := env s\<rparr>)) = Inr (s1\<lparr>env := env s\<rparr>)"
    by (rule store_back[OF assms(3)]) simp
  ultimately show ?thesis using assms(2,3) by simp
qed

lemma run_IfNone:
  "read_expr (p_ancestor P) (env s) e = Some VNone
   \<Longrightarrow> exec_stmt P vis X (IfLetSome x e body) s = Inr s"
  by simp

lemma run_IfSome:
  assumes "keeps_env X"
    and "read_expr (p_ancestor P) (env s) e = Some (VSome w)"
    and "execs X body (s\<lparr>env := (x, w) # env s\<rparr>) = Inr s1"
  shows "exec_stmt P vis X (IfLetSome x e body) s = Inr (s1\<lparr>env := env s\<rparr>)"
proof -
  note in_scope_runs[OF assms(1,3)]
  moreover have "store (p_ancestor P) e (Inr (VSome w, s1\<lparr>env := env s\<rparr>))
                 = Inr (s1\<lparr>env := env s\<rparr>)"
    by (rule store_back[OF assms(2)]) simp
  ultimately show ?thesis using assms(2) by simp
qed

lemma run_ForIn:
  assumes "keeps_env X"
    and "read_expr (p_ancestor P) (env s) e = Some (VVec items)"
    and "for_each X x fl body items s = Inr r"
  shows "exec_stmt P vis X (ForIn x e fl body) s = Inr (snd r)"
proof -
  obtain items' s1 where r: "r = (items', s1)" by (cases r)
  from for_each_env[OF assms(1) assms(3)[unfolded r]]
  have eq: "items' = items" "env s1 = env s" by simp_all
  have "store (p_ancestor P) e (Inr (VVec items, s1)) = Inr s1"
    by (rule store_back[OF assms(2) eq(2)])
  with assms(2,3) r eq show ?thesis by simp
qed

lemma run_Match_bind:
  assumes "keeps_env X"
    and "read_expr (p_ancestor P) (env s) e = Some (VEnum var payload)"
    and "select_arm arms var = Some (Some x, c)"
    and "X c (s\<lparr>env := (x, payload) # env s\<rparr>) = Inr t"
  shows "exec_stmt P vis X (Match e arms) s = Inr (t\<lparr>env := env s\<rparr>)"
proof -
  from assms(4) have "execs X [c] (s\<lparr>env := (x, payload) # env s\<rparr>) = Inr t" by simp
  note in_scope_runs[OF assms(1) this]
  moreover have "store (p_ancestor P) e (Inr (VEnum var payload, t\<lparr>env := env s\<rparr>))
                 = Inr (t\<lparr>env := env s\<rparr>)"
    by (rule store_back[OF assms(2)]) simp
  ultimately show ?thesis using assms(2,3) by simp
qed

lemma run_Match_pass:
  "read_expr (p_ancestor P) (env s) e = Some (VEnum var payload)
   \<Longrightarrow> select_arm arms var = Some (None, c) \<Longrightarrow> X c s = Inr t
   \<Longrightarrow> exec_stmt P vis X (Match e arms) s = Inr t"
  by simp

lemma for_each_plain:
  assumes X: "keeps_env X"
    and each: "\<And>it t. it \<in> set items \<Longrightarrow> env t = en
                 \<Longrightarrow> \<exists>t'. execs X body (t\<lparr>env := (x, it) # env t\<rparr>) = Inr t'"
  shows "env s = en \<Longrightarrow> \<exists>r. for_each X x False body items s = Inr r"
  using each
proof (induction items arbitrary: s)
  case Nil
  then show ?case by simp
next
  case (Cons item items)
  from Cons.prems(2)[of item s] Cons.prems(1) obtain t where
    t: "execs X body (s\<lparr>env := (x, item) # env s\<rparr>) = Inr t" by auto
  note a = in_scope_runs[OF X t]
  have "env (t\<lparr>env := env s\<rparr>) = en" using Cons.prems(1) by simp
  from Cons.IH[OF this] Cons.prems(2) obtain r where
    r: "for_each X x False body items (t\<lparr>env := env s\<rparr>) = Inr r" by auto
  obtain is1 s1 where "r = (is1, s1)" by (cases r)
  with a r show ?case by simp
qed

lemma for_each_flat:
  assumes X: "keeps_env X"
    and each: "\<And>it t. it \<in> set items \<Longrightarrow> env t = en
                 \<Longrightarrow> it = VNone
                     \<or> (\<exists>w t'. it = VSome w
                           \<and> execs X body (t\<lparr>env := (x, w) # env t\<rparr>) = Inr t')"
  shows "env s = en \<Longrightarrow> \<exists>r. for_each X x True body items s = Inr r"
  using each
proof (induction items arbitrary: s)
  case Nil
  then show ?case by simp
next
  case (Cons item items)
  from Cons.prems(2)[of item s] Cons.prems(1)
  consider "item = VNone"
    | w t where "item = VSome w" "execs X body (s\<lparr>env := (x, w) # env s\<rparr>) = Inr t"
    by auto
  then show ?case
  proof cases
    case 1
    from Cons.IH[OF Cons.prems(1)] Cons.prems(2) obtain r where
      r: "for_each X x True body items s = Inr r" by auto
    obtain is1 s1 where "r = (is1, s1)" by (cases r)
    with 1 r show ?thesis by simp
  next
    case 2
    note a = in_scope_runs[OF X 2(2)]
    have "env (t\<lparr>env := env s\<rparr>) = en" using Cons.prems(1) by simp
    from Cons.IH[OF this] Cons.prems(2) obtain r where
      r: "for_each X x True body items (t\<lparr>env := env s\<rparr>) = Inr r" by auto
    obtain is1 s1 where "r = (is1, s1)" by (cases r)
    with 2(1) a r show ?thesis by simp
  qed
qed

subsection \<open>Code that runs to its end\<close>

lemma keeps_env_exec: "keeps_env (exec n P default_visitor)"
  unfolding keeps_env_def using exec_env by blast

lemma ge_SucE:
  assumes "Suc k \<le> m"
  obtains m1 where "m = Suc m1" "k \<le> m1"
  using assms by (cases m) auto

lemma walks_mono: "walks P n T v \<Longrightarrow> n \<le> m \<Longrightarrow> walks P m T v"
  unfolding walks_def by (meson order_trans)

lemma walksW_mono: "walksW P n ws T v \<Longrightarrow> n \<le> m \<Longrightarrow> walksW P m ws T v"
proof (induction ws arbitrary: v)
  case Nil
  then show ?case by (simp add: walks_mono)
next
  case (Cons w ws)
  from Cons.prems show ?case
    by (auto simp: list_all_iff Cons.IH split: if_splits val.splits)
qed

lemma runs_from_call:
  assumes "walks P n T v" and "n \<le> m" and "read_expr (p_ancestor P) en e = Some v"
  shows "runs_from (exec (Suc m) P default_visitor) [Call (WalkFn T) e] en"
  unfolding runs_from_def
proof (intro allI impI)
  fix t :: rstate
  assume en: "env t = en"
  from assms(1) obtain fd where
    fd: "find (\<lambda>fd. fd_name fd = WalkFn T) (p_walk P) = Some fd"
    and run: "\<And>m s. n \<le> m \<Longrightarrow> \<exists>s'. execs (exec m P default_visitor) (fd_body fd)
                                   (s\<lparr>env := [(fd_param fd, v)]\<rparr>) = Inr s'"
    unfolding walks_def by blast
  from run[OF assms(2), of t] obtain s1 where
    s1: "execs (exec m P default_visitor) (fd_body fd) (t\<lparr>env := [(fd_param fd, v)]\<rparr>) = Inr s1"
    by blast
  from assms(3) en have rd: "read_expr (p_ancestor P) (env t) e = Some v" by simp
  from run_Call[OF keeps_env_exec fd rd s1]
  show "\<exists>t'. execs (exec (Suc m) P default_visitor) [Call (WalkFn T) e] t = Inr t'"
    by simp
qed

lemma runs_from_for_plain:
  assumes rd: "read_expr (p_ancestor P) en e = Some (VVec items)"
    and each: "\<And>it. it \<in> set items
                 \<Longrightarrow> runs_from (exec m P default_visitor) body ((x, it) # en)"
  shows "runs_from (exec (Suc m) P default_visitor) [ForIn x e False body] en"
  unfolding runs_from_def
proof (intro allI impI)
  fix t :: rstate
  assume en: "env t = en"
  have "\<exists>r. for_each (exec m P default_visitor) x False body items t = Inr r"
  proof (rule for_each_plain[OF keeps_env_exec _ en])
    fix it and u :: rstate
    assume "it \<in> set items" "env u = en"
    with each[of it]
    show "\<exists>t'. execs (exec m P default_visitor) body (u\<lparr>env := (x, it) # env u\<rparr>) = Inr t'"
      unfolding runs_from_def by simp
  qed
  then obtain r where "for_each (exec m P default_visitor) x False body items t = Inr r" ..
  from run_ForIn[OF keeps_env_exec _ this, of P e] rd en
  show "\<exists>t'. execs (exec (Suc m) P default_visitor) [ForIn x e False body] t = Inr t'"
    by simp
qed

lemma runs_from_for_flat:
  assumes rd: "read_expr (p_ancestor P) en e = Some (VVec items)"
    and each: "\<And>it. it \<in> set items
                 \<Longrightarrow> it = VNone
                     \<or> (\<exists>w. it = VSome w
                           \<and> runs_from (exec m P default_visitor) body ((x, w) # en))"
  shows "runs_from (exec (Suc m) P default_visitor) [ForIn x e True body] en"
  unfolding runs_from_def
proof (intro allI impI)
  fix t :: rstate
  assume en: "env t = en"
  have "\<exists>r. for_each (exec m P default_visitor) x True body items t = Inr r"
  proof (rule for_each_flat[OF keeps_env_exec _ en])
    fix it and u :: rstate
    assume "it \<in> set items" "env u = en"
    with each[of it]
    show "it = VNone
          \<or> (\<exists>w t'. it = VSome w
                \<and> execs (exec m P default_visitor) body (u\<lparr>env := (x, w) # env u\<rparr>) = Inr t')"
      unfolding runs_from_def by auto
  qed
  then obtain r where "for_each (exec m P default_visitor) x True body items t = Inr r" ..
  from run_ForIn[OF keeps_env_exec _ this, of P e] rd en
  show "\<exists>t'. execs (exec (Suc m) P default_visitor) [ForIn x e True body] t = Inr t'"
    by simp
qed

lemma generated_walk_statements:
  assumes "generate types = Some (Inr P)"
  shows "find (\<lambda>fd. fd_name fd = WalkStatements) (p_walk P) = Some walk_statements"
proof -
  from assms obtain types' where
    walk: "generateWalkFunctionsCode types' = Some (Inr (p_walk P))"
    by (rule generate_program)
  from walk obtain ms where
    fns: "p_walk P = ms @ [walk_statements]"
    and all: "list_all2 (generatedFor types') types' ms"
    by (rule generated_program)
  have "find (\<lambda>fd. fd_name fd = WalkStatements) (ms @ rest)
        = find (\<lambda>fd. fd_name fd = WalkStatements) rest" for rest
    using all
  proof (induction rule: list_all2_induct)
    case Nil
    show ?case by simp
  next
    case (Cons t ts fd fds)
    from generatedFor_name[OF Cons.hyps(1)] Cons.IH show ?case by simp
  qed
  with fns show ?thesis by (simp add: walk_statements_def)
qed

lemma generated_trait:
  assumes "generate types = Some (Inr P)"
    and "h \<in> {EnterStatements, ExitStatements}
         \<or> (\<exists>t \<in> set (snd (generateAncestorsCode types)).
               h = EnterHook (t_name t) \<or> h = ExitHook (t_name t))"
  shows "map_of (p_trait P) h = Some []"
proof -
  from assms(1) obtain types' where
    t: "types' = snd (generateAncestorsCode types)"
    and trait: "p_trait P = generateTraverseTraitCode types'"
    by (rule generate_program)
  from assms(2) have "h \<in> fst ` set (p_trait P)"
    unfolding trait generateTraverseTraitCode_def t by force
  then obtain b where b: "map_of (p_trait P) h = Some b"
    by (cases "map_of (p_trait P) h") (auto simp: map_of_eq_None_iff)
  from map_of_SomeD[OF b] have "b = []"
    unfolding trait generateTraverseTraitCode_def by auto
  with b show ?thesis by simp
qed

lemma execs_single: "execs X [c] s = Inr s' \<longleftrightarrow> X c s = Inr s'"
  by (cases "X c s") simp_all

lemma runs_fromD: "runs_from X cs en \<Longrightarrow> env t = en \<Longrightarrow> \<exists>t'. execs X cs t = Inr t'"
  by (simp add: runs_from_def)

lemma runs_from_statements:
  assumes gen: "generate types = Some (Inr P)"
    and items: "list_all (walks P n ''Statement'') items"
    and rd: "read_expr (p_ancestor P) en e = Some (VVec items)"
    and m: "n + 2 \<le> m"
  shows "runs_from (exec (Suc m) P default_visitor) [Call WalkStatements e] en"
  unfolding runs_from_def
proof (intro allI impI)
  fix t :: rstate
  assume en: "env t = en"
  from m obtain m1 where m1: "m = Suc m1" "n + 1 \<le> m1"
    by (cases m) auto
  from m1(2) obtain m2 where m2: "m1 = Suc m2" "n \<le> m2"
    by (cases m1) auto
  let ?X = "exec (Suc m1) P default_visitor"
  let ?t0 = "t\<lparr>env := [(''stmts'', VVec items)]\<rparr>"
  let ?t1 = "?t0\<lparr>trace := trace ?t0 @ [EvHook EnterStatements (stack ?t0)]\<rparr>"
  have h1: "?X (CallHook EnterStatements (Var ''stmts'')) ?t0 = Inr ?t1"
    unfolding exec.simps
    by (rule run_CallHook[OF generated_trait[OF gen]]) simp_all
  have "runs_from ?X
          [ForIn ''stmt'' (Var ''stmts'') False [Call (WalkFn ''Statement'') (Var ''stmt'')]]
          [(''stmts'', VVec items)]"
  proof (rule runs_from_for_plain)
    show "read_expr (p_ancestor P) [(''stmts'', VVec items)] (Var ''stmts'') = Some (VVec items)"
      by simp
  next
    fix it assume "it \<in> set items"
    with items have "walks P n ''Statement'' it" by (simp add: list_all_iff)
    from runs_from_call[OF this m2(2), of "(''stmt'', it) # [(''stmts'', VVec items)]"
        "Var ''stmt''"]
    show "runs_from (exec m1 P default_visitor) [Call (WalkFn ''Statement'') (Var ''stmt'')]
            ((''stmt'', it) # [(''stmts'', VVec items)])"
      unfolding m2(1) by simp
  qed
  from runs_fromD[OF this, of ?t1] obtain t2 where
    "execs ?X [ForIn ''stmt'' (Var ''stmts'') False
                 [Call (WalkFn ''Statement'') (Var ''stmt'')]] ?t1 = Inr t2"
    by auto
  then have
    h2: "?X (ForIn ''stmt'' (Var ''stmts'') False [Call (WalkFn ''Statement'') (Var ''stmt'')])
           ?t1 = Inr t2"
    by (simp only: execs_single)
  from exec_env[OF h2] have e2: "env t2 = [(''stmts'', VVec items)]" by simp
  let ?t3 = "t2\<lparr>trace := trace t2 @ [EvHook ExitStatements (stack t2)]\<rparr>"
  have h3: "?X (CallHook ExitStatements (Var ''stmts'')) t2 = Inr ?t3"
    unfolding exec.simps
    by (rule run_CallHook[OF generated_trait[OF gen]]) (simp_all add: e2)
  from h1 h2 h3 have body: "execs ?X (fd_body walk_statements)
      (t\<lparr>env := [(fd_param walk_statements, VVec items)]\<rparr>) = Inr ?t3"
    by (simp add: walk_statements_def del: exec.simps)
  from rd en have rd': "read_expr (p_ancestor P) (env t) e = Some (VVec items)" by simp
  from run_Call[OF keeps_env_exec generated_walk_statements[OF gen] rd' body]
  show "\<exists>t'. execs (exec (Suc m) P default_visitor) [Call WalkStatements e] t = Inr t'"
    unfolding m1(1) by simp
qed

lemma fieldCodeFor_shapes:
  assumes "fieldCodeFor f k = Inr code"
  shows "(wrappers (f_type f) = [''Option'', ''Vec''] \<and> inner (f_type f) = ''Statement''
          \<and> code = [IfLetSome ''field'' (FieldPtr (offsetVarName f) (f_type f))
                      ((if k = 0 then [] else [RetagStack (ancestorDiscriminant f)])
                       @ [Call WalkStatements (Var ''field'')])])
       \<or> (wrappers (f_type f) = [''Option'', ''Vec'']
          \<and> code = [IfLetSome ''field'' (FieldPtr (offsetVarName f) (f_type f))
                      ((if k = 0 then [] else [RetagStack (ancestorDiscriminant f)])
                       @ [ForIn ''item'' (Var ''field'') False
                            [Call (WalkFn (inner (f_type f))) (Var ''item'')]])])
       \<or> (wrappers (f_type f) = [''Option'', ''Box'']
          \<and> code = [IfLetSome ''field'' (FieldPtr (offsetVarName f) (f_type f))
                      ((if k = 0 then [] else [RetagStack (ancestorDiscriminant f)])
                       @ [Call (WalkFn (inner (f_type f))) (Unbox (Var ''field''))])])
       \<or> (wrappers (f_type f) = [''Option'']
          \<and> code = [IfLetSome ''field'' (FieldPtr (offsetVarName f) (f_type f))
                      ((if k = 0 then [] else [RetagStack (ancestorDiscriminant f)])
                       @ [Call (WalkFn (inner (f_type f))) (Var ''field'')])])
       \<or> (wrappers (f_type f) = [''Vec''] \<and> inner (f_type f) = ''Statement''
          \<and> code = (if k = 0 then [] else [RetagStack (ancestorDiscriminant f)])
                   @ [Call WalkStatements (FieldPtr (offsetVarName f) (f_type f))])
       \<or> (wrappers (f_type f) = [''Vec'', ''Option'']
          \<and> code = (if k = 0 then [] else [RetagStack (ancestorDiscriminant f)])
                   @ [ForIn ''item'' (FieldPtr (offsetVarName f) (f_type f)) True
                        [Call (WalkFn (inner (f_type f))) (Var ''item'')]])
       \<or> (wrappers (f_type f) = [''Vec'']
          \<and> code = (if k = 0 then [] else [RetagStack (ancestorDiscriminant f)])
                   @ [ForIn ''item'' (FieldPtr (offsetVarName f) (f_type f)) False
                        [Call (WalkFn (inner (f_type f))) (Var ''item'')]])
       \<or> (wrappers (f_type f) = [''Box'']
          \<and> code = (if k = 0 then [] else [RetagStack (ancestorDiscriminant f)])
                   @ [Call (WalkFn (inner (f_type f)))
                        (Unbox (FieldPtr (offsetVarName f) (f_type f)))])
       \<or> (wrappers (f_type f) = []
          \<and> code = (if k = 0 then [] else [RetagStack (ancestorDiscriminant f)])
                   @ [Call (WalkFn (inner (f_type f)))
                        (FieldPtr (offsetVarName f) (f_type f))])"
proof (cases "wrappers (f_type f)")
  case Nil
  with assms show ?thesis
    unfolding fieldCodeFor_def typeAndWrappers_def Let_def by (simp split: if_splits)
next
  case (Cons w ws)
  with assms show ?thesis
    unfolding fieldCodeFor_def typeAndWrappers_def Let_def
    by (cases ws) (simp_all split: if_splits)
qed

lemma retag_prefix:
  assumes "dopt \<noteq> None" and "stack s \<noteq> []"
    and "runs_from (exec (Suc m) P default_visitor) rest (env s)"
  shows "\<exists>s'. execs (exec (Suc m) P default_visitor)
                ((if k = 0 then [] else [RetagStack dopt]) @ rest) s = Inr s'"
proof (cases "k = 0")
  case True
  with runs_fromD[OF assms(3) refl] show ?thesis by simp
next
  case False
  from assms(1) obtain d where d: "dopt = Some d" by auto
  from assms(2) obtain x xs where xs: "stack s = x # xs" by (cases "stack s") auto
  let ?s1 = "s\<lparr>stack := d # xs, trace := trace s @ [EvRetag d]\<rparr>"
  have a: "exec (Suc m) P default_visitor (RetagStack dopt) s = Inr ?s1"
    using d xs by simp
  from runs_fromD[OF assms(3), of ?s1] obtain s' where
    "execs (exec (Suc m) P default_visitor) rest ?s1 = Inr s'" by auto
  with a False show ?thesis by (simp del: exec.simps)
qed

lemma option_field_runs:
  assumes rd: "read_expr (p_ancestor P) (env s) e = Some v"
    and v: "v = VNone
            \<or> (\<exists>u. v = VSome u
                  \<and> runs_from (exec (Suc m) P default_visitor) rest ((x, u) # env s))"
    and d: "dopt \<noteq> None" and st: "stack s \<noteq> []"
  shows "\<exists>s'. execs (exec (Suc (Suc m)) P default_visitor)
                [IfLetSome x e ((if k = 0 then [] else [RetagStack dopt]) @ rest)] s = Inr s'"
proof -
  from v consider "v = VNone"
    | u where "v = VSome u" "runs_from (exec (Suc m) P default_visitor) rest ((x, u) # env s)"
    by blast
  then show ?thesis
  proof cases
    case 1
    with rd show ?thesis by simp
  next
    case 2
    let ?s1 = "s\<lparr>env := (x, u) # env s\<rparr>"
    from 2(2) have "runs_from (exec (Suc m) P default_visitor) rest (env ?s1)" by simp
    from retag_prefix[OF d _ this, of k] st obtain s2 where
      s2: "execs (exec (Suc m) P default_visitor)
             ((if k = 0 then [] else [RetagStack dopt]) @ rest) ?s1 = Inr s2"
      by auto
    from run_IfSome[OF keeps_env_exec rd[unfolded 2(1)] s2]
    show ?thesis by (simp only: execs_single exec.simps) blast
  qed
qed

lemma fieldCode_runs:
  assumes gen: "generate types = Some (Inr P)"
    and code: "fieldCodeFor f k = Inr code"
    and rd: "read_expr (p_ancestor P) (env s)
               (FieldPtr (offsetVarName f) (f_type f)) = Some v"
    and dsc: "ancestorDiscriminant f \<noteq> None"
    and w: "walksW P n (wrappers (f_type f)) (inner (f_type f)) v"
    and st: "stack s \<noteq> []"
    and m: "n + 4 \<le> m"
  shows "\<exists>s'. execs (exec m P default_visitor) code s = Inr s'"
proof -
  let ?T = "inner (f_type f)"
  let ?FP = "FieldPtr (offsetVarName f) (f_type f)"
  let ?A = "p_ancestor P"
  from m obtain m1 where m1: "m = Suc m1" "n + 3 \<le> m1" by (cases m) auto
  from m1(2) obtain m2 where m2: "m1 = Suc m2" "n + 2 \<le> m2" by (cases m1) auto
  from m2(2) obtain m3 where m3: "m2 = Suc m3" "n + 1 \<le> m3" by (cases m2) auto
  from m3(2) obtain m4 where m4: "m3 = Suc m4" "n \<le> m4" by (cases m3) auto
  have n2: "n \<le> m2" "n \<le> m1" "n \<le> m3" "n + 2 \<le> m1" using m2 m3 m4 by simp_all
  have m3n: "n \<le> m3" using m3 by simp
  \<comment> \<open>the five forms of the code after the retag, for an expression that reads \<open>u\<close>\<close>
  have call: "runs_from (exec (Suc k') P default_visitor) [Call (WalkFn ?T) e] en"
    if "walks P n ?T u" "read_expr ?A en e = Some u" "n \<le> k'" for u e en k'
    using runs_from_call[OF that(1,3,2)] .
  have unbox: "runs_from (exec (Suc k') P default_visitor) [Call (WalkFn ?T) (Unbox e)] en"
    if "walksW P n [''Box''] ?T u" "read_expr ?A en e = Some u" "n \<le> k'" for u e en k'
  proof -
    from that(1) obtain u' where u': "u = VBox u'" "walks P n ?T u'"
      by (cases u) auto
    with that(2) have "read_expr ?A en (Unbox e) = Some u'" by simp
    from runs_from_call[OF u'(2) that(3) this] show ?thesis .
  qed
  have plain: "runs_from (exec (Suc (Suc k')) P default_visitor)
                 [ForIn ''item'' e False [Call (WalkFn ?T) (Var ''item'')]] en"
    if "walksW P n [''Vec''] ?T u" "read_expr ?A en e = Some u" "n \<le> k'" for u e en k'
  proof -
    from that(1) obtain us where us: "u = VVec us" "list_all (walks P n ?T) us"
      by (cases u) (auto simp: list_all_iff)
    show ?thesis
    proof (rule runs_from_for_plain)
      show "read_expr ?A en e = Some (VVec us)" using that(2) us(1) by simp
    next
      fix it assume "it \<in> set us"
      with us(2) have "walks P n ?T it" by (simp add: list_all_iff)
      from runs_from_call[OF this that(3), of "(''item'', it) # en" "Var ''item''"]
      show "runs_from (exec (Suc k') P default_visitor)
              [Call (WalkFn ?T) (Var ''item'')] ((''item'', it) # en)"
        by simp
    qed
  qed
  have flat: "runs_from (exec (Suc (Suc k')) P default_visitor)
                 [ForIn ''item'' e True [Call (WalkFn ?T) (Var ''item'')]] en"
    if "walksW P n [''Vec'', ''Option''] ?T u" "read_expr ?A en e = Some u" "n \<le> k'"
    for u e en k'
  proof -
    from that(1) obtain us where us: "u = VVec us" "list_all (walksW P n [''Option''] ?T) us"
      by (cases u) (auto simp: list_all_iff)
    show ?thesis
    proof (rule runs_from_for_flat)
      show "read_expr ?A en e = Some (VVec us)" using that(2) us(1) by simp
    next
      fix it assume "it \<in> set us"
      with us(2) have it: "walksW P n [''Option''] ?T it" by (simp add: list_all_iff)
      show "it = VNone
            \<or> (\<exists>w. it = VSome w
                  \<and> runs_from (exec (Suc k') P default_visitor)
                      [Call (WalkFn ?T) (Var ''item'')] ((''item'', w) # en))"
      proof (cases it)
        case (VSome w)
        with it have "walks P n ?T w" by simp
        from runs_from_call[OF this that(3), of "(''item'', w) # en" "Var ''item''"] VSome
        show ?thesis by simp
      qed (use it in auto)
    qed
  qed
  have stmts: "runs_from (exec (Suc k') P default_visitor) [Call WalkStatements e] en"
    if "walksW P n [''Vec''] ''Statement'' u" "read_expr ?A en e = Some u" "n + 2 \<le> k'"
    for u e en k'
  proof -
    from that(1) obtain us where us: "u = VVec us" "list_all (walks P n ''Statement'') us"
      by (cases u) (auto simp: list_all_iff)
    from that(2) us(1) have "read_expr ?A en e = Some (VVec us)" by simp
    from runs_from_statements[OF gen us(2) this that(3)] show ?thesis .
  qed
  \<comment> \<open>an \<open>Option\<close> field: the rest of the wrappers apply to what the \<open>Some\<close> holds\<close>
  have opt: "v = VNone
             \<or> (\<exists>u. v = VSome u \<and> walksW P n ws ?T u
                   \<and> read_expr ?A ((''field'', u) # env s) (Var ''field'') = Some u)"
    if "wrappers (f_type f) = ''Option'' # ws" for ws
    using w unfolding that by (cases v) auto
  from fieldCodeFor_shapes[OF code] show ?thesis
  proof (elim disjE conjE)
    assume ws: "wrappers (f_type f) = [''Option'', ''Vec'']"
      and T: "?T = ''Statement''"
      and c: "code = [IfLetSome ''field'' ?FP
                      ((if k = 0 then [] else [RetagStack (ancestorDiscriminant f)])
                       @ [Call WalkStatements (Var ''field'')])]"
    have "v = VNone
          \<or> (\<exists>u. v = VSome u
                \<and> runs_from (exec (Suc m2) P default_visitor)
                    [Call WalkStatements (Var ''field'')] ((''field'', u) # env s))"
      using opt[OF ws]
    proof (elim disjE exE conjE)
      fix u assume u: "v = VSome u" "walksW P n [''Vec''] ?T u"
        "read_expr ?A ((''field'', u) # env s) (Var ''field'') = Some u"
      from stmts[OF _ u(3) m2(2)] u(2) T
      have "runs_from (exec (Suc m2) P default_visitor)
              [Call WalkStatements (Var ''field'')] ((''field'', u) # env s)" by simp
      with u(1) show ?thesis by blast
    qed simp
    from option_field_runs[OF rd this dsc st, of k] show ?thesis
      unfolding c m1 m2 by simp
  next
    assume ws: "wrappers (f_type f) = [''Option'', ''Vec'']"
      and c: "code = [IfLetSome ''field'' ?FP
                      ((if k = 0 then [] else [RetagStack (ancestorDiscriminant f)])
                       @ [ForIn ''item'' (Var ''field'') False
                            [Call (WalkFn (inner (f_type f))) (Var ''item'')]])]"
    have "v = VNone
          \<or> (\<exists>u. v = VSome u
                \<and> runs_from (exec (Suc m2) P default_visitor)
                    [ForIn ''item'' (Var ''field'') False
                            [Call (WalkFn (inner (f_type f))) (Var ''item'')]] ((''field'', u) # env s))"
      using opt[OF ws]
    proof (elim disjE exE conjE)
      fix u assume u: "v = VSome u" "walksW P n [''Vec''] ?T u"
        "read_expr ?A ((''field'', u) # env s) (Var ''field'') = Some u"
      from plain[OF u(2) u(3) m3n] m3(1)
      have "runs_from (exec (Suc m2) P default_visitor)
              [ForIn ''item'' (Var ''field'') False
                 [Call (WalkFn (inner (f_type f))) (Var ''item'')]] ((''field'', u) # env s)"
        by simp
      with u(1) show ?thesis by blast
    qed simp
    from option_field_runs[OF rd this dsc st, of k] show ?thesis
      unfolding c m1 m2 by simp
  next
    assume ws: "wrappers (f_type f) = [''Option'', ''Box'']"
      and c: "code = [IfLetSome ''field'' ?FP
                      ((if k = 0 then [] else [RetagStack (ancestorDiscriminant f)])
                       @ [Call (WalkFn (inner (f_type f))) (Unbox (Var ''field''))])]"
    have "v = VNone
          \<or> (\<exists>u. v = VSome u
                \<and> runs_from (exec (Suc m2) P default_visitor)
                    [Call (WalkFn (inner (f_type f))) (Unbox (Var ''field''))] ((''field'', u) # env s))"
      using opt[OF ws]
    proof (elim disjE exE conjE)
      fix u assume u: "v = VSome u" "walksW P n [''Box''] ?T u"
        "read_expr ?A ((''field'', u) # env s) (Var ''field'') = Some u"
      from unbox[OF u(2) u(3) n2(1)]
      have "runs_from (exec (Suc m2) P default_visitor)
              [Call (WalkFn (inner (f_type f))) (Unbox (Var ''field''))]
              ((''field'', u) # env s)" .
      with u(1) show ?thesis by blast
    qed simp
    from option_field_runs[OF rd this dsc st, of k] show ?thesis
      unfolding c m1 m2 by simp
  next
    assume ws: "wrappers (f_type f) = [''Option'']"
      and c: "code = [IfLetSome ''field'' ?FP
                      ((if k = 0 then [] else [RetagStack (ancestorDiscriminant f)])
                       @ [Call (WalkFn (inner (f_type f))) (Var ''field'')])]"
    have "v = VNone
          \<or> (\<exists>u. v = VSome u
                \<and> runs_from (exec (Suc m2) P default_visitor)
                    [Call (WalkFn (inner (f_type f))) (Var ''field'')] ((''field'', u) # env s))"
      using opt[OF ws]
    proof (elim disjE exE conjE)
      fix u assume u: "v = VSome u" "walksW P n [] ?T u"
        "read_expr ?A ((''field'', u) # env s) (Var ''field'') = Some u"
      from u(2) have "walks P n ?T u" by simp
      from call[OF this u(3) n2(1)]
      have "runs_from (exec (Suc m2) P default_visitor)
              [Call (WalkFn (inner (f_type f))) (Var ''field'')]
              ((''field'', u) # env s)" .
      with u(1) show ?thesis by blast
    qed simp
    from option_field_runs[OF rd this dsc st, of k] show ?thesis
      unfolding c m1 m2 by simp
  next
    assume ws: "wrappers (f_type f) = [''Vec'']"
      and T: "?T = ''Statement''"
      and c: "code = (if k = 0 then [] else [RetagStack (ancestorDiscriminant f)])
                   @ [Call WalkStatements (FieldPtr (offsetVarName f) (f_type f))]"
    from w ws T have "walksW P n [''Vec''] ''Statement'' v" by simp
    from stmts[OF this rd n2(4)]
    have "runs_from (exec (Suc m1) P default_visitor)
            [Call WalkStatements (FieldPtr (offsetVarName f) (f_type f))] (env s)" .
    from retag_prefix[OF dsc st this, of k] show ?thesis
      unfolding c m1 by simp
  next
    assume ws: "wrappers (f_type f) = [''Vec'', ''Option'']"
      and c: "code = (if k = 0 then [] else [RetagStack (ancestorDiscriminant f)])
                   @ [ForIn ''item'' (FieldPtr (offsetVarName f) (f_type f)) True
                        [Call (WalkFn (inner (f_type f))) (Var ''item'')]]"
    from w ws have "walksW P n [''Vec'', ''Option''] ?T v" by simp
    from flat[OF this rd n2(1)] m2(1)
    have "runs_from (exec (Suc m1) P default_visitor)
            [ForIn ''item'' (FieldPtr (offsetVarName f) (f_type f)) True
               [Call (WalkFn (inner (f_type f))) (Var ''item'')]] (env s)" by simp
    from retag_prefix[OF dsc st this, of k] show ?thesis
      unfolding c m1 by simp
  next
    assume ws: "wrappers (f_type f) = [''Vec'']"
      and c: "code = (if k = 0 then [] else [RetagStack (ancestorDiscriminant f)])
                   @ [ForIn ''item'' (FieldPtr (offsetVarName f) (f_type f)) False
                        [Call (WalkFn (inner (f_type f))) (Var ''item'')]]"
    from w ws have "walksW P n [''Vec''] ?T v" by simp
    from plain[OF this rd n2(1)] m2(1)
    have "runs_from (exec (Suc m1) P default_visitor)
            [ForIn ''item'' (FieldPtr (offsetVarName f) (f_type f)) False
               [Call (WalkFn (inner (f_type f))) (Var ''item'')]] (env s)" by simp
    from retag_prefix[OF dsc st this, of k] show ?thesis
      unfolding c m1 by simp
  next
    assume ws: "wrappers (f_type f) = [''Box'']"
      and c: "code = (if k = 0 then [] else [RetagStack (ancestorDiscriminant f)])
                   @ [Call (WalkFn (inner (f_type f)))
                        (Unbox (FieldPtr (offsetVarName f) (f_type f)))]"
    from w ws have "walksW P n [''Box''] ?T v" by simp
    from unbox[OF this rd n2(2)]
    have "runs_from (exec (Suc m1) P default_visitor)
            [Call (WalkFn (inner (f_type f)))
               (Unbox (FieldPtr (offsetVarName f) (f_type f)))] (env s)" .
    from retag_prefix[OF dsc st this, of k] show ?thesis
      unfolding c m1 by simp
  next
    assume ws: "wrappers (f_type f) = []"
      and c: "code = (if k = 0 then [] else [RetagStack (ancestorDiscriminant f)])
                   @ [Call (WalkFn (inner (f_type f)))
                        (FieldPtr (offsetVarName f) (f_type f))]"
    from w ws have "walks P n ?T v" by simp
    from call[OF this rd n2(2)]
    have "runs_from (exec (Suc m1) P default_visitor)
            [Call (WalkFn (inner (f_type f)))
               (FieldPtr (offsetVarName f) (f_type f))] (env s)" .
    from retag_prefix[OF dsc st this, of k] show ?thesis
      unfolding c m1 by simp
  qed
qed

lemma common_bound:
  assumes "\<forall>x \<in> set xs. \<exists>n. Q n x"
    and mono: "\<And>x n m. Q n x \<Longrightarrow> n \<le> m \<Longrightarrow> Q m x"
  shows "\<exists>N. \<forall>x \<in> set xs. Q (N::nat) x"
  using assms(1)
proof (induction xs)
  case Nil
  show ?case by simp
next
  case (Cons x xs)
  from Cons.prems obtain n where n: "Q n x" by auto
  from Cons.IH Cons.prems obtain N where N: "\<forall>x \<in> set xs. Q N x" by auto
  have "\<forall>y \<in> set (x # xs). Q (max n N) y"
    using n N mono[of _ _ "max n N"] by auto
  then show ?case ..
qed

lemma execs_retag_only:
  assumes ok: "program_ok P" and cs: "list_all retag_only cs"
    and run: "execs (exec n P vis) cs s = Inr s'"
  shows "same_below s s'"
proof (rule execs_rel[OF frame_same_below _ run])
  fix c a b
  assume "c \<in> set cs" "exec n P vis c a = Inr b"
  with exec_stack[OF ok this(2)] cs show "same_below a b"
    by (simp add: list_all_iff)
qed

lemma fieldsCodes_run:
  assumes gen: "generate types = Some (Inr P)"
    and m: "n + 4 \<le> m"
  shows "fieldsCodesFrom vfs k = Inr codes
    \<Longrightarrow> \<forall>f \<in> set vfs. ancestorDiscriminant f \<noteq> None
          \<and> (\<exists>v. read_expr (p_ancestor P) en (FieldPtr (offsetVarName f) (f_type f)) = Some v
                 \<and> walksW P n (wrappers (f_type f)) (inner (f_type f)) v)
    \<Longrightarrow> env s = en \<Longrightarrow> stack s \<noteq> []
    \<Longrightarrow> \<exists>s'. execs (exec m P default_visitor) (concat codes) s = Inr s'
             \<and> env s' = en \<and> stack s' \<noteq> []"
proof (induction vfs arbitrary: k codes s)
  case Nil
  then show ?case by simp
next
  case (Cons f vfs)
  from Cons.prems(1) obtain c cs where
    c: "fieldCodeFor f k = Inr c" and cs: "fieldsCodesFrom vfs (Suc k) = Inr cs"
    and codes: "codes = c # cs"
    by (auto split: sum.splits)
  from Cons.prems(2) obtain v where
    d: "ancestorDiscriminant f \<noteq> None"
    and rd: "read_expr (p_ancestor P) en (FieldPtr (offsetVarName f) (f_type f)) = Some v"
    and w: "walksW P n (wrappers (f_type f)) (inner (f_type f)) v"
    by auto
  from rd Cons.prems(3)
  have rd': "read_expr (p_ancestor P) (env s) (FieldPtr (offsetVarName f) (f_type f)) = Some v"
    by simp
  from fieldCode_runs[OF gen c rd' d w Cons.prems(4) m] obtain s1 where
    s1: "execs (exec m P default_visitor) c s = Inr s1" by blast
  from execs_env[OF keeps_env_exec s1] Cons.prems(3) have e1: "env s1 = en" by simp
  from execs_retag_only[OF generated_program_ok[OF gen] fieldCodeFor_retag_only[OF c] s1]
    Cons.prems(4)
  have st1: "stack s1 \<noteq> []" by (auto simp: same_below_def)
  from Cons.IH[OF cs _ e1 st1] Cons.prems(2) obtain s2 where
    s2: "execs (exec m P default_visitor) (concat cs) s1 = Inr s2"
    and r: "env s2 = en" "stack s2 \<noteq> []"
    by auto
  from s1 s2 have "execs (exec m P default_visitor) (c @ concat cs) s = Inr s2"
    by (auto simp: execs_append)
  with codes r show ?case by simp
qed

lemma Ancestor_tags:
  "map fst (Ancestor (fst (generateAncestorsCode types)))
     = None # map Some (ancestorTags types types)"
proof -
  obtain items avs ts d where
    loop: "ancestorTypesLoop types types 1 = (items, avs, ts, d)"
    by (cases "ancestorTypesLoop types types 1") auto
  from ancestorTypesLoop_discriminants[OF loop]
  have c: "map av_name avs = ancestorTags types types" by auto
  have "map fst (map (\<lambda>v. (Some (av_name v), av_discriminant v)) avs)
        = map Some (map av_name avs)" by simp
  with c have "map fst (map (\<lambda>v. (Some (av_name v), av_discriminant v)) avs)
        = map Some (ancestorTags types types)" by simp
  moreover from loop have "enumVariants (fst (generateAncestorsCode types)) = avs"
    by (simp add: generateAncestorsCode_def)
  ultimately show ?thesis
    by (simp only: Ancestor_def list.map fst_conv)
qed

lemma push_tag:
  assumes "Struct n l fs \<in> set types" and "g < length fs"
    and "types_get types (innerTypeName (fs ! g)) \<noteq> None"
  shows "\<exists>d. map_of (Ancestor (fst (generateAncestorsCode types)))
               (Some (VariantName n (f_name (fs ! g)))) = Some d"
proof -
  from ancestorTags_member[OF assms]
  have "Some (VariantName n (f_name (fs ! g)))
          \<in> set (map fst (Ancestor (fst (generateAncestorsCode types))))"
    unfolding Ancestor_tags by simp
  then show ?thesis
    by (cases "map_of (Ancestor (fst (generateAncestorsCode types)))
                 (Some (VariantName n (f_name (fs ! g))))")
       (auto simp: map_of_eq_None_iff)
qed

lemma generated_find:
  assumes gen: "generate types = Some (Inr P)" and dist: "distinct (map t_name types)"
    and t: "types_get (snd (generateAncestorsCode types)) T = Some t"
  shows "\<exists>fd. find (\<lambda>fd. fd_name fd = WalkFn T) (p_walk P) = Some fd
           \<and> generatedFor (snd (generateAncestorsCode types)) t fd"
proof -
  let ?ts = "snd (generateAncestorsCode types)"
  from gen obtain t0 where
    t0: "t0 = ?ts" and walk: "generateWalkFunctionsCode t0 = Some (Inr (p_walk P))"
    by (rule generate_program)
  from walk[unfolded t0] obtain ms where
    fns: "p_walk P = ms @ [walk_statements]"
    and all: "list_all2 (generatedFor ?ts) ?ts ms"
    by (rule generated_program)
  from annotated_names[OF generateAncestorsCode_annotated, of types] dist
  have dist': "distinct (map t_name ?ts)" by simp
  from types_get_Some[OF t] have mem: "t \<in> set ?ts" and name: "t_name t = T" by simp_all
  from find_generated[OF all dist' mem, of "[walk_statements]"] fns name
  show ?thesis by simp
qed

lemma annotated_struct_field:
  assumes dist: "distinct (map t_name types)"
    and names: "\<forall>n l fs. Struct n l fs \<in> set types \<longrightarrow> distinct (map f_name fs)"
    and mem: "Struct T l fs' \<in> set (snd (generateAncestorsCode types))"
    and f: "f \<in> set fs'"
  shows "offsetVarName f = Some (OFFSET T (f_name f))
       \<and> offsetConst (fst (generateAncestorsCode types)) (OFFSET T (f_name f))
           = Some (T, f_rawName f)
       \<and> (types_get (snd (generateAncestorsCode types)) (inner (f_type f)) \<noteq> None
            \<longrightarrow> ancestorDiscriminant f \<noteq> None
              \<and> (\<exists>d. map_of (Ancestor (fst (generateAncestorsCode types)))
                        (Some (VariantName T (f_name f))) = Some d))"
proof -
  let ?ts = "snd (generateAncestorsCode types)"
  note ann = generateAncestorsCode_annotated[of types]
  from annotated_mem[OF ann mem] obtain t where
    t: "t \<in> set types" and a: "annotated types t (Struct T l fs')" by blast
  from a obtain fs where
    t_eq: "t = Struct T l fs" and all: "list_all2 (annotated_field types T) fs fs'"
    by (cases t) (auto simp: annotated_def)
  from f obtain j where j: "j < length fs'" "f = fs' ! j"
    by (auto simp: in_set_conv_nth)
  from all j have jl: "j < length fs" and af: "annotated_field types T (fs ! j) f"
    by (auto simp: list_all2_conv_all_nth)
  from t t_eq have mem0: "Struct T l fs \<in> set types" by simp
  with names have dn: "distinct (map f_name fs)" by blast
  from af have eqs: "f_name f = f_name (fs ! j)" "f_type f = f_type (fs ! j)"
    "f_rawName f = f_rawName (fs ! j)" "offsetVarName f = Some (OFFSET T (f_name (fs ! j)))"
    and disc: "types_get types (innerTypeName (fs ! j)) \<noteq> None
               \<Longrightarrow> ancestorDiscriminant f \<noteq> None"
    by (simp_all add: annotated_field_def)
  have inner: "innerTypeName (fs ! j) = inner (f_type f)"
    by (simp add: innerTypeName_def unwrapTypeName_def typeAndWrappers_def eqs)
  have cat: "types_get types (innerTypeName (fs ! j)) \<noteq> None"
    if "types_get ?ts (inner (f_type f)) \<noteq> None"
    using that annotated_types_get[OF ann, of "inner (f_type f)"] inner by simp
  from offsetConst_field[OF dist mem0 dn jl] eqs
  have oc: "offsetConst (fst (generateAncestorsCode types)) (OFFSET T (f_name f))
           = Some (T, f_rawName f)" by simp
  from push_tag[OF mem0 jl] eqs
  have tag: "types_get types (innerTypeName (fs ! j)) \<noteq> None
      \<Longrightarrow> \<exists>d. map_of (Ancestor (fst (generateAncestorsCode types)))
                        (Some (VariantName T (f_name f))) = Some d"
    by simp
  from eqs(1,4) oc disc tag cat show ?thesis by auto
qed

lemma struct_walks:
  assumes gen: "generate types = Some (Inr P)"
    and dist: "distinct (map t_name types)"
    and names: "\<forall>n l fs. Struct n l fs \<in> set types \<longrightarrow> distinct (map f_name fs)"
    and ty: "types_get (snd (generateAncestorsCode types)) T = Some (Struct nm l fs)"
    and vals: "\<forall>f \<in> set fs.
        types_get (snd (generateAncestorsCode types)) (inner (f_type f)) \<noteq> None
        \<longrightarrow> (\<exists>v. map_of fvals (f_rawName f) = Some v
                 \<and> walksW P n (wrappers (f_type f)) (inner (f_type f)) v)"
  shows "walks P (n + 5) T (VStruct T fvals)"
proof -
  let ?ts = "snd (generateAncestorsCode types)"
  let ?A = "fst (generateAncestorsCode types)"
  let ?en = "[(''node'', VStruct T fvals)]"
  from types_get_Some[OF ty] have mem: "Struct nm l fs \<in> set ?ts" and nm: "nm = T"
    by auto
  from gen have A: "p_ancestor P = ?A" by (rule generate_program)
  from generated_find[OF gen dist ty] obtain fd where
    fd: "find (\<lambda>fd. fd_name fd = WalkFn T) (p_walk P) = Some fd"
    and g: "generateWalkForStruct (Struct T l fs) ?ts = Inr fd"
    by (auto simp: generatedFor_def nm)
  from g obtain codes where
    codes: "fieldsCodesFrom (visitedFieldsOf ?ts fs) 0 = Inr codes"
    and fd_eq: "fd = \<lparr>fd_name = WalkFn T, fd_param = ''node'',
           fd_body = CallHook (EnterHook T) (Var ''node'')
             # (case visitedFieldsOf ?ts fs of
                  [] \<Rightarrow> []
                | field # rest \<Rightarrow>
                    PushStack (VariantName T (f_name field)) (Without T (f_name field))
                    # concat codes @ [PopStack])
             @ [CallHook (ExitHook T) (Var ''node'')]\<rparr>"
    by (rule generateWalkForStruct_body)
  have hooks: "map_of (p_trait P) (EnterHook T) = Some []"
    "map_of (p_trait P) (ExitHook T) = Some []"
    using mem nm by (auto intro!: generated_trait[OF gen] bexI[of _ "Struct nm l fs"])
  have visited: "ancestorDiscriminant f \<noteq> None
      \<and> (\<exists>d. map_of (Ancestor (p_ancestor P)) (Some (VariantName T (f_name f))) = Some d)
      \<and> (\<exists>v. read_expr (p_ancestor P) ?en (FieldPtr (offsetVarName f) (f_type f)) = Some v
             \<and> walksW P n (wrappers (f_type f)) (inner (f_type f)) v)"
    if "f \<in> set (visitedFieldsOf ?ts fs)" for f
  proof -
    from that have f: "f \<in> set fs" and cat: "types_get ?ts (inner (f_type f)) \<noteq> None"
      by (auto simp: visitedFieldsOf_def unwrapTypeName_def typeAndWrappers_def)
    from annotated_struct_field[OF dist names mem[unfolded nm] f] cat
    have ov: "offsetVarName f = Some (OFFSET T (f_name f))"
      and oc: "offsetConst ?A (OFFSET T (f_name f)) = Some (T, f_rawName f)"
      and d: "ancestorDiscriminant f \<noteq> None"
      and tag: "\<exists>d. map_of (Ancestor ?A) (Some (VariantName T (f_name f))) = Some d"
      by auto
    from vals f cat obtain v where
      v: "map_of fvals (f_rawName f) = Some v"
      and w: "walksW P n (wrappers (f_type f)) (inner (f_type f)) v"
      by blast
    from ov oc v
    have "read_expr (p_ancestor P) ?en (FieldPtr (offsetVarName f) (f_type f)) = Some v"
      by (simp add: A)
    with d tag w show ?thesis by (auto simp: A)
  qed
  have run: "\<exists>s'. execs (exec m P default_visitor) (fd_body fd)
                    (s\<lparr>env := [(fd_param fd, VStruct T fvals)]\<rparr>) = Inr s'"
    if m: "n + 5 \<le> m" for m s
  proof -
    from m obtain m1 where m1: "m = Suc m1" by (cases m) auto
    from m have m4: "n + 4 \<le> m" by simp
    let ?X = "exec m P default_visitor"
    let ?s0 = "s\<lparr>env := ?en\<rparr>"
    let ?s1 = "?s0\<lparr>trace := trace ?s0 @ [EvHook (EnterHook T) (stack ?s0)]\<rparr>"
    have h1: "?X (CallHook (EnterHook T) (Var ''node'')) ?s0 = Inr ?s1"
      unfolding m1 exec.simps by (rule run_CallHook[OF hooks(1)]) simp
    have exit: "\<exists>t'. ?X (CallHook (ExitHook T) (Var ''node'')) t = Inr t'"
      if "env t = ?en" for t
      unfolding m1 exec.simps using run_CallHook[OF hooks(2), of t "Var ''node''"] that
      by simp
    show ?thesis
    proof (cases "visitedFieldsOf ?ts fs")
      case Nil
      from exit[of ?s1] obtain t' where
        "?X (CallHook (ExitHook T) (Var ''node'')) ?s1 = Inr t'" by auto
      with h1 Nil fd_eq show ?thesis by (simp del: exec.simps)
    next
      case (Cons first rest)
      from visited[of first] Cons obtain d where
        d: "map_of (Ancestor (p_ancestor P)) (Some (VariantName T (f_name first))) = Some d"
        by auto
      let ?s2 = "?s1\<lparr>stack := d # stack ?s1,
                     trace := trace ?s1 @ [EvPush (VariantName T (f_name first)) d]\<rparr>"
      have h2: "?X (PushStack (VariantName T (f_name first)) (Without T (f_name first))) ?s1
                = Inr ?s2"
        unfolding m1 using d by simp
      from visited have "\<forall>f \<in> set (visitedFieldsOf ?ts fs). ancestorDiscriminant f \<noteq> None
          \<and> (\<exists>v. read_expr (p_ancestor P) ?en (FieldPtr (offsetVarName f) (f_type f)) = Some v
                 \<and> walksW P n (wrappers (f_type f)) (inner (f_type f)) v)"
        by blast
      from fieldsCodes_run[OF gen m4 codes this, of ?s2] obtain s3 where
        h3: "execs ?X (concat codes) ?s2 = Inr s3"
        and e3: "env s3 = ?en" and st3: "stack s3 \<noteq> []"
        by auto
      from st3 obtain x xs where xs: "stack s3 = x # xs" by (cases "stack s3") auto
      let ?s4 = "s3\<lparr>stack := xs, trace := trace s3 @ [EvPop]\<rparr>"
      have h4: "?X PopStack s3 = Inr ?s4"
        unfolding m1 using xs by simp
      from exit[of ?s4] e3 obtain s5 where
        h5: "?X (CallHook (ExitHook T) (Var ''node'')) ?s4 = Inr s5" by auto
      have "execs ?X (fd_body fd) ?s0 = Inr s5"
        unfolding fd_eq using Cons h1 h2 h3 h4 h5
        by (simp add: execs_append del: exec.simps)
      then show ?thesis by (simp add: fd_eq)
    qed
  qed
  with fd show ?thesis unfolding walks_def by blast
qed

lemma enum_walks:
  assumes gen: "generate types = Some (Inr P)"
    and dist: "distinct (map t_name types)"
    and ty: "types_get (snd (generateAncestorsCode types)) T = Some (Enum nm l vs inh)"
    and sel: "\<And>codes.
        variantCodesFrom (snd (generateAncestorsCode types)) T vs = Inr (map (ownArm T) vs)
        \<Longrightarrow> list_all2 (inheritedArm (snd (generateAncestorsCode types)) T) inh codes
        \<Longrightarrow> \<exists>b T' e u. select_arm (map (ownArm T) vs @ codes) vn
                         = Some (b, Call (WalkFn T') e)
                \<and> walks P n T' u
                \<and> read_expr (p_ancestor P)
                     ((case b of None \<Rightarrow> [] | Some x \<Rightarrow> [(x, payload)])
                      @ [(''node'', VEnum vn payload)]) e = Some u"
  shows "walks P (n + 2) T (VEnum vn payload)"
proof -
  let ?ts = "snd (generateAncestorsCode types)"
  let ?en = "[(''node'', VEnum vn payload)]"
  from types_get_Some[OF ty] have mem: "Enum nm l vs inh \<in> set ?ts" and nm: "nm = T"
    by auto
  from generated_find[OF gen dist ty] obtain fd where
    fd: "find (\<lambda>fd. fd_name fd = WalkFn T) (p_walk P) = Some fd"
    and g: "generateWalkForEnum (Enum T l vs inh) ?ts = Some (Inr fd)"
    by (auto simp: generatedFor_def nm)
  from g obtain codes where
    own: "variantCodesFrom ?ts T vs = Inr (map (ownArm T) vs)"
    and codes: "inheritedCodes ?ts T inh [] = Some (codes, [])"
    and fd_eq: "fd = \<lparr>fd_name = WalkFn T, fd_param = ''node'',
           fd_body = [CallHook (EnterHook T) (Var ''node''),
                      Match (Var ''node'') (map (ownArm T) vs @ codes),
                      CallHook (ExitHook T) (Var ''node'')]\<rparr>"
    by (rule generateWalkForEnum_body)
  from inheritedCodes_arms[OF codes]
  have arms: "list_all2 (inheritedArm ?ts T) inh codes" by simp
  from sel[OF own arms] obtain b T' e u where
    arm: "select_arm (map (ownArm T) vs @ codes) vn = Some (b, Call (WalkFn T') e)"
    and w: "walks P n T' u"
    and rd: "read_expr (p_ancestor P)
               ((case b of None \<Rightarrow> [] | Some x \<Rightarrow> [(x, payload)]) @ ?en) e = Some u"
    by blast
  have hooks: "map_of (p_trait P) (EnterHook T) = Some []"
    "map_of (p_trait P) (ExitHook T) = Some []"
    using mem nm by (auto intro!: generated_trait[OF gen] bexI[of _ "Enum nm l vs inh"])
  have run: "\<exists>s'. execs (exec m P default_visitor) (fd_body fd)
                    (s\<lparr>env := [(fd_param fd, VEnum vn payload)]\<rparr>) = Inr s'"
    if m: "n + 2 \<le> m" for m s
  proof -
    from m obtain m1 where m1: "m = Suc m1" "n + 1 \<le> m1" by (cases m) auto
    from m1(2) obtain m2 where m2: "m1 = Suc m2" "n \<le> m2" by (cases m1) auto
    let ?X = "exec m P default_visitor"
    let ?s0 = "s\<lparr>env := ?en\<rparr>"
    let ?s1 = "?s0\<lparr>trace := trace ?s0 @ [EvHook (EnterHook T) (stack ?s0)]\<rparr>"
    have h1: "?X (CallHook (EnterHook T) (Var ''node'')) ?s0 = Inr ?s1"
      unfolding m1 exec.simps by (rule run_CallHook[OF hooks(1)]) simp
    have rd1: "read_expr (p_ancestor P) (env ?s1) (Var ''node'') = Some (VEnum vn payload)"
      by simp
    have "\<exists>s2. ?X (Match (Var ''node'') (map (ownArm T) vs @ codes)) ?s1 = Inr s2"
    proof (cases b)
      case None
      from runs_from_call[OF w m2(2) rd] None
      have "runs_from (exec m1 P default_visitor) [Call (WalkFn T') e] ?en"
        unfolding m2(1) by simp
      moreover have "env ?s1 = ?en" by simp
      ultimately obtain t where
        "execs (exec m1 P default_visitor) [Call (WalkFn T') e] ?s1 = Inr t"
        using runs_fromD by blast
      then have "exec m1 P default_visitor (Call (WalkFn T') e) ?s1 = Inr t"
        by (simp only: execs_single)
      from run_Match_pass[where X = "exec m1 P default_visitor", OF rd1 arm[unfolded None] this]
      show ?thesis
        unfolding m1(1) exec.simps by blast
    next
      case (Some x)
      let ?s1' = "?s1\<lparr>env := (x, payload) # env ?s1\<rparr>"
      from runs_from_call[OF w m2(2) rd] Some
      have "runs_from (exec m1 P default_visitor) [Call (WalkFn T') e] ((x, payload) # ?en)"
        unfolding m2(1) by simp
      moreover have "env ?s1' = (x, payload) # ?en" by simp
      ultimately obtain t where
        "execs (exec m1 P default_visitor) [Call (WalkFn T') e] ?s1' = Inr t"
        using runs_fromD by blast
      then have "exec m1 P default_visitor (Call (WalkFn T') e) ?s1' = Inr t"
        by (simp only: execs_single)
      from run_Match_bind[OF keeps_env_exec rd1 arm[unfolded Some] this] show ?thesis
        unfolding m1(1) exec.simps by blast
    qed
    then obtain s2 where
      h2: "?X (Match (Var ''node'') (map (ownArm T) vs @ codes)) ?s1 = Inr s2" ..
    from exec_env[OF h2] have e2: "env s2 = ?en" by simp
    let ?s3 = "s2\<lparr>trace := trace s2 @ [EvHook (ExitHook T) (stack s2)]\<rparr>"
    have h3: "?X (CallHook (ExitHook T) (Var ''node'')) s2 = Inr ?s3"
      unfolding m1 exec.simps by (rule run_CallHook[OF hooks(2)]) (simp add: e2)
    have "execs ?X (fd_body fd) ?s0 = Inr ?s3"
      unfolding fd_eq using h1 h2 h3 by (simp del: exec.simps)
    then show ?thesis by (auto simp: fd_eq simp del: exec.simps)
  qed
  with fd show ?thesis unfolding walks_def by blast
qed

lemma enum_own_walks:
  assumes gen: "generate types = Some (Inr P)"
    and dist: "distinct (map t_name types)"
    and ty: "types_get (snd (generateAncestorsCode types)) T = Some (Enum nm l vs inh)"
    and var: "find (\<lambda>x. v_name x = vn) vs = Some var"
    and w: "walksW P n (wrappers (v_type var)) (inner (v_type var)) payload"
  shows "walks P (n + 2) T (VEnum vn payload)"
proof (rule enum_walks[OF gen dist ty])
  fix codes
  let ?ts = "snd (generateAncestorsCode types)"
  assume own: "variantCodesFrom ?ts T vs = Inr (map (ownArm T) vs)"
  from var have mem: "var \<in> set vs" by (auto simp: find_Some_iff)
  with variantCodesFrom_own[OF own]
  have ws: "wrappers (v_type var) = [''Box''] \<or> wrappers (v_type var) = []" by blast
  from select_arm_own[of T vs codes vn] var
  have arm: "select_arm (map (ownArm T) vs @ codes) vn = Some (Some ''node'', snd (ownArm T var))"
    by simp
  from ws show "\<exists>b T' e u. select_arm (map (ownArm T) vs @ codes) vn
                         = Some (b, Call (WalkFn T') e)
                \<and> walks P n T' u
                \<and> read_expr (p_ancestor P)
                     ((case b of None \<Rightarrow> [] | Some x \<Rightarrow> [(x, payload)])
                      @ [(''node'', VEnum vn payload)]) e = Some u"
  proof
    assume box: "wrappers (v_type var) = [''Box'']"
    with w obtain u where u: "payload = VBox u" "walks P n (inner (v_type var)) u"
      by (cases payload) auto
    from arm box have "select_arm (map (ownArm T) vs @ codes) vn
        = Some (Some ''node'', Call (WalkFn (inner (v_type var))) (Unbox (Var ''node'')))"
      by (simp add: ownArm_def)
    moreover have "read_expr (p_ancestor P)
        ((case Some ''node'' of None \<Rightarrow> [] | Some x \<Rightarrow> [(x, payload)])
         @ [(''node'', VEnum vn payload)]) (Unbox (Var ''node'')) = Some u"
      using u(1) by simp
    ultimately show ?thesis using u(2) by blast
  next
    assume nil: "wrappers (v_type var) = []"
    with w have u: "walks P n (inner (v_type var)) payload" by simp
    from arm nil have "select_arm (map (ownArm T) vs @ codes) vn
        = Some (Some ''node'', Call (WalkFn (inner (v_type var))) (Var ''node''))"
      by (simp add: ownArm_def)
    moreover have "read_expr (p_ancestor P)
        ((case Some ''node'' of None \<Rightarrow> [] | Some x \<Rightarrow> [(x, payload)])
         @ [(''node'', VEnum vn payload)]) (Var ''node'') = Some payload"
      by simp
    ultimately show ?thesis using u by blast
  qed
qed

lemma enum_inherited_walks:
  assumes gen: "generate types = Some (Inr P)"
    and dist: "distinct (map t_name types)"
    and ty: "types_get (snd (generateAncestorsCode types)) T = Some (Enum nm l vs inh)"
    and none: "find (\<lambda>x. v_name x = vn) vs = None"
    and ex: "\<exists>b \<in> set inh. inherits_variant (snd (generateAncestorsCode types)) b vn"
    and all: "\<forall>b \<in> set inh. inherits_variant (snd (generateAncestorsCode types)) b vn
                \<longrightarrow> walks P n b (VEnum vn payload)"
  shows "walks P (n + 2) T (VEnum vn payload)"
proof (rule enum_walks[OF gen dist ty])
  fix codes
  let ?ts = "snd (generateAncestorsCode types)"
  assume arms: "list_all2 (inheritedArm ?ts T) inh codes"
  from select_arm_inherited[OF arms ex] obtain B where
    B: "B \<in> set inh" "select_arm codes vn = Some (None, Call (WalkFn B) (Var ''node''))"
    "inherits_variant ?ts B vn"
    by blast
  from select_arm_own[of T vs codes vn] none B(2)
  have "select_arm (map (ownArm T) vs @ codes) vn
        = Some (None, Call (WalkFn B) (Var ''node''))"
    by simp
  moreover from all B have "walks P n B (VEnum vn payload)" by blast
  moreover have "read_expr (p_ancestor P)
        ((case None of None \<Rightarrow> [] | Some x \<Rightarrow> [(x, payload)])
         @ [(''node'', VEnum vn payload)]) (Var ''node'') = Some (VEnum vn payload)"
    by simp
  ultimately show "\<exists>b T' e u. select_arm (map (ownArm T) vs @ codes) vn
                         = Some (b, Call (WalkFn T') e)
                \<and> walks P n T' u
                \<and> read_expr (p_ancestor P)
                     ((case b of None \<Rightarrow> [] | Some x \<Rightarrow> [(x, payload)])
                      @ [(''node'', VEnum vn payload)]) e = Some u"
    by blast
qed

lemma own_variant_catalogued:
  assumes gen: "generate types = Some (Inr P)"
    and dist: "distinct (map t_name types)"
    and ty: "types_get (snd (generateAncestorsCode types)) T = Some (Enum nm l vs inh)"
    and var: "var \<in> set vs"
  shows "types_get (snd (generateAncestorsCode types)) (inner (v_type var)) \<noteq> None"
proof -
  let ?ts = "snd (generateAncestorsCode types)"
  from types_get_Some[OF ty] have nm: "nm = T" by auto
  from generated_find[OF gen dist ty] obtain fd where
    "generateWalkForEnum (Enum T l vs inh) ?ts = Some (Inr fd)"
    by (auto simp: generatedFor_def nm)
  then obtain codes where
    own: "variantCodesFrom ?ts T vs = Inr (map (ownArm T) vs)"
    by (rule generateWalkForEnum_body)
  from variantCodesFrom_own[OF own] var show ?thesis by blast
qed

lemma inherits_variant_catalogued:
  "inherits_variant types b v \<Longrightarrow> types_get types b \<noteq> None"
  by (erule inherits_variant.cases) simp_all

lemma conforms_walks:
  assumes gen: "generate types = Some (Inr P)"
    and dist: "distinct (map t_name types)"
    and names: "\<forall>n l fs. Struct n l fs \<in> set types \<longrightarrow> distinct (map f_name fs)"
  shows "conforms (snd (generateAncestorsCode types)) ws T v
    \<Longrightarrow> types_get (snd (generateAncestorsCode types)) T \<noteq> None
    \<Longrightarrow> \<exists>n. walksW P n ws T v"
proof (induction rule: conforms.induct)
  case (terminal T ws v)
  then show ?case by simp
next
  case (struct T n l fs fvals)
  let ?ts = "snd (generateAncestorsCode types)"
  let ?Q = "\<lambda>N f. types_get ?ts (inner (f_type f)) \<noteq> None
              \<longrightarrow> (\<exists>v. map_of fvals (f_rawName f) = Some v
                     \<and> walksW P N (wrappers (f_type f)) (inner (f_type f)) v)"
  from struct.IH have "\<forall>f \<in> set fs. \<exists>N. ?Q N f" by blast
  then have "\<exists>N. \<forall>f \<in> set fs. ?Q N f"
    by (rule common_bound) (blast intro: walksW_mono)
  then obtain N where "\<forall>f \<in> set fs. ?Q N f" ..
  from struct_walks[OF gen dist names struct.hyps(1) this]
  show ?case by (auto intro: exI[of _ "N + 5"])
next
  case (own T n l vs inh vn var payload)
  from own.hyps(2) have "var \<in> set vs" by (auto simp: find_Some_iff)
  from own_variant_catalogued[OF gen dist own.hyps(1) this] own.IH obtain k where
    "walksW P k (wrappers (v_type var)) (inner (v_type var)) payload" by blast
  from enum_own_walks[OF gen dist own.hyps(1,2) this]
  show ?case by (auto intro: exI[of _ "k + 2"])
next
  case (inherited T n l vs inh vn payload)
  let ?ts = "snd (generateAncestorsCode types)"
  let ?Q = "\<lambda>N b. inherits_variant ?ts b vn \<longrightarrow> walks P N b (VEnum vn payload)"
  from inherited.IH inherits_variant_catalogued
  have "\<forall>b \<in> set inh. \<exists>N. ?Q N b" by fastforce
  then have "\<exists>N. \<forall>b \<in> set inh. ?Q N b"
    by (rule common_bound) (blast intro: walks_mono)
  then obtain N where "\<forall>b \<in> set inh. ?Q N b" ..
  from enum_inherited_walks[OF gen dist inherited.hyps(1,2,3) this]
  show ?case by (auto intro: exI[of _ "N + 2"])
next
  case (none ws T)
  show ?case by simp
next
  case (some ws T v)
  then show ?case by simp
next
  case (vec vs ws T)
  then have "\<forall>v \<in> set vs. \<exists>N. walksW P N ws T v" by blast
  then have "\<exists>N. \<forall>v \<in> set vs. walksW P N ws T v"
    by (rule common_bound) (blast intro: walksW_mono)
  then show ?case by (simp add: list_all_iff)
next
  case (box ws T v)
  then show ?case by simp
qed

lemma conforms_traverse:
  assumes gen: "generate types = Some (Inr P)"
    and dist: "distinct (map t_name types)"
    and names: "\<forall>n l fs. Struct n l fs \<in> set types \<longrightarrow> distinct (map f_name fs)"
    and cat: "types_get (snd (generateAncestorsCode types)) T \<noteq> None"
    and conf: "conforms (snd (generateAncestorsCode types)) [] T root"
  shows "\<exists>N. \<forall>n \<ge> N. \<exists>s'. traverse n P default_visitor T root st = Inr s'"
proof -
  from conforms_walks[OF gen dist names conf cat] obtain k where
    k: "walks P k T root" by auto
  have "\<exists>s'. traverse n P default_visitor T root st = Inr s'" if "Suc k \<le> n" for n
  proof -
    from that obtain m where m: "n = Suc m" "k \<le> m" by (cases n) auto
    let ?s = "\<lparr>env = [(''node'', root)], stack = st, trace = []\<rparr>"
    have "read_expr (p_ancestor P) [(''node'', root)] (Var ''node'') = Some root" by simp
    from runs_from_call[OF k m(2) this] have
      "runs_from (exec (Suc m) P default_visitor) [Call (WalkFn T) (Var ''node'')]
         [(''node'', root)]" .
    moreover have "env ?s = [(''node'', root)]" by simp
    ultimately obtain s' where
      "execs (exec (Suc m) P default_visitor) [Call (WalkFn T) (Var ''node'')] ?s = Inr s'"
      using runs_fromD by blast
    then have "exec (Suc m) P default_visitor (Call (WalkFn T) (Var ''node'')) ?s = Inr s'"
      by (simp only: execs_single)
    then show ?thesis unfolding traverse_def m(1) by blast
  qed
  then show ?thesis by blast
qed

text \<open>
  C7. A traversal with the default visitor over a generated program. Whenever it returns,
  the ancestor stack is the one the traversal was started with (empty, when started with
  the empty stack), the events of the run have as many pushes as pops, and the tree is the
  tree that was passed in. And it does return, with enough fuel, on every tree that
  conforms to the catalogue, when the catalogue has distinct type names and every struct
  distinct field names.
\<close>

theorem default_traversal_identity:
  assumes "generate types = Some (Inr P)"
  shows "(\<forall>n s'. traverse n P default_visitor T root st = Inr s'
            \<longrightarrow> stack s' = st \<and> pushes (trace s') = pops (trace s')
                \<and> env s' = [(''node'', root)])
       \<and> (distinct (map t_name types)
            \<and> (\<forall>n l fs. Struct n l fs \<in> set types \<longrightarrow> distinct (map f_name fs))
            \<and> types_get (snd (generateAncestorsCode types)) T \<noteq> None
            \<and> conforms (snd (generateAncestorsCode types)) [] T root
          \<longrightarrow> (\<exists>N. \<forall>n \<ge> N. \<exists>s'. traverse n P default_visitor T root st = Inr s'))"
proof (intro conjI allI impI)
  fix n s'
  assume t: "traverse n P default_visitor T root st = Inr s'"
  let ?s = "\<lparr>env = [(''node'', root)], stack = st, trace = []\<rparr>"
  from t have run: "exec n P default_visitor (Call (WalkFn T) (Var ''node'')) ?s = Inr s'"
    by (simp add: traverse_def)
  from exec_stack[OF generated_program_ok[OF assms(1)] run]
  have "same_stack ?s s'" by simp
  then show "stack s' = st" "pushes (trace s') = pops (trace s')"
    by (auto simp: same_stack_def)
  from exec_env[OF run] show "env s' = [(''node'', root)]" by simp
next
  assume "distinct (map t_name types)
            \<and> (\<forall>n l fs. Struct n l fs \<in> set types \<longrightarrow> distinct (map f_name fs))
            \<and> types_get (snd (generateAncestorsCode types)) T \<noteq> None
            \<and> conforms (snd (generateAncestorsCode types)) [] T root"
  then show "\<exists>N. \<forall>n \<ge> N. \<exists>s'. traverse n P default_visitor T root st = Inr s'"
    using conforms_traverse[OF assms(1)] by blast
qed

lemma ex_sum_conforms: "conforms ex_annotated [] ''BinaryExpression'' ex_sum"
proof -
  define bfs where "bfs = fieldsOf (ex_annotated ! 0)"
  define lfs where "lfs = fieldsOf (ex_annotated ! 1)"
  define evs where "evs = (case ex_annotated ! 2 of Enum n l vs inh \<Rightarrow> vs | _ \<Rightarrow> [])"
  define einh where "einh = (case ex_annotated ! 2 of Enum n l vs inh \<Rightarrow> inh | _ \<Rightarrow> [])"
  have tb: "types_get ex_annotated ''BinaryExpression''
            = Some (Struct ''BinaryExpression'' True bfs)"
    unfolding bfs_def by code_simp
  have tl: "types_get ex_annotated ''NumericLiteral''
            = Some (Struct ''NumericLiteral'' True lfs)"
    unfolding lfs_def by code_simp
  have te: "types_get ex_annotated ''Expression'' = Some (Enum ''Expression'' True evs einh)"
    unfolding evs_def einh_def by code_simp
  have leafs: "types_get ex_annotated ''Span'' = None" "types_get ex_annotated ''f64'' = None"
    "types_get ex_annotated ''BinaryOperator'' = None"
    by code_simp+
  have lf: "list_all (\<lambda>f. (f_rawName f, f_type f)
              \<in> set [(''span'', RustType [] ''Span''), (''value'', RustType [] ''f64'')]) lfs"
    unfolding lfs_def by code_simp
  have bf: "list_all (\<lambda>f. (f_rawName f, f_type f)
              \<in> set [(''span'', RustType [] ''Span''), (''left'', RustType [] ''Expression''),
                     (''operator'', RustType [] ''BinaryOperator''),
                     (''right'', RustType [] ''Expression'')]) bfs"
    unfolding bfs_def by code_simp
  have var: "find (\<lambda>x. v_name x = ''NumericLiteral'') evs = Some (hd evs)"
    "v_type (hd evs) = RustType [''Box''] ''NumericLiteral''"
    unfolding evs_def by code_simp+
  have num: "conforms ex_annotated [] ''NumericLiteral''
      (VStruct ''NumericLiteral'' [(''span'', VLeaf ''0..1''), (''value'', VLeaf k)])" for k
  proof (rule conforms.struct[OF tl], rule ballI)
    fix f assume "f \<in> set lfs"
    with lf have "(f_rawName f, f_type f)
        \<in> set [(''span'', RustType [] ''Span''), (''value'', RustType [] ''f64'')]"
      by (simp add: list_all_iff)
    then show "\<exists>v. map_of [(''span'', VLeaf ''0..1''), (''value'', VLeaf k)] (f_rawName f) = Some v
              \<and> conforms ex_annotated (wrappers (f_type f)) (inner (f_type f)) v"
      using leafs by (auto intro: conforms.terminal)
  qed
  have expr: "conforms ex_annotated [] ''Expression'' (ex_number k)" for k
    unfolding ex_number_def
    by (rule conforms.own[OF te var(1)]) (simp add: var(2) conforms.box num)
  show ?thesis
    unfolding ex_sum_def
  proof (rule conforms.struct[OF tb], rule ballI)
    fix f assume "f \<in> set bfs"
    with bf have "(f_rawName f, f_type f)
        \<in> set [(''span'', RustType [] ''Span''), (''left'', RustType [] ''Expression''),
               (''operator'', RustType [] ''BinaryOperator''),
               (''right'', RustType [] ''Expression'')]"
      by (simp add: list_all_iff)
    then show "\<exists>v. map_of [(''span'', VLeaf ''0..5''), (''left'', ex_number ''1''),
                           (''operator'', VLeaf ''+''), (''right'', ex_number ''2'')]
                     (f_rawName f) = Some v
              \<and> conforms ex_annotated (wrappers (f_type f)) (inner (f_type f)) v"
      using leafs expr by (auto intro: conforms.terminal)
  qed
qed

theorem default_traversal_identity_witness:
  "(\<exists>s'. traverse 6 ex_program default_visitor ''BinaryExpression'' ex_sum [] = Inr s'
       \<and> stack s' = [] \<and> pushes (trace s') = pops (trace s')
       \<and> env s' = [(''node'', ex_sum)])
   \<and> (\<exists>N s'. traverse N ex_program default_visitor ''BinaryExpression'' ex_sum [] = Inr s')"
proof -
  have d: "distinct (map t_name ex_types)" by code_simp
  have "list_all (\<lambda>t. distinct (map f_name (fieldsOf t))) ex_types" by code_simp
  then have f: "\<forall>n l fs. Struct n l fs \<in> set ex_types \<longrightarrow> distinct (map f_name fs)"
    by (auto simp: list_all_iff fieldsOf_def split: type_def.splits)
  have c: "types_get (snd (generateAncestorsCode ex_types)) ''BinaryExpression'' \<noteq> None"
    by code_simp
  note w = ex_sum_conforms[unfolded ex_annotated_def]
  note dt = default_traversal_identity[OF ex_program_generated,
      of "''BinaryExpression''" ex_sum "[]"]
  from dt ex_sum_run have a: "\<exists>s'. traverse 6 ex_program default_visitor ''BinaryExpression'' ex_sum []
       = Inr s' \<and> stack s' = [] \<and> pushes (trace s') = pops (trace s')
       \<and> env s' = [(''node'', ex_sum)]"
    by blast
  from dt d f c w obtain N where
    "\<forall>n \<ge> N. \<exists>s'. traverse n ex_program default_visitor ''BinaryExpression'' ex_sum [] = Inr s'"
    by blast
  then have b: "\<exists>N s'. traverse N ex_program default_visitor ''BinaryExpression'' ex_sum [] = Inr s'"
    by blast
  from a b show ?thesis ..
qed

end
